(* ===== verification/Prelude.thy ===== *)
theory Prelude
  imports "HOL-Library.Word" "HOL-Library.Char_ord" "HOL-Library.List_Lexorder"
begin

section \<open>Shared vocabulary of the development\<close>

text \<open>
  What every component uses: Go's strings and byte slices (both are HOL's \<open>string\<close>, whose
  characters are bytes), Go's 64-bit integers, Go's errors as values, the codec interface that the
  encoders of the standard library implement, and the generic lemmas on lists and options.
\<close>

named_theorems len_simps \<open>lengths of hashes, digests and encodings\<close>
named_theorems wf_intros \<open>well-formedness of values the program builds\<close>

subsection \<open>Go types\<close>

text \<open>A Go \<open>string\<close> and a \<open>[]byte\<close> are sequences of bytes; \<open>int64\<close> is a 64-bit two's complement
  word that is read with \<open>sint\<close>. An instant (\<open>time.Time\<close>) is its distance in nanoseconds from the
  Unix epoch.\<close>

type_synonym bytes = string
type_synonym int64 = "64 word"
type_synonym go_time = int

definition int64_max :: int where
  "int64_max = 9223372036854775807"

text \<open>An error value is what \<open>fmt.Errorf\<close> was given (format and arguments, a wrapped error
  included), or a value of a package, named by its text.\<close>

datatype go_error = Errorf string "go_arg list" | Sentinel string
  and go_arg = ArgS string | ArgI int | ArgE go_error

type_synonym 'a result = "go_error + 'a"

text \<open>\<open>errors.Is\<close>: the error itself or one it wraps.\<close>

primrec errors_is :: "go_error \<Rightarrow> go_error \<Rightarrow> bool"
    and arg_is :: "go_error \<Rightarrow> go_arg \<Rightarrow> bool" where
  "errors_is t (Errorf f as) = (Errorf f as = t \<or> list_ex id (map (arg_is t) as))"
| "errors_is t (Sentinel s) = (Sentinel s = t)"
| "arg_is t (ArgS s) = False"
| "arg_is t (ArgI i) = False"
| "arg_is t (ArgE e) = errors_is t e"

lemma errors_is_refl [simp]: "errors_is e e"
  by (cases e) simp_all

text \<open>\<open>err.Error()\<close>: the format with the arguments in place of its verbs, which are \<^verbatim>\<open>%s\<close>, \<^verbatim>\<open>%d\<close>, \<^verbatim>\<open>%v\<close> or \<^verbatim>\<open>%w\<close> in
  every message the code turns into text. \<open>show_int\<close> prints a number.\<close>

fun fill_verbs :: "string \<Rightarrow> string list \<Rightarrow> string" where
  "fill_verbs [] as = []"
| "fill_verbs (c # cs) as =
     (if c = CHR ''%'' then (case (cs, as) of (verb # ds, a # bs) \<Rightarrow> a @ fill_verbs ds bs | _ \<Rightarrow> c # cs)
      else c # fill_verbs cs as)"

primrec error_text :: "(int \<Rightarrow> string) \<Rightarrow> go_error \<Rightarrow> string"
    and arg_text :: "(int \<Rightarrow> string) \<Rightarrow> go_arg \<Rightarrow> string" where
  "error_text show_int (Errorf f as) = fill_verbs f (map (arg_text show_int) as)"
| "error_text show_int (Sentinel s) = s"
| "arg_text show_int (ArgS s) = s"
| "arg_text show_int (ArgI i) = show_int i"
| "arg_text show_int (ArgE e) = error_text show_int e"

fun is_ok :: "'e + 'a \<Rightarrow> bool" where
  "is_ok (Inr _) = True"
| "is_ok (Inl _) = False"

lemma is_ok_iff: "is_ok r \<longleftrightarrow> (\<exists>x. r = Inr x)"
  by (cases r) auto

fun ok_value :: "'e + 'a \<Rightarrow> 'a option" where
  "ok_value (Inr x) = Some x"
| "ok_value (Inl _) = None"

lemma ok_value_eq_Some [simp]: "ok_value r = Some x \<longleftrightarrow> r = Inr x"
  by (cases r) auto

subsection \<open>Codecs\<close>

text \<open>An encoder and its decoder. \<open>wf\<close> singles out the values the encoder represents exactly.\<close>

locale codec =
  fixes enc :: "'a \<Rightarrow> string" and dec :: "string \<Rightarrow> 'a option" and wf :: "'a \<Rightarrow> bool"
  assumes dec_enc: "wf x \<Longrightarrow> dec (enc x) = Some x"
begin

lemma enc_inj: "wf x \<Longrightarrow> wf y \<Longrightarrow> enc x = enc y \<Longrightarrow> x = y"
  by (metis dec_enc option.inject)

lemma enc_inj_on: "inj_on enc {x. wf x}"
  by (rule inj_onI) (simp add: enc_inj)

end

text \<open>A codec whose decoder yields well-formed values only: re-encoding is a normal form.\<close>

locale normal_codec = codec +
  assumes dec_wf: "dec s = Some x \<Longrightarrow> wf x"
begin

lemma normal_idem: "map_option enc (dec s) = Some c \<Longrightarrow> map_option enc (dec c) = Some c"
  using dec_enc dec_wf by auto

lemma normal_eq_iff:
  assumes "dec s = Some x" and "dec t = Some y"
  shows "enc x = enc y \<longleftrightarrow> x = y"
  using assms dec_wf enc_inj by blast

end

subsection \<open>Lists and characters\<close>

lemma char_of_nat_eq_iff: "m < 256 \<Longrightarrow> n < 256 \<Longrightarrow> char_of m = (char_of n :: char) \<longleftrightarrow> m = (n :: nat)"
  by (metis char_of_eq_iff of_char_of mod_less)

text \<open>Deciding an equation between a computed character and a literal.\<close>

lemma char_of_eq_char: "n < 256 \<Longrightarrow> char_of n = c \<longleftrightarrow> n = (of_char c :: nat)"
  by (metis char_of_char mod_less of_char_of)

lemma concat_length_const:
  "\<forall>x \<in> set xs. length (f x) = k \<Longrightarrow> length (concat (map f xs)) = k * length xs"
  by (induction xs) auto

subsection \<open>Digests\<close>

text \<open>What the chain and the Merkle tree rely on in their hash function: a digest of a fixed length.
  Collision resistance is never assumed of it; a lemma that needs it takes injectivity on the finite
  set of messages in question as a hypothesis.\<close>

locale digest =
  fixes H :: "bytes \<Rightarrow> bytes" and n :: nat
  assumes length_H: "length (H m) = n"
begin

lemma pair_inject: "c # H x @ H y = d # H x' @ H y' \<longleftrightarrow> c = d \<and> H x = H x' \<and> H y = H y'"
  by (simp add: length_H)

lemma collision_free: "inj_on H S \<Longrightarrow> x \<in> S \<Longrightarrow> y \<in> S \<Longrightarrow> H x = H y \<longleftrightarrow> x = y"
  by (rule inj_on_eq_iff)

lemma tagged_apart: "inj_on H S \<Longrightarrow> c # x \<in> S \<Longrightarrow> d # y \<in> S \<Longrightarrow> c \<noteq> d \<Longrightarrow> H (c # x) \<noteq> H (d # y)"
  by (auto dest: inj_onD)

end

end
