(* ===== verification/Gomap.thy ===== *)
theory Gomap
  imports Prelude "HOL-Library.Multiset"
begin

section \<open>Go maps with string keys\<close>

text \<open>
  A \<open>map[string]T\<close> as the list of its entries in increasing key order without duplicates, so that
  two maps with the same entries are the same value. \<open>encoding/json\<close> writes a map in this order.
  The interface \<open>keyed_store\<close> states what a store with insertion, lookup and deletion promises; the
  functions below provide it, and so do the registries of the plugin.
\<close>

locale keyed_store =
  fixes get :: "'s \<Rightarrow> string \<Rightarrow> 'v option"
    and put :: "string \<Rightarrow> 'v \<Rightarrow> 's \<Rightarrow> 's"
    and del :: "string \<Rightarrow> 's \<Rightarrow> 's"
    and ok :: "'s \<Rightarrow> bool"
  assumes get_put: "ok m \<Longrightarrow> get (put k v m) k' = (if k' = k then Some v else get m k')"
    and get_del: "ok m \<Longrightarrow> get (del k m) k' = (if k' = k then None else get m k')"
    and ok_put: "ok m \<Longrightarrow> ok (put k v m)"
    and ok_del: "ok m \<Longrightarrow> ok (del k m)"
begin

lemma get_put_same: "ok m \<Longrightarrow> get (put k v m) k = Some v"
  by (simp add: get_put)

lemma put_put: "ok m \<Longrightarrow> get (put k v (put k w m)) = get (put k v m)"
  by (rule ext) (simp add: get_put ok_put)

lemma get_del_same: "ok m \<Longrightarrow> get (del k m) k = None"
  by (simp add: get_del)

lemma put_del: "ok m \<Longrightarrow> get (put k v (del k m)) = get (put k v m)"
  by (rule ext) (simp add: get_put get_del ok_del)

lemma del_put_fresh: "ok m \<Longrightarrow> get m k = None \<Longrightarrow> get (del k (put k v m)) = get m"
  by (rule ext) (simp add: get_put get_del ok_put)

text \<open>Registering, overwriting and removing a key never touches another key.\<close>

lemma other_key: "ok m \<Longrightarrow> k' \<noteq> k \<Longrightarrow> get (put k v m) k' = get m k' \<and> get (del k m) k' = get m k'"
  by (simp add: get_put get_del)

end

subsection \<open>Entries in key order\<close>

definition sorted_keys :: "(string \<times> 'v) list \<Rightarrow> bool" where
  "sorted_keys ps \<longleftrightarrow> sorted_wrt (<) (map fst ps)"

fun map_put :: "string \<Rightarrow> 'v \<Rightarrow> (string \<times> 'v) list \<Rightarrow> (string \<times> 'v) list" where
  "map_put k v [] = [(k, v)]"
| "map_put k v (p # ps) =
     (if fst p < k then p # map_put k v ps
      else if fst p = k then (k, v) # ps
      else (k, v) # p # ps)"

definition map_get :: "(string \<times> 'v) list \<Rightarrow> string \<Rightarrow> 'v option" where
  "map_get = map_of"

definition map_del :: "string \<Rightarrow> (string \<times> 'v) list \<Rightarrow> (string \<times> 'v) list" where
  "map_del k ps = filter (\<lambda>p. fst p \<noteq> k) ps"

text \<open>The map a decoder fills from the members of an object: a later member replaces an earlier one
  with the same key.\<close>

definition map_of_members :: "(string \<times> 'v) list \<Rightarrow> (string \<times> 'v) list" where
  "map_of_members ps = fold (\<lambda>(k, v). map_put k v) ps []"

lemma sorted_keys_Nil [simp]: "sorted_keys []"
  by (simp add: sorted_keys_def)

lemma sorted_keys_Cons: "sorted_keys (p # ps) \<longleftrightarrow> (\<forall>q \<in> set ps. fst p < fst q) \<and> sorted_keys ps"
  by (simp add: sorted_keys_def)

lemma set_map_put: "set (map_put k v ps) \<subseteq> insert (k, v) (set ps)"
  by (induction ps) auto

lemma fst_set_map_put: "fst ` set (map_put k v ps) = insert k (fst ` set ps)"
  by (induction ps) auto

lemma sorted_keys_map_put [wf_intros]: "sorted_keys ps \<Longrightarrow> sorted_keys (map_put k v ps)"
proof (induction ps)
  case (Cons p ps)
  have "fst p < fst q" if "fst p < k" and "q \<in> set (map_put k v ps)" for q
    using that set_map_put [of k v ps] Cons.prems by (auto simp: sorted_keys_Cons)
  with Cons show ?case by (auto simp: sorted_keys_Cons)
qed (simp add: sorted_keys_def)

lemma map_get_map_put: "sorted_keys ps \<Longrightarrow> map_get (map_put k v ps) k' = (if k' = k then Some v else map_get ps k')"
  by (induction ps) (auto simp: map_get_def sorted_keys_Cons)

lemma sorted_keys_filter: "sorted_keys ps \<Longrightarrow> sorted_keys (filter P ps)"
  by (induction ps) (auto simp: sorted_keys_Cons)

lemma sorted_keys_map_del [wf_intros]: "sorted_keys ps \<Longrightarrow> sorted_keys (map_del k ps)"
  by (simp add: map_del_def sorted_keys_filter)

lemma map_get_map_del: "map_get (map_del k ps) k' = (if k' = k then None else map_get ps k')"
  by (induction ps) (auto simp: map_get_def map_del_def)

interpretation gomap: keyed_store map_get map_put map_del sorted_keys
  by unfold_locales (simp_all add: map_get_map_put map_get_map_del sorted_keys_map_put sorted_keys_map_del)

lemma sorted_keys_map_of_members [wf_intros]: "sorted_keys (map_of_members ps)"
proof -
  have "sorted_keys acc \<Longrightarrow> sorted_keys (fold (\<lambda>(k, v). map_put k v) ps acc)" for acc :: "(string \<times> 'a) list"
    by (induction ps arbitrary: acc) (auto intro: sorted_keys_map_put)
  then show ?thesis by (simp add: map_of_members_def)
qed

lemma set_map_of_members: "set (map_of_members ps) \<subseteq> set ps"
proof -
  have "set (fold (\<lambda>(k, v). map_put k v) ps acc) \<subseteq> set acc \<union> set ps" for acc :: "(string \<times> 'a) list"
  proof (induction ps arbitrary: acc)
    case (Cons p ps)
    show ?case using Cons [of "map_put (fst p) (snd p) acc"] set_map_put [of "fst p" "snd p" acc]
      by (auto simp: split_beta)
  qed simp
  from this [of "[]"] show ?thesis by (simp add: map_of_members_def)
qed

lemma map_put_last: "\<forall>p \<in> set ps. fst p < k \<Longrightarrow> map_put k v ps = ps @ [(k, v)]"
  by (induction ps) auto

lemma map_of_members_sorted: "sorted_keys ps \<Longrightarrow> map_of_members ps = ps"
proof -
  have "fold (\<lambda>(k, v). map_put k v) ps acc = acc @ ps"
    if "sorted_keys (acc @ ps)" for acc :: "(string \<times> 'a) list"
    using that
  proof (induction ps arbitrary: acc)
    case (Cons p ps)
    have "\<forall>q \<in> set acc. fst q < fst p"
      using Cons.prems by (auto simp: sorted_keys_def sorted_wrt_append)
    then have "map_put (fst p) (snd p) acc = acc @ [p]"
      by (simp add: map_put_last)
    with Cons show ?case by (simp add: split_beta)
  qed simp
  from this [of "[]"] show "sorted_keys ps \<Longrightarrow> ?thesis" by (simp add: map_of_members_def)
qed

lemma map_get_map_of_members: "map_get (map_of_members ps) k = map_of (rev ps) k"
proof -
  have "map_get (fold (\<lambda>(k, v). map_put k v) ps acc) k = (map_of acc ++ map_of (rev ps)) k"
    if "sorted_keys acc" for acc :: "(string \<times> 'a) list"
    using that
  proof (induction ps arbitrary: acc)
    case Nil
    then show ?case by (simp add: map_get_def)
  next
    case (Cons p ps)
    have "map_of (map_put (fst p) (snd p) acc) = (map_of acc)(fst p \<mapsto> snd p)"
      using map_get_map_put [OF Cons.prems, of "fst p" "snd p"] by (simp add: map_get_def fun_eq_iff)
    with Cons.IH [OF sorted_keys_map_put [OF Cons.prems]] show ?case
      by (simp add: split_beta map_add_def split: option.split)
  qed
  from this [of "[]"] show ?thesis by (simp add: map_of_members_def)
qed

text \<open>Two maps with the same entries are equal, so the order in which distinct keys are inserted does
  not matter.\<close>

lemma sorted_keys_distinct: "sorted_keys ps \<Longrightarrow> distinct (map fst ps)"
  by (simp add: sorted_keys_def strict_sorted_iff)

lemma sorted_keys_unique:
  assumes "sorted_keys a" and "sorted_keys b" and "map_get a = map_get b"
  shows "a = b"
proof -
  have "fst ` set a = fst ` set b"
    using assms(3) by (metis dom_map_of_conv_image_fst map_get_def)
  then have keys: "map fst a = map fst b"
    using assms(1,2) by (intro strict_sorted_equal) (simp_all add: sorted_keys_def)
  have vals: "ps = map (\<lambda>k. (k, the (map_get ps k))) (map fst ps)" if "sorted_keys ps" for ps :: "(string \<times> 'a) list"
    using sorted_keys_distinct [OF that]
    by (simp add: comp_def map_get_def) (rule map_idI [symmetric], auto)
  show ?thesis using vals [OF assms(1)] vals [OF assms(2)] keys assms(3) by simp
qed

lemma map_of_members_perm:
  assumes "mset ms = mset ms'" and "distinct (map fst ms)"
  shows "map_of_members ms = map_of_members ms'"
proof (rule sorted_keys_unique)
  have "distinct (map fst ms')" using assms by (metis mset_eq_imp_distinct_iff mset_map)
  moreover have "set ms = set ms'" using assms(1) by (rule mset_eq_setD)
  ultimately have "map_of (rev ms) = map_of (rev ms')"
    using assms(2) by (intro map_of_inject_set [THEN iffD2]) (simp_all add: rev_map [symmetric])
  then show "map_get (map_of_members ms) = map_get (map_of_members ms')"
    by (simp add: map_get_map_of_members fun_eq_iff)
qed (rule sorted_keys_map_of_members)+

end
