(* ===== verification/Strconv.thy ===== *)
theory Strconv
  imports Prelude
begin

section \<open>Numbers and bytes as text\<close>

text \<open>
  What the program uses of Go's \<open>strconv\<close> and \<open>encoding/hex\<close>: decimal printing
  (\<open>strconv.Itoa\<close>, the JSON form of an \<open>int64\<close>), \<open>strconv.ParseInt(s, 10, 64)\<close> with its syntax and
  range errors, \<open>hex.EncodeToString\<close> and \<open>hex.DecodeString\<close>. The decimal and the hexadecimal form are
  codecs, so both encoders are injective.
\<close>

subsection \<open>Decimal\<close>

definition digit_char :: "nat \<Rightarrow> char" where
  "digit_char n = char_of (48 + n)"

definition is_digit :: "char \<Rightarrow> bool" where
  "is_digit c \<longleftrightarrow> 48 \<le> (of_char c :: nat) \<and> (of_char c :: nat) \<le> 57"

definition digit_value :: "char \<Rightarrow> nat" where
  "digit_value c = of_char c - 48"

fun format_nat :: "nat \<Rightarrow> string" where
  "format_nat n =
     (if n < 10 then [digit_char n] else format_nat (n div 10) @ [digit_char (n mod 10)])"

declare format_nat.simps [simp del]

definition format_int :: "int \<Rightarrow> string" where
  "format_int i = (if i < 0 then CHR ''-'' # format_nat (nat (- i)) else format_nat (nat i))"

definition num_error :: "string \<Rightarrow> string \<Rightarrow> go_error" where
  "num_error s what =
     Errorf ''strconv.ParseInt: parsing %q: %v'' [ArgS s, ArgE (Sentinel what)]"

text \<open>The loop of \<open>ParseUint\<close>: \<open>Inl True\<close> is a range error, \<open>Inl False\<close> a syntax error.\<close>

fun parse_digits :: "nat \<Rightarrow> string \<Rightarrow> bool + nat" where
  "parse_digits n [] = Inr n"
| "parse_digits n (c # cs) =
     (if \<not> is_digit c then Inl False
      else if 1844674407370955162 \<le> n then Inl True
      else let n1 = n * 10 + digit_value c
           in if 18446744073709551615 < n1 then Inl True else parse_digits n1 cs)"

definition split_sign :: "string \<Rightarrow> bool \<times> string" where
  "split_sign s =
     (case s of
        [] \<Rightarrow> (False, [])
      | c # cs \<Rightarrow>
          if c = CHR ''+'' then (False, cs) else if c = CHR ''-'' then (True, cs) else (False, s))"

definition parse_int64 :: "string \<Rightarrow> int64 result" where
  "parse_int64 s =
     (let (neg, ds) = split_sign s
      in if ds = [] then Inl (num_error s ''invalid syntax'')
         else case parse_digits 0 ds of
                Inl False \<Rightarrow> Inl (num_error s ''invalid syntax'')
              | Inl True \<Rightarrow> Inl (num_error s ''value out of range'')
              | Inr un \<Rightarrow>
                  if (\<not> neg \<and> 9223372036854775808 \<le> un) \<or> (neg \<and> 9223372036854775808 < un)
                  then Inl (num_error s ''value out of range'')
                  else Inr (if neg then - of_nat un else of_nat un))"

lemma is_digit_digit_char [simp]: "n < 10 \<Longrightarrow> is_digit (digit_char n)"
  by (simp add: is_digit_def digit_char_def)

lemma digit_value_digit_char [simp]: "n < 10 \<Longrightarrow> digit_value (digit_char n) = n"
  by (simp add: digit_value_def digit_char_def)

lemma format_nat_not_Nil [simp]: "format_nat n \<noteq> []"
  by (subst format_nat.simps) simp

lemma format_nat_digits: "c \<in> set (format_nat n) \<Longrightarrow> is_digit c"
proof (induction n rule: format_nat.induct)
  case (1 n)
  then show ?case
    by (cases "n < 10") (auto simp: format_nat.simps [of n])
qed

lemma parse_digits_append:
  "parse_digits n (xs @ ys) =
     (case parse_digits n xs of Inl e \<Rightarrow> Inl e | Inr m \<Rightarrow> parse_digits m ys)"
  by (induction n xs rule: parse_digits.induct) (simp_all add: Let_def)

lemma parse_digits_format_nat:
  "n \<le> 18446744073709551615 \<Longrightarrow> parse_digits 0 (format_nat n) = Inr n"
proof (induction n rule: format_nat.induct)
  case (1 n)
  show ?case
  proof (cases "n < 10")
    case True
    then show ?thesis by (simp add: format_nat.simps [of n])
  next
    case False
    with 1 have "parse_digits 0 (format_nat (n div 10)) = Inr (n div 10)"
      by simp
    moreover have "\<not> 1844674407370955162 \<le> n div 10" using 1 by simp
    moreover have "n div 10 * 10 + n mod 10 = n" by simp
    ultimately show ?thesis
      using False 1 by (simp add: format_nat.simps [of n] parse_digits_append Let_def)
  qed
qed

lemma split_sign_format_nat: "split_sign (format_nat n) = (False, format_nat n)"
proof (cases "format_nat n")
  case (Cons c cs)
  then have "is_digit c" using format_nat_digits [of c n] by simp
  then have "c \<noteq> CHR ''+''" "c \<noteq> CHR ''-''" by (auto simp: is_digit_def)
  with Cons show ?thesis by (simp add: split_sign_def)
qed simp

lemma sint_range64: "- 9223372036854775808 \<le> sint (w :: int64)" "sint (w :: int64) < 9223372036854775808"
  using sint_greater_eq [of w] sint_lt [of w] by simp_all

lemma parse_format_int64: "parse_int64 (format_int (sint w)) = Inr w"
proof (cases "sint w < 0")
  case True
  define n where "n = nat (- sint w)"
  have n: "int n = - sint w" and "n \<le> 9223372036854775808"
    using True sint_range64 [of w] by (simp_all add: n_def)
  moreover have "- of_nat n = w"
  proof -
    have "- of_nat n = (of_int (- int n) :: int64)" by simp
    also have "\<dots> = w" unfolding n by simp
    finally show ?thesis .
  qed
  ultimately show ?thesis
    using True by (simp add: format_int_def parse_int64_def split_sign_def parse_digits_format_nat flip: n_def)
next
  case False
  define n where "n = nat (sint w)"
  have n: "int n = sint w" and "n < 9223372036854775808"
    using False sint_range64 [of w] by (simp_all add: n_def)
  moreover have "of_nat n = w"
  proof -
    have "of_nat n = (of_int (int n) :: int64)" by simp
    also have "\<dots> = w" unfolding n by simp
    finally show ?thesis .
  qed
  ultimately show ?thesis
    using False
    by (simp add: format_int_def parse_int64_def split_sign_format_nat parse_digits_format_nat flip: n_def)
qed

interpretation decimal64: codec "\<lambda>w :: int64. format_int (sint w)" "ok_value \<circ> parse_int64" "\<lambda>_. True"
  by unfold_locales (simp add: parse_format_int64)

subsection \<open>Hexadecimal\<close>

definition hex_digit :: "nat \<Rightarrow> char" where
  "hex_digit n = (if n < 10 then char_of (48 + n) else char_of (87 + n))"

definition hex_value :: "char \<Rightarrow> nat option" where
  "hex_value c =
     (let n = of_char c
      in if 48 \<le> n \<and> n \<le> 57 then Some (n - 48)
         else if 97 \<le> n \<and> n \<le> 102 then Some (n - 87)
         else if 65 \<le> n \<and> n \<le> 70 then Some (n - 55)
         else None)"

text \<open>\<open>hex.EncodeToString\<close> and \<open>hex.DecodeString\<close>.\<close>

fun hex_encode :: "bytes \<Rightarrow> string" where
  "hex_encode [] = []"
| "hex_encode (c # cs) =
     hex_digit (of_char c div 16) # hex_digit (of_char c mod 16) # hex_encode cs"

definition invalid_byte :: "char \<Rightarrow> go_error" where
  "invalid_byte c = Errorf ''encoding/hex: invalid byte: %#U'' [ArgI (of_char c)]"

fun hex_decode :: "string \<Rightarrow> bytes result" where
  "hex_decode [] = Inr []"
| "hex_decode [a] =
     (case hex_value a of
        None \<Rightarrow> Inl (invalid_byte a)
      | Some _ \<Rightarrow> Inl (Sentinel ''encoding/hex: odd length hex string''))"
| "hex_decode (a # b # cs) =
     (case hex_value a of
        None \<Rightarrow> Inl (invalid_byte a)
      | Some h \<Rightarrow>
          (case hex_value b of
             None \<Rightarrow> Inl (invalid_byte b)
           | Some l \<Rightarrow>
               (case hex_decode cs of
                  Inl e \<Rightarrow> Inl e
                | Inr bs \<Rightarrow> Inr (char_of (16 * h + l) # bs))))"

lemma hex_value_digit [simp]: "n < 16 \<Longrightarrow> hex_value (hex_digit n) = Some n"
  by (auto simp: hex_value_def hex_digit_def Let_def)

lemma length_hex_encode [simp, len_simps]: "length (hex_encode s) = 2 * length s"
  by (induction s) simp_all

lemma hex_encode_append [simp]: "hex_encode (s @ t) = hex_encode s @ hex_encode t"
  by (induction s) simp_all

lemma hex_decode_encode [simp]: "hex_decode (hex_encode s) = Inr s"
proof (induction s)
  case (Cons c s)
  have "16 * (of_char c div 16) + of_char c mod 16 = (of_char c :: nat)" by simp
  moreover have "of_char c div 16 < (16 :: nat)" by (simp add: less_mult_imp_div_less)
  ultimately show ?case using Cons by (simp del: mult_div_mod_eq)
qed simp

interpretation hex: codec hex_encode "ok_value \<circ> hex_decode" "\<lambda>_. True"
  by unfold_locales simp

lemmas hex_encode_inject = hex.enc_inj [OF TrueI TrueI]

lemma hex_encode_eq_iff [simp]: "hex_encode s = hex_encode t \<longleftrightarrow> s = t"
  by (auto intro: hex_encode_inject)

lemma hex_encode_lowercase: "c \<in> set (hex_encode s) \<Longrightarrow> is_digit c \<or> (CHR ''a'' \<le> c \<and> c \<le> CHR ''f'')"
proof (induction s)
  case (Cons b s)
  have "is_digit (hex_digit n) \<or> (CHR ''a'' \<le> hex_digit n \<and> hex_digit n \<le> CHR ''f'')" if "n < 16" for n
    using that by (auto simp: is_digit_def hex_digit_def less_eq_char_def)
  from this [of "of_char b div 16"] this [of "of_char b mod 16"] show ?case
    using Cons by (auto simp: less_mult_imp_div_less)
qed simp

lemma hex_decode_length: "hex_decode s = Inr b \<Longrightarrow> length s = 2 * length b"
  by (induction s arbitrary: b rule: hex_decode.induct) (auto split: option.splits sum.splits)

lemma hex_decode_ascii: "hex_decode s = Inr b \<Longrightarrow> c \<in> set s \<Longrightarrow> (of_char c :: nat) < 128"
  by (induction s arbitrary: b rule: hex_decode.induct)
    (auto simp: hex_value_def Let_def split: option.splits sum.splits if_splits)

text \<open>\<open>err.Error()\<close>, and \<open>strings.Join\<close>.\<close>

definition Error :: "go_error \<Rightarrow> string" where
  "Error e = error_text format_int e"

fun join :: "string \<Rightarrow> string list \<Rightarrow> string" where
  "join sep [] = []"
| "join sep [x] = x"
| "join sep (x # xs) = x @ sep @ join sep xs"

end
