(* ===== verification/Providers.thy ===== *)
theory Providers
  imports Strconv
begin

section \<open>Anchor providers\<close>

text \<open>
  \<^verbatim>\<open>providers/provider.go\<close>: the types every anchor backend shares and the \<open>AnchorProvider\<close> interface as a
  record of its methods. A method that talks to an external service is given the number of the call,
  so that repeated calls may answer differently. The locale \<open>swallowing_provider\<close> is the \<open>Verify\<close>
  contract of the interface's comment; the backends are interpretations of it.
\<close>

subsection \<open>The types\<close>

text \<open>\<open>ConfirmationLevel\<close> is a Go string type with three named constants.\<close>

type_synonym ConfirmationLevel = string

definition ConfirmationPending :: ConfirmationLevel where
  "ConfirmationPending = ''pending''"

definition ConfirmationConfirmed :: ConfirmationLevel where
  "ConfirmationConfirmed = ''confirmed''"

definition ConfirmationFinalized :: ConfirmationLevel where
  "ConfirmationFinalized = ''finalized''"

lemmas confirmation_defs = ConfirmationPending_def ConfirmationConfirmed_def ConfirmationFinalized_def

record Anchor =
  ProviderName :: string
  AnchoredAt :: go_time
  ExternalID :: string
  ProofData :: "bytes option"
  Confirmation :: ConfirmationLevel

record Verification =
  VProvider :: string
  VConfirmation :: ConfirmationLevel
  UpdatedAt :: go_time
  Swallowed :: bool
  ErrorMessage :: string

record Cost =
  PerAnchorUSDCents :: int64
  Notes :: string

record AnchorProvider =
  pName :: string
  pAnchor :: "nat \<Rightarrow> string \<Rightarrow> Anchor result"
  pVerify :: "nat \<Rightarrow> Anchor \<Rightarrow> Verification result"
  pCost :: "int64 \<Rightarrow> Cost"

subsection \<open>The Verify contract\<close>

text \<open>A transient failure is a swallowed verification that keeps the anchor's level and says why; what
  is not swallowed has no message. A provider never reports another provider's name.\<close>

locale swallowing_provider =
  fixes name :: string and verify :: "Anchor \<Rightarrow> Verification result"
  assumes swallowed_keeps: "verify a = Inr v \<Longrightarrow> Swallowed v \<Longrightarrow> VConfirmation v = Confirmation a"
    and swallowed_message: "verify a = Inr v \<Longrightarrow> Swallowed v \<Longrightarrow> ErrorMessage v \<noteq> []"
    and clean: "verify a = Inr v \<Longrightarrow> \<not> Swallowed v \<Longrightarrow> ErrorMessage v = []"
    and provider_name: "verify a = Inr v \<Longrightarrow> VProvider v = name"
begin

lemma swallowed_iff: "verify a = Inr v \<Longrightarrow> Swallowed v \<longleftrightarrow> ErrorMessage v \<noteq> []"
  using swallowed_message clean by blast

text \<open>A change of level is never reported together with an error.\<close>

lemma moved_clean:
  "verify a = Inr v \<Longrightarrow> VConfirmation v \<noteq> Confirmation a \<Longrightarrow> \<not> Swallowed v \<and> ErrorMessage v = []"
  using swallowed_keeps clean by blast

end

end
