(* ===== verification/Messages.thy ===== *)
theory Messages
  imports Prelude
begin

section \<open>The typed messages\<close>

text \<open>
  The messages of \<^verbatim>\<open>proto/audit.proto\<close> as the generated Go structs of \<^verbatim>\<open>gen/audit.pb.go\<close> have them, one
  record each, with the fields' Go names behind a prefix per message. The generated getters return a
  field, or its zero value when the pointer is nil; a nil message is therefore the record of zero
  values, except where the code asks for nil itself (the two merge functions), where it is \<open>None\<close>.
  A \<^verbatim>\<open>bytes\<close> field is an option only where the code tells nil from empty.
\<close>

subsection \<open>Module configurations\<close>

record LedgerConfig =
  lc_Name :: string
  lc_Description :: string
  lc_AnchorProviders :: "string list"
  lc_AnchorSchedule :: string
  lc_AnchorMinEntries :: "32 word"
  lc_PayloadSchema :: bytes
  lc_Dsn :: string

record OpenTimestampsProviderConfig =
  oc_CalendarServers :: "string list"
  oc_HttpTimeoutMs :: int64

record GitAnchorProviderConfig =
  gc_Remote :: string
  gc_Branch :: string
  gc_CommitTemplate :: string
  gc_AuthorName :: string
  gc_AuthorEmail :: string
  gc_UseSshAgent :: bool
  gc_SshKeyPath :: string
  gc_SshKeyPassword :: string
  gc_HttpUsername :: string
  gc_HttpPassword :: string

record SigstoreProviderConfig =
  sc_RekorUrl :: string

subsection \<open>step.audit.append, verify, merkle_root\<close>

record AppendRequest =
  aq_Ledger :: string
  aq_EventType :: string
  aq_Payload :: bytes
  aq_Actor :: string
  aq_Metadata :: "bytes option"

record AppendResponse =
  ar_Sequence :: int64
  ar_EntryHash :: string
  ar_CreatedAt :: string

record VerifyRequest =
  vq_Ledger :: string
  vq_StartSequence :: int64
  vq_EndSequence :: int64

record VerifyResponse =
  vr_Valid :: bool
  vr_FirstInvalidSequence :: int64
  vr_FailureReason :: string
  vr_EntriesVerified :: int64

record MerkleRootRequest =
  mq_Ledger :: string
  mq_StartSequence :: int64
  mq_EndSequence :: int64

record MerkleRootResponse =
  mr_Root :: string
  mr_EntriesIncluded :: int64
  mr_StartSequence :: int64
  mr_EndSequence :: int64

subsection \<open>step.audit.anchor and poll_anchor_confirmation\<close>

record AnchorRequest =
  nq_Ledger :: string
  nq_StartSequence :: int64
  nq_EndSequence :: int64
  nq_Providers :: "string list"

record AnchorRecord =
  rec_Provider :: string
  rec_ExternalId :: string
  rec_Confirmation :: string
  rec_AnchoredAt :: string

record AnchorResponse =
  nr_Anchors :: "AnchorRecord list"

record PollAnchorConfirmationConfig =
  pc_AnchorId :: string
  pc_Provider :: string
  pc_ExternalId :: string
  pc_ProofData :: string
  pc_Ledger :: string

record PollAnchorConfirmationRequest =
  pq_AnchorId :: string
  pq_Provider :: string
  pq_ExternalId :: string
  pq_ProofData :: bytes
  pq_Ledger :: string

record PollAnchorConfirmationResponse =
  pr_PreviousConfirmation :: string
  pr_CurrentConfirmation :: string
  pr_Transitioned :: bool
  pr_UpdatedAt :: string
  pr_Swallowed :: bool
  pr_ErrorMessage :: string

subsection \<open>step.audit.proof and public_receipt\<close>

record Entry =
  en_Sequence :: int64
  en_Ledger :: string
  en_EventType :: string
  en_Payload :: bytes
  en_EntryHash :: string
  en_PrevEntryHash :: string
  en_CreatedAt :: string
  en_Actor :: string
  en_Metadata :: "bytes option"

record ProofRequest =
  fq_Ledger :: string
  fq_Sequence :: int64

record ProofResponse =
  fr_Entry :: Entry
  fr_MerklePath :: "string list"
  fr_MerkleRoot :: string
  fr_Anchors :: "AnchorRecord list"

record PublicReceiptConfig =
  cc_Ledger :: string
  cc_Sequence :: string
  cc_RedactFields :: "string list"

record PublicReceiptRequest =
  cq_Ledger :: string
  cq_Sequence :: int64
  cq_RedactFields :: "string list"

record PublicReceiptResponse =
  cr_ReceiptUrl :: string
  cr_ReceiptJson :: string
  cr_ReceiptHash :: string

end
