(* ===== verification/Registry.thy ===== *)
theory Registry
  imports Gomap Providers Messages
begin

section \<open>The registries and the modules that fill them\<close>

text \<open>
  \<^verbatim>\<open>modules/ledger.go\<close> and \<^verbatim>\<open>modules/anchor_provider.go\<close>: the three package-level maps through which the
  steps find their ledgers, database pools and anchor providers, and the life cycle of the modules.
  The step relation at the end runs the operations of any number of modules one after the other, each as one
  step. (Every registry access holds a mutex, but \<open>Init\<close> and \<open>Stop\<close> make two of them: \<open>Module_Overlap\<close> takes the operations
  apart at their critical sections.)
\<close>

subsection \<open>The registries\<close>

text \<open>A \<open>*sql.DB\<close> is a connection pool: its identity and the data source it was opened with. A
  \<open>*chain.Appender\<close> holds nothing but its pool.\<close>

datatype sql_db = Pool (pool_id: nat) (pool_dsn: string)

datatype Appender = Appender (appender_db: sql_db)

definition NewAppender :: "sql_db \<Rightarrow> Appender" where
  "NewAppender db = Appender db"

record registry =
  ledgerRegistry :: "(string \<times> Appender) list"
  dbRegistry :: "(string \<times> sql_db) list"
  anchorProviderRegistry :: "(string \<times> AnchorProvider) list"

definition empty_registry :: registry where
  "empty_registry = \<lparr>ledgerRegistry = [], dbRegistry = [], anchorProviderRegistry = []\<rparr>"

definition RegisterDB :: "string \<Rightarrow> sql_db \<Rightarrow> registry \<Rightarrow> registry" where
  "RegisterDB partitionName db r = r\<lparr>dbRegistry := map_put partitionName db (dbRegistry r)\<rparr>"

definition GetDB :: "registry \<Rightarrow> string \<Rightarrow> sql_db option" where
  "GetDB r partitionName = map_get (dbRegistry r) partitionName"

definition UnregisterDB :: "string \<Rightarrow> registry \<Rightarrow> registry" where
  "UnregisterDB partitionName r = r\<lparr>dbRegistry := map_del partitionName (dbRegistry r)\<rparr>"

definition RegisterLedger :: "string \<Rightarrow> Appender \<Rightarrow> registry \<Rightarrow> registry" where
  "RegisterLedger partitionName a r = r\<lparr>ledgerRegistry := map_put partitionName a (ledgerRegistry r)\<rparr>"

definition GetLedger :: "registry \<Rightarrow> string \<Rightarrow> Appender option" where
  "GetLedger r partitionName = map_get (ledgerRegistry r) partitionName"

definition UnregisterLedger :: "string \<Rightarrow> registry \<Rightarrow> registry" where
  "UnregisterLedger partitionName r = r\<lparr>ledgerRegistry := map_del partitionName (ledgerRegistry r)\<rparr>"

definition RegisterAnchorProvider :: "string \<Rightarrow> AnchorProvider \<Rightarrow> registry \<Rightarrow> registry" where
  "RegisterAnchorProvider instanceName p r =
     r\<lparr>anchorProviderRegistry := map_put instanceName p (anchorProviderRegistry r)\<rparr>"

definition GetAnchorProvider :: "registry \<Rightarrow> string \<Rightarrow> AnchorProvider option" where
  "GetAnchorProvider r instanceName = map_get (anchorProviderRegistry r) instanceName"

definition UnregisterAnchorProvider :: "string \<Rightarrow> registry \<Rightarrow> registry" where
  "UnregisterAnchorProvider instanceName r =
     r\<lparr>anchorProviderRegistry := map_del instanceName (anchorProviderRegistry r)\<rparr>"

text \<open>Go's map iteration order is not specified: the caller gets the names in the order \<open>order\<close>
  makes of them.\<close>

definition AnchorProviderNames :: "(string list \<Rightarrow> string list) \<Rightarrow> registry \<Rightarrow> string list" where
  "AnchorProviderNames order r = order (map fst (anchorProviderRegistry r))"

definition registry_ok :: "registry \<Rightarrow> bool" where
  "registry_ok r \<longleftrightarrow> sorted_keys (ledgerRegistry r) \<and> sorted_keys (dbRegistry r)
     \<and> sorted_keys (anchorProviderRegistry r)"

lemmas registry_defs =
  RegisterDB_def GetDB_def UnregisterDB_def RegisterLedger_def GetLedger_def UnregisterLedger_def
  RegisterAnchorProvider_def GetAnchorProvider_def UnregisterAnchorProvider_def

lemmas map_facts =
  map_get_map_put map_get_map_del sorted_keys_map_put sorted_keys_map_del

interpretation db_store: keyed_store GetDB RegisterDB UnregisterDB registry_ok
  by unfold_locales (simp_all add: registry_defs registry_ok_def map_facts)

interpretation ledger_store: keyed_store GetLedger RegisterLedger UnregisterLedger registry_ok
  by unfold_locales (simp_all add: registry_defs registry_ok_def map_facts)

interpretation provider_store:
  keyed_store GetAnchorProvider RegisterAnchorProvider UnregisterAnchorProvider registry_ok
  by unfold_locales (simp_all add: registry_defs registry_ok_def map_facts)

text \<open>The registries are independent of each other.\<close>

lemma registry_apart [simp]:
  "GetDB (RegisterLedger n a r) = GetDB r" "GetDB (UnregisterLedger n r) = GetDB r"
  "GetDB (RegisterAnchorProvider n p r) = GetDB r" "GetDB (UnregisterAnchorProvider n r) = GetDB r"
  "GetLedger (RegisterDB n d r) = GetLedger r" "GetLedger (UnregisterDB n r) = GetLedger r"
  "GetLedger (RegisterAnchorProvider n p r) = GetLedger r" "GetLedger (UnregisterAnchorProvider n r) = GetLedger r"
  "GetAnchorProvider (RegisterDB n d r) = GetAnchorProvider r" "GetAnchorProvider (UnregisterDB n r) = GetAnchorProvider r"
  "GetAnchorProvider (RegisterLedger n a r) = GetAnchorProvider r" "GetAnchorProvider (UnregisterLedger n r) = GetAnchorProvider r"
  by (simp_all add: registry_defs fun_eq_iff)

subsection \<open>The ledger module\<close>

record LedgerModule =
  lm_instanceName :: string
  lm_config :: LedgerConfig
  lm_db :: "sql_db option"

abbreviation lm_name :: "LedgerModule \<Rightarrow> string" where
  "lm_name m \<equiv> lc_Name (lm_config m)"

abbreviation lm_dsn :: "LedgerModule \<Rightarrow> string" where
  "lm_dsn m \<equiv> lc_Dsn (lm_config m)"

definition NewLedgerModule :: "string \<Rightarrow> LedgerConfig \<Rightarrow> LedgerModule result" where
  "NewLedgerModule instanceName config =
     (if lc_Name config = [] then Inl (Errorf ''audit.ledger %q: config.name is required'' [ArgS instanceName])
      else if lc_Dsn config = [] then Inl (Errorf ''audit.ledger %q: config.dsn is required'' [ArgS instanceName])
      else Inr \<lparr>lm_instanceName = instanceName, lm_config = config, lm_db = None\<rparr>)"

text \<open>\<open>sql.Open\<close> parses the data source name (\<open>parse\<close> is the driver's verdict) and makes a pool with a
  fresh identity; it does not connect.\<close>

definition sql_open :: "(string \<Rightarrow> go_error option) \<Rightarrow> nat \<Rightarrow> string \<Rightarrow> sql_db result" where
  "sql_open parse fresh dsn = (case parse dsn of Some e \<Rightarrow> Inl e | None \<Rightarrow> Inr (Pool fresh dsn))"

definition LedgerInit ::
  "(string \<Rightarrow> go_error option) \<Rightarrow> nat \<Rightarrow> registry \<Rightarrow> LedgerModule
    \<Rightarrow> registry \<times> LedgerModule \<times> go_error option" where
  "LedgerInit parse fresh r m =
     (case lm_db m of
        Some d \<Rightarrow> (r, m, Some (Errorf ''audit.ledger %q: already initialized'' [ArgS (lm_instanceName m)]))
      | None \<Rightarrow>
     (case sql_open parse fresh (lm_dsn m) of
        Inl e \<Rightarrow> (r, m, Some (Errorf ''audit.ledger %q: open db: %w'' [ArgS (lm_instanceName m), ArgE e]))
      | Inr db \<Rightarrow>
          (RegisterDB (lm_name m) db (RegisterLedger (lm_name m) (NewAppender db) r),
           m\<lparr>lm_db := Some db\<rparr>, None)))"

definition LedgerStart :: "LedgerModule \<Rightarrow> go_error option" where
  "LedgerStart m = None"

text \<open>\<open>Stop\<close> also closes the pool, if there is one; \<open>close_fault\<close> is what \<open>Close\<close> returns. The pools
  closed are part of the result.\<close>

definition LedgerStop ::
  "go_error option \<Rightarrow> registry \<Rightarrow> LedgerModule \<Rightarrow> registry \<times> sql_db list \<times> go_error option" where
  "LedgerStop close_fault r m =
     (let r' = UnregisterDB (lm_name m) (UnregisterLedger (lm_name m) r)
      in case lm_db m of
           None \<Rightarrow> (r', [], None)
         | Some d \<Rightarrow> (r', [d], map_option
             (\<lambda>e. Errorf ''audit.ledger %q: close db: %w'' [ArgS (lm_instanceName m), ArgE e]) close_fault))"

subsection \<open>The anchor-provider module\<close>

record anchorProviderModule =
  pm_instanceName :: string
  pm_provider :: AnchorProvider

definition ProviderInit :: "registry \<Rightarrow> anchorProviderModule \<Rightarrow> registry \<times> go_error option" where
  "ProviderInit r m = (RegisterAnchorProvider (pm_instanceName m) (pm_provider m) r, None)"

definition ProviderStart :: "anchorProviderModule \<Rightarrow> go_error option" where
  "ProviderStart m = None"

definition ProviderStop :: "registry \<Rightarrow> anchorProviderModule \<Rightarrow> registry \<times> go_error option" where
  "ProviderStop r m = (UnregisterAnchorProvider (pm_instanceName m) r, None)"

subsection \<open>The life cycle\<close>

text \<open>The modules' operations one after the other, in any order: the registries, the ledger modules created so far,
  the next pool identity and the pools closed so far.\<close>

record lifecycle =
  lc_registry :: registry
  lc_modules :: "LedgerModule list"
  lc_next_pool :: nat
  lc_closed :: "sql_db list"

definition initial_lifecycle :: lifecycle where
  "initial_lifecycle = \<lparr>lc_registry = empty_registry, lc_modules = [], lc_next_pool = 0, lc_closed = []\<rparr>"

inductive lifecycle_step :: "lifecycle \<Rightarrow> lifecycle \<Rightarrow> bool" where
  create: "NewLedgerModule inst cfg = Inr m \<Longrightarrow> lifecycle_step s (s\<lparr>lc_modules := lc_modules s @ [m]\<rparr>)"
| init: "i < length (lc_modules s) \<Longrightarrow>
     LedgerInit parse (lc_next_pool s) (lc_registry s) (lc_modules s ! i) = (r, m, e) \<Longrightarrow>
     lifecycle_step s (s\<lparr>lc_registry := r, lc_modules := (lc_modules s)[i := m], lc_next_pool := Suc (lc_next_pool s)\<rparr>)"
| stop: "i < length (lc_modules s) \<Longrightarrow>
     LedgerStop close_fault (lc_registry s) (lc_modules s ! i) = (r, ds, e) \<Longrightarrow>
     lifecycle_step s (s\<lparr>lc_registry := r, lc_closed := ds @ lc_closed s\<rparr>)"
| provider_init: "ProviderInit (lc_registry s) pm = (r, e) \<Longrightarrow> lifecycle_step s (s\<lparr>lc_registry := r\<rparr>)"
| provider_stop: "ProviderStop (lc_registry s) pm = (r, e) \<Longrightarrow> lifecycle_step s (s\<lparr>lc_registry := r\<rparr>)"

inductive lifecycle_reachable :: "lifecycle \<Rightarrow> bool" where
  start: "lifecycle_reachable initial_lifecycle"
| step: "lifecycle_reachable s \<Longrightarrow> lifecycle_step s t \<Longrightarrow> lifecycle_reachable t"

text \<open>The owner of a pool is the position of the module that opened it.\<close>

definition owns :: "LedgerModule list \<Rightarrow> nat \<Rightarrow> sql_db \<Rightarrow> bool" where
  "owns ms i d \<longleftrightarrow> i < length ms \<and> lm_db (ms ! i) = Some d"

definition pools_ok :: "lifecycle \<Rightarrow> bool" where
  "pools_ok s \<longleftrightarrow>
     (\<forall>i d. owns (lc_modules s) i d \<longrightarrow> pool_id d < lc_next_pool s \<and> pool_dsn d = lm_dsn (lc_modules s ! i))
   \<and> (\<forall>i j d. owns (lc_modules s) i d \<and> owns (lc_modules s) j d \<longrightarrow> i = j)
   \<and> (\<forall>d \<in> set (lc_closed s). pool_id d < lc_next_pool s)"

definition entries_ok :: "lifecycle \<Rightarrow> bool" where
  "entries_ok s \<longleftrightarrow>
     (\<forall>n. GetLedger (lc_registry s) n = map_option NewAppender (GetDB (lc_registry s) n))
   \<and> (\<forall>n d. GetDB (lc_registry s) n = Some d \<longrightarrow>
        d \<notin> set (lc_closed s) \<and> (\<exists>i. owns (lc_modules s) i d \<and> lm_name (lc_modules s ! i) = n))"

definition lifecycle_ok :: "lifecycle \<Rightarrow> bool" where
  "lifecycle_ok s \<longleftrightarrow> registry_ok (lc_registry s) \<and> pools_ok s \<and> entries_ok s"

lemma owns_append: "owns (ms @ [m]) i d \<longleftrightarrow> owns ms i d \<or> i = length ms \<and> lm_db m = Some d"
  by (auto simp: owns_def nth_append less_Suc_eq)

lemma owns_update:
  "i < length ms \<Longrightarrow> owns (ms[i := m]) j d \<longleftrightarrow> (if j = i then lm_db m = Some d else owns ms j d)"
  by (auto simp: owns_def nth_list_update)

lemma get_facts:
  assumes "registry_ok r"
  shows "GetDB (RegisterDB n d r) k = (if k = n then Some d else GetDB r k)"
    and "GetDB (UnregisterDB n r) k = (if k = n then None else GetDB r k)"
    and "GetLedger (RegisterLedger n a r) k = (if k = n then Some a else GetLedger r k)"
    and "GetLedger (UnregisterLedger n r) k = (if k = n then None else GetLedger r k)"
  using assms by (simp_all add: db_store.get_put db_store.get_del ledger_store.get_put ledger_store.get_del)

lemma registry_ok_steps [wf_intros]:
  "registry_ok r \<Longrightarrow> registry_ok (RegisterDB n d r)" "registry_ok r \<Longrightarrow> registry_ok (UnregisterDB n r)"
  "registry_ok r \<Longrightarrow> registry_ok (RegisterLedger n a r)" "registry_ok r \<Longrightarrow> registry_ok (UnregisterLedger n r)"
  "registry_ok r \<Longrightarrow> registry_ok (RegisterAnchorProvider n p r)"
  "registry_ok r \<Longrightarrow> registry_ok (UnregisterAnchorProvider n r)"
  by (simp_all add: db_store.ok_put db_store.ok_del ledger_store.ok_put ledger_store.ok_del
      provider_store.ok_put provider_store.ok_del)

lemma LedgerInit_cases:
  assumes "LedgerInit parse fresh r m = (r', m', e)"
  obtains (failed) err where "r' = r" "m' = m" "e = Some err"
  | (opened) "lm_db m = None" "m' = m\<lparr>lm_db := Some (Pool fresh (lm_dsn m))\<rparr>" "e = None"
      "r' = RegisterDB (lm_name m) (Pool fresh (lm_dsn m))
              (RegisterLedger (lm_name m) (NewAppender (Pool fresh (lm_dsn m))) r)"
  using assms by (auto simp: LedgerInit_def sql_open_def split: option.splits sum.splits)

lemma LedgerStop_eq:
  assumes "LedgerStop cf r m = (r', ds, e)"
  shows "r' = UnregisterDB (lm_name m) (UnregisterLedger (lm_name m) r)" and "set ds = set_option (lm_db m)"
  using assms by (auto simp: LedgerStop_def Let_def split: option.splits)

lemma lifecycle_ok_initial: "lifecycle_ok initial_lifecycle"
  by (simp add: lifecycle_ok_def initial_lifecycle_def empty_registry_def registry_ok_def pools_ok_def
      entries_ok_def owns_def GetDB_def GetLedger_def map_get_def)

lemma pools_ok_step: "lifecycle_step s t \<Longrightarrow> pools_ok s \<Longrightarrow> pools_ok t"
proof (induction rule: lifecycle_step.induct)
  case (create inst cfg m s)
  then have "lm_db m = None" by (auto simp: NewLedgerModule_def split: if_splits)
  with create show ?case by (auto simp: pools_ok_def owns_append nth_append) (auto simp: owns_def)
next
  case (init i s parse r m e)
  from init(2) show ?case
  proof (cases rule: LedgerInit_cases)
    case (failed err)
    with init show ?thesis by (auto simp: pools_ok_def less_Suc_eq)
  next
    case opened
    define t where "t = s\<lparr>lc_registry := r, lc_modules := (lc_modules s)[i := m], lc_next_pool := Suc (lc_next_pool s)\<rparr>"
    have ids: "pool_id d < lc_next_pool s" "pool_dsn d = lm_dsn (lc_modules s ! j)" if "owns (lc_modules s) j d" for j d
      using that init.prems by (auto simp: pools_ok_def)
    have owns: "owns (lc_modules t) j d \<longleftrightarrow>
        (if j = i then d = Pool (lc_next_pool s) (lm_dsn (lc_modules s ! i)) else owns (lc_modules s) j d)" for j d
      using init.hyps(1) opened by (auto simp: t_def owns_update)
    have t: "lc_next_pool t = Suc (lc_next_pool s)" "lm_dsn (lc_modules t ! j) = lm_dsn (lc_modules s ! j)"
      "lc_closed t = lc_closed s" for j
      using init.hyps(1) opened by (auto simp: t_def nth_list_update)
    have "pools_ok t"
      unfolding pools_ok_def
    proof (intro conjI allI impI ballI)
      fix j d
      assume "owns (lc_modules t) j d"
      with ids [of j d] show "pool_id d < lc_next_pool t" "pool_dsn d = lm_dsn (lc_modules t ! j)"
        by (auto simp: owns t split: if_splits)
    next
      fix j k d
      assume "owns (lc_modules t) j d \<and> owns (lc_modules t) k d"
      then have "j = k \<or> owns (lc_modules s) j d \<and> owns (lc_modules s) k d"
        using ids(1) [of j d] ids(1) [of k d] by (auto simp: owns split: if_splits)
      with init.prems show "j = k" unfolding pools_ok_def by blast
    next
      fix d
      assume "d \<in> set (lc_closed t)"
      with init.prems show "pool_id d < lc_next_pool t" by (auto simp: t pools_ok_def less_Suc_eq)
    qed
    then show ?thesis by (simp add: t_def)
  qed
next
  case (stop i s cf r ds e)
  then show ?case
    using LedgerStop_eq(2) [OF stop(2)] by (auto simp: pools_ok_def owns_def)
qed (simp_all add: pools_ok_def)

lemma lifecycle_ok_step:
  assumes "lifecycle_step s t" and "lifecycle_ok s"
  shows "lifecycle_ok t"
proof -
  have ok: "registry_ok (lc_registry s)" "pools_ok s" "entries_ok s" using assms(2) by (simp_all add: lifecycle_ok_def)
  have "pools_ok t" using pools_ok_step assms(1) ok(2) by blast
  moreover have "registry_ok (lc_registry t) \<and> entries_ok t"
    using assms(1)
  proof cases
    case (create inst cfg m)
    then have "lm_db m = None" by (auto simp: NewLedgerModule_def split: if_splits)
    then have "\<exists>i. owns (lc_modules s @ [m]) i d \<and> lm_name ((lc_modules s @ [m]) ! i) = n"
      if "owns (lc_modules s) i d \<and> lm_name (lc_modules s ! i) = n" for i d n
      using that by (intro exI [of _ i]) (auto simp: owns_append nth_append owns_def)
    with create ok show ?thesis by (auto simp: entries_ok_def) blast+
  next
    case (init i parse r m e)
    from init(3) show ?thesis
    proof (cases rule: LedgerInit_cases)
      case (failed err)
      with init ok show ?thesis by (simp add: entries_ok_def)
    next
      case opened
      have fresh: "d \<noteq> Pool (lc_next_pool s) x" if "d \<in> set (lc_closed s)" for d x
        using that ok(2) by (auto simp: pools_ok_def)
      show ?thesis
        using init opened ok fresh
        by (auto simp: entries_ok_def get_facts registry_ok_steps owns_update nth_list_update NewAppender_def)
          (metis owns_def option.distinct(1))+
    qed
  next
    case (stop i cf r ds e)
    note r = LedgerStop_eq [OF stop(3)]
    have apart: "lm_name (lc_modules s ! i) = lm_name (lc_modules s ! j)"
      if "owns (lc_modules s) j d" "d \<in> set ds" for j d
    proof -
      have "owns (lc_modules s) i d" using that(2) stop(2) r(2) by (auto simp: owns_def)
      with that(1) ok(2) show ?thesis unfolding pools_ok_def by blast
    qed
    show ?thesis
      using stop(1) r(1) ok apart
      by (auto simp: entries_ok_def get_facts registry_ok_steps) (metis)+
  next
    case (provider_init pm r e)
    with ok show ?thesis by (auto simp: ProviderInit_def entries_ok_def registry_ok_steps)
  next
    case (provider_stop pm r e)
    with ok show ?thesis by (auto simp: ProviderStop_def entries_ok_def registry_ok_steps)
  qed
  ultimately show ?thesis by (simp add: lifecycle_ok_def)
qed

lemma lifecycle_reachable_ok: "lifecycle_reachable s \<Longrightarrow> lifecycle_ok s"
  by (induction rule: lifecycle_reachable.induct) (auto intro: lifecycle_ok_initial lifecycle_ok_step)

subsection \<open>Properties\<close>

definition sample_ledger :: LedgerConfig where
  "sample_ledger = \<lparr>lc_Name = ''l'', lc_Description = [], lc_AnchorProviders = [], lc_AnchorSchedule = [],
     lc_AnchorMinEntries = 0, lc_PayloadSchema = [], lc_Dsn = ''d''\<rparr>"

definition sample_module :: "sql_db option \<Rightarrow> LedgerModule" where
  "sample_module db = \<lparr>lm_instanceName = ''i'', lm_config = sample_ledger, lm_db = db\<rparr>"

lemma sample_module_simps [simp]:
  "lm_config (sample_module db) = sample_ledger" "lm_db (sample_module db) = db"
  "lc_Name sample_ledger = ''l''" "lc_Dsn sample_ledger = ''d''"
  "(sample_module db)\<lparr>lm_db := db'\<rparr> = sample_module db'"
  by (simp_all add: sample_module_def sample_ledger_def)

text \<open>A ledger module initialises once in its life: whatever happens in between, a second \<open>Init\<close>
  fails and registers nothing, also after a \<open>Stop\<close> (which does not forget the pool it closed); and
  \<open>Stop\<close> removes the ledger's name whoever registered it, so that of two modules with one ledger name
  the one that is still running loses its registration.\<close>

theorem LedgerModule_once:
  assumes "LedgerInit parse fresh r m = (r', m', None)" and "registry_ok r''"
  shows "LedgerInit parse' fresh' r'' m' = (r'', m', Some (Errorf ''audit.ledger %q: already initialized'' [ArgS (lm_instanceName m)]))
    \<and> (lm_name m2 = lm_name m \<longrightarrow>
         GetLedger (fst (LedgerStop cf (fst (LedgerInit parse fresh r'' m)) m2)) (lm_name m) = None
       \<and> GetDB (fst (LedgerStop cf (fst (LedgerInit parse fresh r'' m)) m2)) (lm_name m) = None)"
proof -
  have opened: "lm_db m = None" "m' = m\<lparr>lm_db := Some (Pool fresh (lm_dsn m))\<rparr>"
    using assms(1) by (cases rule: LedgerInit_cases; simp)+
  have "registry_ok (fst (LedgerInit parse fresh r'' m))"
    using assms(2) by (auto simp: LedgerInit_def registry_ok_steps split: option.split sum.split)
  then have "GetLedger (fst (LedgerStop cf (fst (LedgerInit parse fresh r'' m)) m2)) (lm_name m2) = None
       \<and> GetDB (fst (LedgerStop cf (fst (LedgerInit parse fresh r'' m)) m2)) (lm_name m2) = None"
    by (auto simp: LedgerStop_def Let_def get_facts registry_ok_steps split: option.split)
  with opened show ?thesis by (auto simp: LedgerInit_def)
qed

theorem LedgerModule_once_witness:
  "LedgerInit (\<lambda>d. None) 7 empty_registry (sample_module (Some (Pool 0 ''d''))) =
     (empty_registry, sample_module (Some (Pool 0 ''d'')), Some (Errorf ''audit.ledger %q: already initialized'' [ArgS ''i'']))"
  using LedgerModule_once [of "\<lambda>d. None" 0 empty_registry "sample_module None" _ "sample_module (Some (Pool 0 ''d''))"
      empty_registry "\<lambda>d. None" 7 "sample_module None" None]
  by (simp add: LedgerInit_def sql_open_def empty_registry_def registry_ok_def) (simp add: sample_module_def)

end
