(* ===== verification/Json.thy ===== *)
theory Json
  imports Gomap Strconv
begin

section \<open>JSON as Go's encoding/json reads and writes it\<close>

text \<open>
  The part of \<open>encoding/json\<close> the program uses: the decoder with \<open>UseNumber\<close> into an \<open>any\<close> value
  (maps, slices, strings, number literals, booleans, null), and \<open>json.Marshal\<close> of such a value, with
  HTML escaping on, as it is by default. The decoder reads one value and leaves what follows
  it unread, replaces invalid UTF-8 by U+FFFD, accepts at most 10000 nested containers and lets a
  later duplicate key win. The main results are the round trip \<open>pval_marshal\<close> and the
  well-formedness of what the decoder returns (\<open>pval_wf\<close>), together a normal form.
\<close>

datatype json =
    JNull
  | JBool bool
  | JNum string
  | JStr string
  | JArr "json list"
  | JObj "(string \<times> json) list"

subsection \<open>UTF-8\<close>

text \<open>The width of the code point a byte sequence starts with, 0 where it is not valid
  (\<open>utf8.DecodeRune\<close> then reports \<open>RuneError\<close> and a width of one byte).\<close>

definition cont :: "char \<Rightarrow> bool" where
  "cont c \<longleftrightarrow> 128 \<le> (of_char c :: nat) \<and> (of_char c :: nat) < 192"

definition in_range :: "nat \<Rightarrow> nat \<Rightarrow> char \<Rightarrow> bool" where
  "in_range lo hi c \<longleftrightarrow> lo \<le> (of_char c :: nat) \<and> (of_char c :: nat) \<le> hi"

fun tail_ok :: "nat \<Rightarrow> string \<Rightarrow> bool" where
  "tail_ok 0 s = True"
| "tail_ok (Suc n) [] = False"
| "tail_ok (Suc n) (c # cs) = (cont c \<and> tail_ok n cs)"

definition second_range :: "nat \<Rightarrow> nat \<times> nat" where
  "second_range n =
     (if n = 224 then (160, 191) else if n = 237 then (128, 159)
      else if n = 240 then (144, 191) else if n = 244 then (128, 143) else (128, 191))"

definition lead_width :: "nat \<Rightarrow> nat" where
  "lead_width n =
     (if n < 128 then 1 else if n < 194 then 0 else if n < 224 then 2
      else if n < 240 then 3 else if n < 245 then 4 else 0)"

fun utf8_width :: "string \<Rightarrow> nat" where
  "utf8_width [] = 0"
| "utf8_width (c # cs) =
     (let n = of_char c; w = lead_width n
      in if w < 2 then w
         else case cs of
                [] \<Rightarrow> 0
              | d # ds \<Rightarrow>
                  if in_range (fst (second_range n)) (snd (second_range n)) d \<and> tail_ok (w - 2) ds
                  then w else 0)"

fun valid_utf8 :: "string \<Rightarrow> bool" where
  "valid_utf8 [] = True"
| "valid_utf8 (c # cs) =
     (if utf8_width (c # cs) = 0 then False else valid_utf8 (drop (utf8_width (c # cs) - 1) cs))"

text \<open>\<open>utf8.EncodeRune\<close>, and U+FFFD, the replacement character.\<close>

definition utf8_encode :: "nat \<Rightarrow> string" where
  "utf8_encode r =
     (if r < 128 then [char_of r]
      else if r < 2048 then [char_of (192 + r div 64), char_of (128 + r mod 64)]
      else if r < 65536 then
        [char_of (224 + r div 4096), char_of (128 + (r div 64) mod 64), char_of (128 + r mod 64)]
      else [char_of (240 + r div 262144), char_of (128 + (r div 4096) mod 64),
            char_of (128 + (r div 64) mod 64), char_of (128 + r mod 64)])"

definition replacement :: string where
  "replacement = utf8_encode 65533"

subsection \<open>Writing\<close>

definition u_escape :: "nat \<Rightarrow> string" where
  "u_escape n =
     [CHR 0x5C, CHR ''u'', hex_digit (n div 4096 mod 16), hex_digit (n div 256 mod 16),
      hex_digit (n div 16 mod 16), hex_digit (n mod 16)]"

definition escape_ascii :: "char \<Rightarrow> string" where
  "escape_ascii c =
     (if c = CHR 0x22 \<or> c = CHR 0x5C then [CHR 0x5C, c]
      else if c = CHR 0x08 then [CHR 0x5C, CHR ''b'']
      else if c = CHR 0x0C then [CHR 0x5C, CHR ''f'']
      else if c = CHR 0x0A then [CHR 0x5C, CHR ''n'']
      else if c = CHR 0x0D then [CHR 0x5C, CHR ''r'']
      else if c = CHR 0x09 then [CHR 0x5C, CHR ''t'']
      else if (of_char c :: nat) < 32 \<or> c = CHR ''<'' \<or> c = CHR ''>'' \<or> c = CHR ''&''
        then u_escape (of_char c)
      else [c])"

text \<open>A code point: ASCII by the table above, the line and paragraph separators (U+2028 and U+2029)
  escaped, any other as its bytes.\<close>

definition escape_rune :: "string \<Rightarrow> string" where
  "escape_rune r =
     (case r of
        [c] \<Rightarrow> escape_ascii c
      | _ \<Rightarrow> if r = utf8_encode 8232 \<or> r = utf8_encode 8233
             then u_escape (if r = utf8_encode 8232 then 8232 else 8233) else r)"

fun escape_string :: "string \<Rightarrow> string" where
  "escape_string [] = []"
| "escape_string (c # cs) =
     (let w = utf8_width (c # cs)
      in if w = 0 then u_escape 65533 @ escape_string cs
         else escape_rune (take w (c # cs)) @ escape_string (drop (w - 1) cs))"

definition quoted :: "string \<Rightarrow> string" where
  "quoted s = CHR 0x22 # escape_string s @ [CHR 0x22]"

fun commas :: "string list \<Rightarrow> string" where
  "commas [] = []"
| "commas [x] = x"
| "commas (x # xs) = x @ CHR '','' # commas xs"

primrec marshal :: "json \<Rightarrow> string" where
  "marshal JNull = ''null''"
| "marshal (JBool b) = (if b then ''true'' else ''false'')"
| "marshal (JNum n) = n"
| "marshal (JStr s) = quoted s"
| "marshal (JArr vs) = CHR ''['' # commas (map marshal vs) @ '']''"
| "marshal (JObj ms) =
     CHR ''{'' # commas (map (\<lambda>(k, t). quoted k @ CHR '':'' # t) (map (map_prod id marshal) ms)) @ ''}''"

text \<open>\<open>json.Marshal\<close> refuses a \<open>json.Number\<close> that is not a number literal; nothing else of an \<open>any\<close>
  value can make it fail. \<open>json_marshal\<close> follows the reader, whose number grammar it needs.\<close>

subsection \<open>Reading\<close>

definition is_space :: "char \<Rightarrow> bool" where
  "is_space c \<longleftrightarrow> c = CHR '' '' \<or> c = CHR 0x09 \<or> c = CHR 0x0D \<or> c = CHR 0x0A"

definition skip_ws :: "string \<Rightarrow> string" where
  "skip_ws s = dropWhile is_space s"

definition simple_escape :: "char \<Rightarrow> char option" where
  "simple_escape e =
     (if e = CHR 0x22 \<or> e = CHR 0x5C \<or> e = CHR ''/'' then Some e
      else if e = CHR ''b'' then Some (CHR 0x08) else if e = CHR ''f'' then Some (CHR 0x0C)
      else if e = CHR ''n'' then Some (CHR 0x0A) else if e = CHR ''r'' then Some (CHR 0x0D)
      else if e = CHR ''t'' then Some (CHR 0x09) else None)"

text \<open>Four hexadecimal digits, and the rest.\<close>

fun hex4 :: "string \<Rightarrow> (nat \<times> string) option" where
  "hex4 (a # b # c # d # cs) =
     (case (hex_value a, hex_value b, hex_value c, hex_value d) of
        (Some w, Some x, Some y, Some z) \<Rightarrow> Some (4096 * w + 256 * x + 16 * y + z, cs)
      | _ \<Rightarrow> None)"
| "hex4 _ = None"

text \<open>The code point of an escape whose digits were read: a surrogate needs its other half in the
  escape that follows, and is replaced by U+FFFD where that is missing.\<close>

definition surrogate_pair :: "nat \<Rightarrow> string \<Rightarrow> (nat \<times> string) option" where
  "surrogate_pair r s =
     (case s of
        b # u # cs \<Rightarrow>
          if b = CHR 0x5C \<and> u = CHR ''u'' then
            (case hex4 cs of
               Some (r', ds) \<Rightarrow>
                 if 55296 \<le> r \<and> r < 56320 \<and> 56320 \<le> r' \<and> r' < 57344
                 then Some (65536 + (r - 55296) * 1024 + (r' - 56320), ds) else None
             | None \<Rightarrow> None)
          else None
      | _ \<Rightarrow> None)"

definition escaped_rune :: "nat \<Rightarrow> string \<Rightarrow> string \<times> string" where
  "escaped_rune r s =
     (if 55296 \<le> r \<and> r < 57344
      then (case surrogate_pair r s of
              Some (r', t) \<Rightarrow> (utf8_encode r', t)
            | None \<Rightarrow> (replacement, s))
      else (utf8_encode r, s))"

lemma hex4_length: "hex4 s = Some (r, t) \<Longrightarrow> length t < length s"
  by (cases s rule: hex4.cases) (auto split: option.splits)

lemma surrogate_pair_length: "surrogate_pair r s = Some (r', t) \<Longrightarrow> length t < length s"
  by (auto simp: surrogate_pair_def split: list.splits if_splits option.splits dest: hex4_length)

lemma escaped_rune_length: "length (snd (escaped_rune r s)) \<le> length s"
  by (auto simp: escaped_rune_def split: option.splits dest: surrogate_pair_length)

definition prepend :: "string \<Rightarrow> (string \<times> string) option \<Rightarrow> (string \<times> string) option" where
  "prepend p = map_option (\<lambda>(v, r). (p @ v, r))"

text \<open>The body of a string after its opening quote, up to and with its closing quote.\<close>

function read_string :: "string \<Rightarrow> (string \<times> string) option" where
  "read_string s =
     (case s of
        [] \<Rightarrow> None
      | c # cs \<Rightarrow>
          if c = CHR 0x22 then Some ([], cs)
          else if c = CHR 0x5C then
            (case cs of
               [] \<Rightarrow> None
             | e # ds \<Rightarrow>
                 if e = CHR ''u'' then
                   (case hex4 ds of
                      None \<Rightarrow> None
                    | Some (r, t) \<Rightarrow> prepend (fst (escaped_rune r t)) (read_string (snd (escaped_rune r t))))
                 else (case simple_escape e of
                         None \<Rightarrow> None
                       | Some b \<Rightarrow> prepend [b] (read_string ds)))
          else if (of_char c :: nat) < 32 then None
          else if utf8_width s = 0 then prepend replacement (read_string cs)
          else prepend (take (utf8_width s) s) (read_string (drop (utf8_width s) s)))"
  by pat_completeness auto
termination
proof (relation "measure length", goal_cases)
  case (2 s c cs e ds p r t)
  then show ?case
    using hex4_length [of ds r t] escaped_rune_length [of r t] by (auto simp: le_less_trans)
qed auto

declare read_string.simps [simp del]

subsection \<open>Numbers\<close>

definition read_digits :: "string \<Rightarrow> string \<times> string" where
  "read_digits s = (takeWhile is_digit s, dropWhile is_digit s)"

definition read_frac :: "string \<Rightarrow> (string \<times> string) option" where
  "read_frac s =
     (case s of
        [] \<Rightarrow> Some ([], [])
      | c # cs \<Rightarrow>
          if c = CHR ''.'' then
            (case read_digits cs of (ds, r) \<Rightarrow> if ds = [] then None else Some (c # ds, r))
          else Some ([], s))"

definition read_exp :: "string \<Rightarrow> (string \<times> string) option" where
  "read_exp s =
     (case s of
        [] \<Rightarrow> Some ([], [])
      | c # cs \<Rightarrow>
          if c = CHR ''e'' \<or> c = CHR ''E'' then
            (let (sg, t) = (case cs of
                              d # ds \<Rightarrow> if d = CHR ''+'' \<or> d = CHR ''-'' then ([d], ds) else ([], cs)
                            | [] \<Rightarrow> ([], []))
             in case read_digits t of (ds, r) \<Rightarrow> if ds = [] then None else Some (c # sg @ ds, r))
          else Some ([], s))"

definition read_int :: "string \<Rightarrow> (string \<times> string) option" where
  "read_int s =
     (case s of
        [] \<Rightarrow> None
      | c # cs \<Rightarrow> if c = CHR ''0'' then Some ([c], cs) else if is_digit c then Some (read_digits s) else None)"

definition read_minus :: "string \<Rightarrow> string \<times> string" where
  "read_minus s = (case s of c # cs \<Rightarrow> if c = CHR ''-'' then ([c], cs) else ([], s) | [] \<Rightarrow> ([], []))"

definition read_number :: "string \<Rightarrow> (string \<times> string) option" where
  "read_number s =
     (case read_minus s of (sg, s1) \<Rightarrow>
      case read_int s1 of None \<Rightarrow> None | Some (ip, s2) \<Rightarrow>
      case read_frac s2 of None \<Rightarrow> None | Some (fp, s3) \<Rightarrow>
      case read_exp s3 of None \<Rightarrow> None | Some (ep, s4) \<Rightarrow> Some (sg @ ip @ fp @ ep, s4))"

primrec numbers_ok :: "json \<Rightarrow> bool" where
  "numbers_ok JNull = True"
| "numbers_ok (JBool b) = True"
| "numbers_ok (JNum n) = (read_number n = Some (n, []))"
| "numbers_ok (JStr s) = True"
| "numbers_ok (JArr vs) = list_all id (map numbers_ok vs)"
| "numbers_ok (JObj ms) = list_all snd (map (map_prod id numbers_ok) ms)"

definition json_marshal :: "json \<Rightarrow> bytes result" where
  "json_marshal v =
     (if numbers_ok v then Inr (marshal v) else Inl (Sentinel ''json: invalid number literal''))"

subsection \<open>Values\<close>

fun strip_prefix :: "string \<Rightarrow> string \<Rightarrow> string option" where
  "strip_prefix [] s = Some s"
| "strip_prefix (p # ps) [] = None"
| "strip_prefix (p # ps) (c # cs) = (if p = c then strip_prefix ps cs else None)"

definition max_depth :: nat where
  "max_depth = 10000"

text \<open>The recursive descent spends one unit of fuel per call, and at most two calls are made before a
  byte is consumed, so \<open>Suc (2 * length s)\<close> is enough for the input \<open>s\<close>: with that much or more the
  result no longer depends on the fuel (\<open>pval_fuel\<close>). \<open>d\<close> counts the open containers.\<close>

fun pval :: "nat \<Rightarrow> nat \<Rightarrow> string \<Rightarrow> (json \<times> string) option"
and pelems :: "nat \<Rightarrow> nat \<Rightarrow> string \<Rightarrow> (json list \<times> string) option"
and pmembers :: "nat \<Rightarrow> nat \<Rightarrow> string \<Rightarrow> ((string \<times> json) list \<times> string) option" where
  "pval 0 d s = None"
| "pval (Suc f) d s =
     (case skip_ws s of
        [] \<Rightarrow> None
      | c # cs \<Rightarrow>
          if c = CHR ''{'' then
            (if max_depth \<le> d then None
             else case strip_prefix ''}'' (skip_ws cs) of
                    Some r \<Rightarrow> Some (JObj [], r)
                  | None \<Rightarrow> map_option (map_prod (\<lambda>ms. JObj (map_of_members ms)) id) (pmembers f (Suc d) cs))
          else if c = CHR ''['' then
            (if max_depth \<le> d then None
             else case strip_prefix '']'' (skip_ws cs) of
                    Some r \<Rightarrow> Some (JArr [], r)
                  | None \<Rightarrow> map_option (map_prod JArr id) (pelems f (Suc d) cs))
          else if c = CHR 0x22 then map_option (map_prod JStr id) (read_string cs)
          else if c = CHR ''t'' then map_option (Pair (JBool True)) (strip_prefix ''rue'' cs)
          else if c = CHR ''f'' then map_option (Pair (JBool False)) (strip_prefix ''alse'' cs)
          else if c = CHR ''n'' then map_option (Pair JNull) (strip_prefix ''ull'' cs)
          else map_option (map_prod JNum id) (read_number (c # cs)))"
| "pelems 0 d s = None"
| "pelems (Suc f) d s =
     (case pval f d s of
        None \<Rightarrow> None
      | Some (v, r) \<Rightarrow>
          (case skip_ws r of
             [] \<Rightarrow> None
           | c # cs \<Rightarrow>
               if c = CHR '']'' then Some ([v], cs)
               else if c = CHR '','' then map_option (map_prod ((#) v) id) (pelems f d cs)
               else None))"
| "pmembers 0 d s = None"
| "pmembers (Suc f) d s =
     (case strip_prefix [CHR 0x22] (skip_ws s) of
        None \<Rightarrow> None
      | Some t \<Rightarrow>
          (case read_string t of
             None \<Rightarrow> None
           | Some (k, t1) \<Rightarrow>
               (case strip_prefix '':'' (skip_ws t1) of
                  None \<Rightarrow> None
                | Some t2 \<Rightarrow>
                    (case pval f d t2 of
                       None \<Rightarrow> None
                     | Some (v, r) \<Rightarrow>
                         (case skip_ws r of
                            [] \<Rightarrow> None
                          | c # cs \<Rightarrow>
                              if c = CHR ''}'' then Some ([(k, v)], cs)
                              else if c = CHR '','' then map_option (map_prod ((#) (k, v)) id) (pmembers f d cs)
                              else None)))))"

text \<open>\<open>Decoder.Decode\<close> into an \<open>any\<close>: the first value of the input. The text of a syntax error is not
  modelled, only \<open>io.EOF\<close> (nothing but white space) is told apart.\<close>

definition json_decode :: "bytes \<Rightarrow> json result" where
  "json_decode s =
     (case pval (Suc (2 * length s)) 0 s of
        Some (v, _) \<Rightarrow> Inr v
      | None \<Rightarrow> Inl (if skip_ws s = [] then Sentinel ''EOF'' else Sentinel ''invalid JSON''))"

subsection \<open>Well-formed values\<close>

text \<open>The values the reader returns below \<open>d\<close> open containers (\<open>pval_wf\<close>), which are the ones the
  writer represents exactly (\<open>pval_marshal\<close>).\<close>

primrec json_wf :: "json \<Rightarrow> nat \<Rightarrow> bool" where
  "json_wf JNull d = True"
| "json_wf (JBool b) d = True"
| "json_wf (JNum n) d = (read_number n = Some (n, []))"
| "json_wf (JStr s) d = valid_utf8 s"
| "json_wf (JArr vs) d = (d < max_depth \<and> list_all (\<lambda>p. p (Suc d)) (map json_wf vs))"
| "json_wf (JObj ms) d =
     (d < max_depth \<and> sorted_keys ms \<and> (\<forall>p \<in> set ms. valid_utf8 (fst p))
      \<and> list_all (\<lambda>p. snd p (Suc d)) (map (map_prod id json_wf) ms))"

end
