(* ===== verification/Raw_Json.thy ===== *)
theory Raw_Json
  imports Json
begin

section \<open>Raw JSON messages\<close>

text \<open>
  \<open>json.RawMessage\<close>: the members of an object are decoded to the text of their values, which
  \<open>json.Marshal\<close> later writes back compacted. \<open>json.Unmarshal\<close>, other than the decoder of \<open>Json\<close>,
  checks the whole input: nothing but white space may follow the value.
\<close>

definition whole_value :: "bytes \<Rightarrow> json option" where
  "whole_value s =
     (case pval (Suc (2 * length s)) 0 s of
        Some (v, r) \<Rightarrow> if skip_ws r = [] then Some v else None
      | None \<Rightarrow> None)"

text \<open>A value's text: from its first byte to where the reader stops.\<close>

definition value_text :: "nat \<Rightarrow> string \<Rightarrow> (bytes \<times> string) option" where
  "value_text d s =
     (case pval (Suc (2 * length s)) d s of
        None \<Rightarrow> None
      | Some (v, r) \<Rightarrow> Some (take (length (skip_ws s) - length r) (skip_ws s), r))"

text \<open>The members of an object after its opening brace, with the texts of their values.\<close>

fun raw_members :: "nat \<Rightarrow> string \<Rightarrow> (string \<times> bytes) list option" where
  "raw_members 0 s = None"
| "raw_members (Suc f) s =
     (case strip_prefix [CHR 0x22] (skip_ws s) of
        None \<Rightarrow> None
      | Some t \<Rightarrow>
     (case read_string t of
        None \<Rightarrow> None
      | Some (k, t1) \<Rightarrow>
     (case strip_prefix '':'' (skip_ws t1) of
        None \<Rightarrow> None
      | Some t2 \<Rightarrow>
     (case value_text 1 t2 of
        None \<Rightarrow> None
      | Some (raw, r) \<Rightarrow>
     (case skip_ws r of
        [] \<Rightarrow> None
      | c # cs \<Rightarrow>
          if c = CHR ''}'' then Some [(k, raw)]
          else if c = CHR '','' then map_option ((#) (k, raw)) (raw_members f cs)
          else None)))))"

text \<open>\<open>json.Unmarshal\<close> into a \<open>map[string]json.RawMessage\<close>: \<open>None\<close> is the nil map that \<open>null\<close> leaves.\<close>

definition unmarshal_raw_map :: "bytes \<Rightarrow> (string \<times> bytes) list option result" where
  "unmarshal_raw_map s =
     (case whole_value s of
        None \<Rightarrow> Inl (Sentinel ''invalid JSON'')
      | Some v \<Rightarrow>
          (case v of
             JNull \<Rightarrow> Inr None
           | JObj ms \<Rightarrow>
               if ms = [] then Inr (Some [])
               else (case raw_members (Suc (length s)) (drop 1 (skip_ws s)) of
                       None \<Rightarrow> Inl (Sentinel ''invalid JSON'')
                     | Some ps \<Rightarrow> Inr (Some (map_of_members ps)))
           | _ \<Rightarrow> Inl (Sentinel ''json: cannot unmarshal into Go value of type map[string]json.RawMessage'')))"

text \<open>\<open>compact\<close> with HTML escaping: white space outside strings goes, \<open><\<close>, \<open>>\<close>, \<open>&\<close> and the two
  separators are escaped. The flag says whether a string is open.\<close>

fun compact :: "bool \<Rightarrow> bytes \<Rightarrow> bytes" where
  "compact q [] = []"
| "compact q (c # cs) =
     (if c = CHR ''<'' \<or> c = CHR ''>'' \<or> c = CHR ''&'' then u_escape (of_char c) @ compact q cs
      else if take 3 (c # cs) = utf8_encode 8232 then u_escape 8232 @ compact q (drop 2 cs)
      else if take 3 (c # cs) = utf8_encode 8233 then u_escape 8233 @ compact q (drop 2 cs)
      else if \<not> q \<and> is_space c then compact q cs
      else if q \<and> c = CHR 0x5C then (case cs of [] \<Rightarrow> [c] | e # ds \<Rightarrow> c # e # compact q ds)
      else if c = CHR 0x22 then c # compact (\<not> q) cs
      else c # compact q cs)"

text \<open>Writing a raw message: invalid text is an error of the whole \<open>Marshal\<close>.\<close>

definition raw_marshal :: "bytes \<Rightarrow> bytes result" where
  "raw_marshal m =
     (case whole_value m of
        None \<Rightarrow> Inl (Sentinel ''json: error calling MarshalJSON for type json.RawMessage'')
      | Some v \<Rightarrow> Inr (compact False m))"

fun raw_texts :: "(string \<times> bytes) list \<Rightarrow> bytes list result" where
  "raw_texts [] = Inr []"
| "raw_texts ((k, m) # ps) =
     (case raw_marshal m of
        Inl e \<Rightarrow> Inl e
      | Inr t \<Rightarrow> (case raw_texts ps of Inl e \<Rightarrow> Inl e | Inr ts \<Rightarrow> Inr ((quoted k @ CHR '':'' # t) # ts)))"

definition marshal_raw_map :: "(string \<times> bytes) list option \<Rightarrow> bytes result" where
  "marshal_raw_map obj =
     (case obj of
        None \<Rightarrow> Inr ''null''
      | Some ps \<Rightarrow> (case raw_texts ps of Inl e \<Rightarrow> Inl e | Inr ts \<Rightarrow> Inr (CHR ''{'' # commas ts @ ''}'')))"

text \<open>\<open>json.Marshal\<close> of structs and slices, from the texts of their parts.\<close>

definition json_member :: "string \<Rightarrow> bytes \<Rightarrow> bytes" where
  "json_member k t = quoted k @ CHR '':'' # t"

definition json_object :: "bytes list \<Rightarrow> bytes" where
  "json_object ms = CHR ''{'' # commas ms @ ''}''"

definition json_array :: "bytes list \<Rightarrow> bytes" where
  "json_array ts = CHR ''['' # commas ts @ '']''"

lemma unmarshal_raw_map_sorted: "unmarshal_raw_map s = Inr (Some ps) \<Longrightarrow> sorted_keys ps"
  by (auto simp: unmarshal_raw_map_def intro: sorted_keys_map_of_members split: option.splits json.splits if_splits)

end
