(* ===== verification/Json_Roundtrip.thy ===== *)
theory Json_Roundtrip
  imports Json
begin

section \<open>Round trips of the JSON reader and writer\<close>

text \<open>
  What is written is read back (strings, numbers, values), and what is read is well-formed: valid
  UTF-8 in every string and key, number literals of the grammar, keys sorted and distinct, nesting
  within the decoder's limit. Reading then writing is therefore a normal form, which
  \<open>Canonical\<close> uses.
\<close>

subsection \<open>Code points\<close>

lemma tail_ok_take: "tail_ok n s \<Longrightarrow> tail_ok n (take n s @ t) \<and> n \<le> length s"
  by (induction n s rule: tail_ok.induct) auto

lemma utf8_width_le: "utf8_width s \<le> length s"
proof (cases s)
  case (Cons c cs)
  then show ?thesis
    by (cases cs) (auto simp: Let_def lead_width_def dest: tail_ok_take)
qed simp

lemma utf8_width_take:
  assumes "utf8_width s \<noteq> 0"
  shows "utf8_width (take (utf8_width s) s @ t) = utf8_width s"
proof (cases s)
  case (Cons c cs)
  show ?thesis
  proof (cases "lead_width (of_char c) < 2")
    case True
    with Cons assms have "lead_width (of_char c) = 1" by (simp add: Let_def)
    with Cons show ?thesis by (simp add: Let_def)
  next
    case False
    then obtain n where n: "lead_width (of_char c) = Suc (Suc n)"
      by (metis One_nat_def Suc_1 less_2_cases_iff not0_implies_Suc)
    with Cons assms obtain d ds where "cs = d # ds" and "utf8_width s = Suc (Suc n)" and "tail_ok n ds"
      and "in_range (fst (second_range (of_char c))) (snd (second_range (of_char c))) d"
      by (auto simp: Let_def split: list.splits if_splits)
    with Cons n show ?thesis by (simp add: Let_def tail_ok_take)
  qed
qed (use assms in simp)

lemma utf8_width_1: "utf8_width (c # cs) = 1 \<longleftrightarrow> (of_char c :: nat) < 128"
  by (auto simp: Let_def lead_width_def split: list.splits if_splits)

lemma utf8_width_ge_2: "2 \<le> utf8_width (c # cs) \<Longrightarrow> 194 \<le> (of_char c :: nat)"
  by (auto simp: Let_def lead_width_def split: list.splits if_splits)

lemma valid_utf8_chunk:
  assumes "utf8_width s \<noteq> 0" and "valid_utf8 v"
  shows "valid_utf8 (take (utf8_width s) s @ v)"
proof -
  obtain c cs where s: "s = c # cs" using assms(1) by (cases s) auto
  obtain m where m: "utf8_width s = Suc m" using assms(1) not0_implies_Suc by blast
  have "utf8_width (take (Suc m) s @ v) = Suc m"
    using utf8_width_take [OF assms(1), of v] m by simp
  moreover have "m \<le> length cs" using utf8_width_le [of s] s m by simp
  ultimately show ?thesis using s m assms(2) by simp
qed

lemma middle_bits:
  fixes r a k :: nat
  assumes "a * (64 * k) \<le> r" "r < a * (64 * k) + a * 64" "0 < a"
  shows "r div a mod 64 = (r - a * (64 * k)) div a"
proof -
  define q where "q = r - a * (64 * k)"
  have r: "r = q + a * (64 * k)" and q: "q < a * 64" using assms by (simp_all add: q_def)
  have "r div a = q div a + 64 * k" using assms(3) by (simp add: r)
  moreover have "q div a < 64" using q by (simp add: less_mult_imp_div_less mult.commute)
  ultimately show ?thesis by (simp add: q_def)
qed

lemma utf8_encode_width:
  assumes "r < 1114112" and "\<not> (55296 \<le> r \<and> r < 57344)"
  shows "utf8_width (utf8_encode r @ v) = length (utf8_encode r)"
proof -
  consider "r < 128" | "128 \<le> r" "r < 2048" | "2048 \<le> r" "r < 65536" | "65536 \<le> r" by linarith
  then show ?thesis
  proof cases
    case 1
    then show ?thesis by (simp add: utf8_encode_def lead_width_def)
  next
    case 2
    then have "194 \<le> 192 + r div 64" "192 + r div 64 < 224" by linarith+
    with 2 show ?thesis
      by (simp add: utf8_encode_def lead_width_def second_range_def in_range_def)
  next
    case 3
    have a: "224 + r div 4096 < 240" using 3 by linarith
    have b: "32 \<le> r div 64 mod 64" if "r div 4096 = 0"
    proof -
      have "r < 4096" using that by simp
      then have "r div 64 mod 64 = r div 64" using middle_bits [of 64 0 r] by simp
      then show ?thesis using 3 by linarith
    qed
    have c: "r div 64 mod 64 < 32" if "r div 4096 = 13"
    proof -
      have "53248 \<le> r" "r < 57344" using that by linarith+
      then have "r div 64 mod 64 = (r - 53248) div 64" using middle_bits [of 64 13 r] by simp
      then show ?thesis using assms(2) \<open>53248 \<le> r\<close> \<open>r < 57344\<close> by linarith
    qed
    from 3 a b c show ?thesis
      by (auto simp: utf8_encode_def lead_width_def second_range_def in_range_def cont_def Let_def numeral_2_eq_2)
  next
    case 4
    have a: "r div 262144 < 5" using assms(1) by linarith
    have b: "16 \<le> r div 4096 mod 64" if "r div 262144 = 0"
    proof -
      have "r < 262144" using that by simp
      then have "r div 4096 mod 64 = r div 4096" using middle_bits [of 4096 0 r] by simp
      then show ?thesis using 4 by linarith
    qed
    have c: "r div 4096 mod 64 < 16" if "r div 262144 = 4"
    proof -
      have "1048576 \<le> r" using that by linarith
      then have "r div 4096 mod 64 = (r - 1048576) div 4096"
        using middle_bits [of 4096 4 r] assms(1) by simp
      then show ?thesis using assms(1) \<open>1048576 \<le> r\<close> by linarith
    qed
    from 4 a b c show ?thesis
      by (auto simp: utf8_encode_def lead_width_def second_range_def in_range_def cont_def Let_def numeral_2_eq_2)
  qed
qed

lemma valid_utf8_encode:
  assumes "r < 1114112" and "\<not> (55296 \<le> r \<and> r < 57344)" and "valid_utf8 v"
  shows "valid_utf8 (utf8_encode r @ v)"
proof -
  have w: "utf8_width (utf8_encode r @ []) = length (utf8_encode r)"
    by (rule utf8_encode_width [OF assms(1,2)])
  moreover have "length (utf8_encode r) \<noteq> 0" by (simp add: utf8_encode_def)
  ultimately show ?thesis using valid_utf8_chunk [of "utf8_encode r" v] assms(3) by simp
qed

declare utf8_width.simps(2) [simp del]

subsection \<open>Strings\<close>

lemma prepend_eq_Some [simp]: "prepend p x = Some (v, r) \<longleftrightarrow> (\<exists>w. x = Some (w, r) \<and> v = p @ w)"
  by (auto simp: prepend_def)

lemma prepend_Some [simp]: "prepend p (Some (v, r)) = Some (p @ v, r)"
  by (simp add: prepend_def)

lemma hex4_u_escape: "n < 65536 \<Longrightarrow> hex4 (drop 2 (u_escape n @ t)) = Some (n, t)"
proof -
  assume n: "n < 65536"
  have "n = 16 * (n div 16) + n mod 16" "n div 16 = 16 * (n div 256) + n div 16 mod 16"
    "n div 256 = 16 * (n div 4096) + n div 256 mod 16"
    using mult_div_mod_eq [of 16 n] mult_div_mod_eq [of 16 "n div 16"] mult_div_mod_eq [of 16 "n div 256"]
    by (simp_all add: div_mult2_eq [symmetric])
  then have "4096 * (n div 4096) + 256 * (n div 256 mod 16) + 16 * (n div 16 mod 16) + n mod 16 = n"
    by linarith
  moreover have "n div 4096 mod 16 = n div 4096" "n div 4096 < 16" using n by simp_all
  ultimately show ?thesis by (simp add: u_escape_def)
qed

text \<open>One step of \<open>read_string\<close> for each of the forms the writer produces.\<close>

lemma read_string_quote: "read_string (CHR 0x22 # s) = Some ([], s)"
  by (subst read_string.simps) simp

lemma read_string_simple:
  "e \<noteq> CHR ''u'' \<Longrightarrow> simple_escape e = Some b \<Longrightarrow>
   read_string (CHR 0x5C # e # s) = prepend [b] (read_string s)"
  by (subst read_string.simps) simp

lemma read_string_u_escape:
  assumes "n < 55296 \<or> 57344 \<le> n" and "n < 65536"
  shows "read_string (u_escape n @ s) = prepend (utf8_encode n) (read_string s)"
proof -
  define ds where "ds = drop 2 (u_escape n @ s)"
  have "u_escape n @ s = CHR 0x5C # CHR ''u'' # ds" by (simp add: ds_def u_escape_def)
  moreover have "hex4 ds = Some (n, s)" unfolding ds_def by (rule hex4_u_escape [OF assms(2)])
  moreover have "escaped_rune n s = (utf8_encode n, s)" using assms(1) by (auto simp: escaped_rune_def)
  ultimately show ?thesis by (subst read_string.simps) simp
qed

lemma read_string_rune:
  assumes "utf8_width s \<noteq> 0" and "hd s \<noteq> CHR 0x22" and "hd s \<noteq> CHR 0x5C" and "32 \<le> (of_char (hd s) :: nat)"
  shows "read_string (take (utf8_width s) s @ t) = prepend (take (utf8_width s) s) (read_string t)"
proof -
  obtain c cs where s: "s = c # cs" using assms(1) by (cases s) auto
  define u where "u = take (utf8_width s) s @ t"
  have w: "utf8_width u = utf8_width s" unfolding u_def by (rule utf8_width_take [OF assms(1)])
  have "u \<noteq> []" "hd u = c" using assms(1) s by (cases "utf8_width s", auto simp: u_def)+
  then obtain us where u: "u = c # us" by (cases u) auto
  have "take (utf8_width u) u = take (utf8_width s) s" "drop (utf8_width u) u = t"
    unfolding w by (simp_all add: u_def utf8_width_le)
  then show ?thesis
    using assms s w u unfolding u_def [symmetric]
    by (subst read_string.simps) simp
qed

lemma read_string_escape_ascii:
  assumes "(of_char c :: nat) < 128"
  shows "read_string (escape_ascii c @ t) = prepend [c] (read_string t)"
proof -
  have u: "read_string (u_escape (of_char c) @ t) = prepend [c] (read_string t)"
    using assms by (subst read_string_u_escape) (simp_all add: utf8_encode_def)
  have w: "utf8_width [c] = 1" using assms by (simp only: utf8_width_1)
  have r: "read_string (c # t) = prepend [c] (read_string t)"
    if "c \<noteq> CHR 0x22" "c \<noteq> CHR 0x5C" "32 \<le> (of_char c :: nat)"
    using read_string_rune [of "[c]" t] that w by (simp)
  have "(\<exists>e. escape_ascii c = [CHR 0x5C, e] \<and> e \<noteq> CHR ''u'' \<and> simple_escape e = Some c)
      \<or> escape_ascii c = u_escape (of_char c)
      \<or> escape_ascii c = [c] \<and> c \<noteq> CHR 0x22 \<and> c \<noteq> CHR 0x5C \<and> 32 \<le> (of_char c :: nat)"
    by (auto simp: escape_ascii_def simple_escape_def)
  then show ?thesis
  proof (elim disjE exE conjE)
    fix e
    assume "escape_ascii c = [CHR 0x5C, e]" and "e \<noteq> CHR ''u''" and "simple_escape e = Some c"
    then show ?thesis using read_string_simple [of e c t] by simp
  qed (simp_all add: u r)
qed

lemma read_string_escape_rune:
  assumes "utf8_width s \<noteq> 0"
  shows "read_string (escape_rune (take (utf8_width s) s) @ t) = prepend (take (utf8_width s) s) (read_string t)"
proof -
  obtain c cs where s: "s = c # cs" using assms by (cases s) auto
  consider "utf8_width s = 1" | "2 \<le> utf8_width s" using assms by linarith
  then show ?thesis
  proof cases
    case 1
    with s show ?thesis
      using utf8_width_1 [of c cs] by (simp add: escape_rune_def read_string_escape_ascii)
  next
    case 2
    have c: "194 \<le> (of_char c :: nat)" using 2 s utf8_width_ge_2 by blast
    then have plain: "c \<noteq> CHR 0x22" "c \<noteq> CHR 0x5C" "32 \<le> (of_char c :: nat)" by auto
    have "2 \<le> length s" using 2 utf8_width_le [of s] by linarith
    then obtain d ds where cs: "cs = d # ds" using s by (cases cs) auto
    have "utf8_width s = Suc (Suc (utf8_width s - 2))" using 2 by simp
    then obtain n where n: "utf8_width s = Suc (Suc n)" by blast
    define r where "r = take (utf8_width s) s"
    have "r = take (Suc (Suc n)) s" by (simp add: r_def n)
    then have r: "r = c # d # take n ds" by (simp add: s cs)
    have sep: "read_string (u_escape m @ t) = prepend (utf8_encode m) (read_string t)"
      if "m = 8232 \<or> m = 8233" for m
      using that by (intro read_string_u_escape) auto
    have "read_string (r @ t) = prepend r (read_string t)"
      unfolding r_def using read_string_rune [OF assms] plain s by simp
    moreover have e: "escape_rune r =
        (if r = utf8_encode 8232 \<or> r = utf8_encode 8233
         then u_escape (if r = utf8_encode 8232 then 8232 else 8233) else r)"
      by (simp add: escape_rune_def r)
    moreover have "read_string (escape_rune r @ t) = prepend r (read_string t)"
      if special: "r = utf8_encode 8232 \<or> r = utf8_encode 8233"
    proof -
      define m :: nat where "m = (if r = utf8_encode 8232 then 8232 else 8233)"
      have "escape_rune r = u_escape m" "m = 8232 \<or> m = 8233" "utf8_encode m = r"
        using special e by (auto simp: m_def)
      then show ?thesis using sep [of m] by simp
    qed
    ultimately show ?thesis unfolding r_def [symmetric] by (metis (full_types))
  qed
qed

text \<open>What a written string reads as: every byte that starts no code point is replaced, as \<open>json.Marshal\<close>
  does, and a valid string is read back as it was.\<close>

fun coerce_utf8 :: "string \<Rightarrow> string" where
  "coerce_utf8 [] = []"
| "coerce_utf8 (c # cs) =
     (let w = utf8_width (c # cs)
      in if w = 0 then replacement @ coerce_utf8 cs else take w (c # cs) @ coerce_utf8 (drop (w - 1) cs))"

lemma take_drop_width: "w \<noteq> 0 \<Longrightarrow> take w (c # cs) @ drop (w - 1) cs = c # cs"
  by (cases w) simp_all

lemma coerce_utf8_valid: "valid_utf8 s \<Longrightarrow> coerce_utf8 s = s"
proof (induction s rule: valid_utf8.induct)
  case (2 c cs)
  then show ?case
    using take_drop_width [of "utf8_width (c # cs)" c cs] by (auto simp: Let_def split: if_splits)
qed simp

lemma read_escape_coerced: "read_string (escape_string s @ CHR 0x22 # rest) = Some (coerce_utf8 s, rest)"
proof (induction s rule: coerce_utf8.induct)
  case 1
  then show ?case by (simp add: read_string_quote)
next
  case (2 c cs)
  show ?case
  proof (cases "utf8_width (c # cs) = 0")
    case True
    then show ?thesis
      using 2(1) [OF refl True] by (simp add: read_string_u_escape replacement_def)
  next
    case False
    then have "escape_string (c # cs) = escape_rune (take (utf8_width (c # cs)) (c # cs))
        @ escape_string (drop (utf8_width (c # cs) - 1) cs)"
      by (simp add: Let_def)
    then show ?thesis
      using 2(2) [OF refl False] read_string_escape_rune [OF False] False by (simp add: Let_def)
  qed
qed

lemma read_escape_string: "valid_utf8 s \<Longrightarrow> read_string (escape_string s @ CHR 0x22 # rest) = Some (s, rest)"
  by (simp add: read_escape_coerced coerce_utf8_valid)

lemma read_quoted: "valid_utf8 s \<Longrightarrow> strip_prefix [CHR 0x22] (quoted s @ t) = Some (escape_string s @ CHR 0x22 # t)"
  by (simp add: quoted_def)

subsection \<open>What a string reader returns\<close>

lemma hex_value_less: "hex_value c = Some n \<Longrightarrow> n < 16"
  by (auto simp: hex_value_def Let_def split: if_splits)

lemma hex4_less: "hex4 s = Some (r, t) \<Longrightarrow> r < 65536"
proof (cases s rule: hex4.cases)
  case (1 a b c d cs)
  assume "hex4 s = Some (r, t)"
  with 1 obtain w x y z where "hex_value a = Some w" "hex_value b = Some x" "hex_value c = Some y"
    "hex_value d = Some z" and r: "r = 4096 * w + 256 * x + 16 * y + z"
    by (auto split: option.splits)
  then have "w < 16" "x < 16" "y < 16" "z < 16" by (auto dest: hex_value_less)
  then show ?thesis unfolding r by linarith
qed auto

lemma valid_escaped_rune:
  assumes "r < 65536" and "valid_utf8 v"
  shows "valid_utf8 (fst (escaped_rune r t) @ v)"
proof (cases "55296 \<le> r \<and> r < 57344")
  case False
  then show ?thesis using assms by (auto simp: escaped_rune_def intro!: valid_utf8_encode)
next
  case True
  have "valid_utf8 (replacement @ v)" using assms(2) by (simp add: replacement_def valid_utf8_encode)
  moreover have "valid_utf8 (utf8_encode r' @ v)" if "surrogate_pair r t = Some (r', u)" for r' u
  proof -
    from that have "65536 \<le> r'" "r' < 1114112"
      by (auto simp: surrogate_pair_def split: list.splits if_splits option.splits)
    then show ?thesis using assms(2) by (intro valid_utf8_encode) auto
  qed
  ultimately show ?thesis using True by (auto simp: escaped_rune_def split: option.split)
qed

lemma valid_utf8_ascii: "(of_char c :: nat) < 128 \<Longrightarrow> valid_utf8 v \<Longrightarrow> valid_utf8 (c # v)"
  using valid_utf8_chunk [of "[c]" v] by (simp add: utf8_width_1 [THEN iffD2])

lemma ascii_valid: "\<forall>c \<in> set s. (of_char c :: nat) < 128 \<Longrightarrow> valid_utf8 s"
  by (induction s) (simp_all add: valid_utf8_ascii del: valid_utf8.simps(2))

lemma hex_ascii: "c \<in> set (hex_encode s) \<Longrightarrow> (of_char c :: nat) < 128"
  using hex_encode_lowercase [of c s] by (auto simp: is_digit_def less_eq_char_def)

lemma valid_hex_encode [simp]: "valid_utf8 (hex_encode s)"
  by (rule ascii_valid) (simp add: hex_ascii)

lemma simple_escape_ascii: "simple_escape e = Some b \<Longrightarrow> (of_char b :: nat) < 128"
  by (auto simp: simple_escape_def split: if_splits)

lemma read_string_props: "read_string s = Some (v, r) \<Longrightarrow> valid_utf8 v \<and> length r < length s"
proof (induction s arbitrary: v r rule: read_string.induct)
  case (1 s)
  note IH = "1.IH" and ret = "1.prems"
  obtain c cs where s: "s = c # cs" using ret by (cases s) (auto simp: read_string.simps)
  consider (quote) "c = CHR 0x22"
    | (esc) "c = CHR 0x5C"
    | (bad) "c \<noteq> CHR 0x22" "c \<noteq> CHR 0x5C" "\<not> (of_char c :: nat) < 32" "utf8_width s = 0"
    | (rune) "c \<noteq> CHR 0x22" "c \<noteq> CHR 0x5C" "\<not> (of_char c :: nat) < 32" "utf8_width s \<noteq> 0"
    using ret s by (subst (asm) read_string.simps) (auto split: if_splits)
  then show ?case
  proof cases
    case quote
    with ret s show ?thesis by (auto simp: read_string_quote)
  next
    case esc
    show ?thesis
    proof (cases cs)
      case Nil
      with ret s esc show ?thesis by (subst (asm) read_string.simps) simp
    next
      case (Cons e ds)
      show ?thesis
      proof (cases "e = CHR ''u''")
        case True
        with ret s esc Cons obtain n t v' where h: "hex4 ds = Some (n, t)"
          and v': "read_string (snd (escaped_rune n t)) = Some (v', r)" "v = fst (escaped_rune n t) @ v'"
          by (subst (asm) read_string.simps) (auto split: option.splits)
        have "valid_utf8 v' \<and> length r < length (snd (escaped_rune n t))"
          using IH(1) [OF s _ esc Cons True h refl v'(1)] esc by simp
        then show ?thesis
          using v'(2) h s Cons valid_escaped_rune [of n v' t] hex4_less [OF h] hex4_length [OF h]
            escaped_rune_length [of n t] by auto
      next
        case False
        with ret s esc Cons obtain b v' where b: "simple_escape e = Some b"
          and v': "read_string ds = Some (v', r)" "v = b # v'"
          by (subst (asm) read_string.simps) (auto split: option.splits)
        have "valid_utf8 v' \<and> length r < length ds"
          using IH(2) [OF s _ esc Cons False b v'(1)] esc by simp
        then show ?thesis using v'(2) s Cons valid_utf8_ascii [OF simple_escape_ascii [OF b], of v'] by (simp del: valid_utf8.simps)
      qed
    qed
  next
    case bad
    with ret s obtain v' where v': "read_string cs = Some (v', r)" "v = replacement @ v'"
      by (subst (asm) read_string.simps) auto
    have "valid_utf8 v' \<and> length r < length cs"
      using IH(3) [OF s bad v'(1)] .
    then show ?thesis using v'(2) s by (simp add: replacement_def valid_utf8_encode)
  next
    case rune
    with ret s obtain v' where v': "read_string (drop (utf8_width s) s) = Some (v', r)"
      "v = take (utf8_width s) s @ v'"
      by (subst (asm) read_string.simps) auto
    have "valid_utf8 v' \<and> length r < length (drop (utf8_width s) s)"
      using IH(4) [OF s rune v'(1)] .
    then show ?thesis using v'(2) valid_utf8_chunk [OF rune(4)] by auto
  qed
qed

subsection \<open>Numbers\<close>

text \<open>Bytes that cannot continue a number.\<close>

definition number_stop :: "string \<Rightarrow> bool" where
  "number_stop t \<longleftrightarrow>
     (t = [] \<or> (\<not> is_digit (hd t) \<and> hd t \<noteq> CHR ''.'' \<and> hd t \<noteq> CHR ''e'' \<and> hd t \<noteq> CHR ''E''))"

definition starts_no_digit :: "string \<Rightarrow> bool" where
  "starts_no_digit t \<longleftrightarrow> (t = [] \<or> \<not> is_digit (hd t))"

lemma read_digits_append:
  "\<forall>c \<in> set ds. is_digit c \<Longrightarrow> starts_no_digit t \<Longrightarrow> read_digits (ds @ t) = (ds, t)"
  by (cases t) (auto simp: read_digits_def starts_no_digit_def takeWhile_tail dropWhile_append)

lemma read_digits_props: "read_digits s = (ds, r) \<Longrightarrow> s = ds @ r \<and> (\<forall>c \<in> set ds. is_digit c)"
  by (auto simp: read_digits_def dest: set_takeWhileD)

lemma read_minus_props:
  "read_minus s = (sg, r) \<Longrightarrow>
   s = sg @ r \<and> (sg = [] \<or> sg = ''-'') \<and> (t = [] \<or> hd t \<noteq> CHR ''-'' \<longrightarrow> read_minus (sg @ t) = (sg, t))"
  by (cases t) (auto simp: read_minus_def split: list.splits if_splits)

lemma read_int_props:
  assumes "read_int s = Some (ip, r)"
  shows "s = ip @ r \<and> ip \<noteq> [] \<and> is_digit (hd ip) \<and> (starts_no_digit t \<longrightarrow> read_int (ip @ t) = Some (ip, t))"
proof -
  obtain c cs where s: "s = c # cs" using assms by (cases s) (auto simp: read_int_def)
  show ?thesis
  proof (cases "c = CHR ''0''")
    case True
    with assms s show ?thesis by (auto simp: read_int_def is_digit_def)
  next
    case False
    with assms s have c: "is_digit c" and d: "read_digits (c # cs) = (ip, r)"
      by (auto simp: read_int_def split: if_splits)
    from c d obtain ds where ip: "ip = c # ds" by (auto simp: read_digits_def)
    show ?thesis
      using s c d False ip read_digits_props [OF d] read_digits_append [of ip t] by (auto simp: read_int_def)
  qed
qed

lemma read_frac_props:
  assumes "read_frac s = Some (fp, r)"
  shows "s = fp @ r \<and> (fp = [] \<or> hd fp = CHR ''.'') \<and>
    (starts_no_digit t \<and> (t = [] \<or> hd t \<noteq> CHR ''.'') \<longrightarrow> read_frac (fp @ t) = Some (fp, t))"
proof (cases s)
  case (Cons c cs)
  show ?thesis
  proof (cases "c = CHR ''.''")
    case True
    with assms Cons obtain ds where d: "read_digits cs = (ds, r)" "ds \<noteq> []" "fp = c # ds"
      by (auto simp: read_frac_def split: prod.splits if_splits)
    then show ?thesis
      using Cons True read_digits_props [OF d(1)] read_digits_append [of ds t] by (auto simp: read_frac_def)
  next
    case False
    with assms Cons show ?thesis by (cases t) (auto simp: read_frac_def)
  qed
qed (use assms in \<open>cases t; auto simp: read_frac_def\<close>)

lemma read_exp_props:
  assumes "read_exp s = Some (ep, r)"
  shows "s = ep @ r \<and> (ep = [] \<or> hd ep = CHR ''e'' \<or> hd ep = CHR ''E'') \<and>
    (number_stop t \<longrightarrow> read_exp (ep @ t) = Some (ep, t))"
proof (cases s)
  case (Cons c cs)
  show ?thesis
  proof (cases "c = CHR ''e'' \<or> c = CHR ''E''")
    case True
    with assms Cons obtain sg ds u where d: "read_digits u = (ds, r)" "ds \<noteq> []" "ep = c # sg @ ds"
      "cs = sg @ u" "sg = [] \<or> sg = ''+'' \<or> sg = ''-''"
      by (auto simp: read_exp_def split: prod.splits if_splits list.splits)
    then have "\<forall>c \<in> set ds. is_digit c" and u: "u = ds @ r" using read_digits_props by blast+
    moreover obtain b bs where ds: "ds = b # bs" using d(2) by (cases ds) auto
    moreover have "read_digits (ds @ t) = (ds, t)" if "number_stop t"
      using calculation that by (intro read_digits_append) (auto simp: number_stop_def starts_no_digit_def)
    moreover have "b \<noteq> CHR ''+'' \<and> b \<noteq> CHR ''-''" using calculation by (auto simp: is_digit_def)
    ultimately show ?thesis
      using Cons True d by (auto simp: read_exp_def)
  next
    case False
    with assms Cons show ?thesis by (cases t) (auto simp: read_exp_def number_stop_def)
  qed
qed (use assms in \<open>cases t; auto simp: read_exp_def number_stop_def\<close>)

lemma read_number_props:
  assumes "read_number s = Some (n, r)"
  shows "s = n @ r \<and> n \<noteq> [] \<and> (hd n = CHR ''-'' \<or> is_digit (hd n)) \<and>
    (number_stop t \<longrightarrow> read_number (n @ t) = Some (n, t))"
proof -
  obtain sg s1 ip s2 fp s3 ep where m: "read_minus s = (sg, s1)" and i: "read_int s1 = Some (ip, s2)"
    and f: "read_frac s2 = Some (fp, s3)" and e: "read_exp s3 = Some (ep, r)" and n: "n = sg @ ip @ fp @ ep"
    using assms by (auto simp: read_number_def split: prod.splits option.splits)
  have props: "s = sg @ s1" "sg = [] \<or> sg = ''-''" "s1 = ip @ s2" "ip \<noteq> []" "is_digit (hd ip)"
    "s2 = fp @ s3" "fp = [] \<or> hd fp = CHR ''.''" "s3 = ep @ r" "ep = [] \<or> hd ep = CHR ''e'' \<or> hd ep = CHR ''E''"
    using read_minus_props [OF m] read_int_props [OF i] read_frac_props [OF f] read_exp_props [OF e] by auto
  have "read_number (n @ t) = Some (n, t)" if "number_stop t"
  proof -
    have nd: "\<not> is_digit (CHR ''.'')" "\<not> is_digit (CHR ''e'')" "\<not> is_digit (CHR ''E'')" "\<not> is_digit (CHR ''-'')"
      by (auto simp: is_digit_def)
    have "starts_no_digit (fp @ ep @ t)" "starts_no_digit (ep @ t)" "ep @ t = [] \<or> hd (ep @ t) \<noteq> CHR ''.''"
      using props that nd by (auto simp: starts_no_digit_def number_stop_def hd_append)
    moreover have "hd (ip @ fp @ ep @ t) \<noteq> CHR ''-''" using props nd by auto
    ultimately show ?thesis
      using read_minus_props [OF m, of "ip @ fp @ ep @ t"] read_int_props [OF i, of "fp @ ep @ t"]
        read_frac_props [OF f, of "ep @ t"] read_exp_props [OF e, of t] that
      by (simp add: read_number_def n)
  qed
  then show ?thesis using props n by (auto simp: hd_append)
qed

lemma read_number_self: "read_number s = Some (n, r) \<Longrightarrow> read_number n = Some (n, [])"
  using read_number_props [of s n r "[]"] by (simp add: number_stop_def)

lemma digit_char_0 [simp]: "digit_char 0 = CHR ''0''"
  using char_of_char [of "CHR ''0''", where ?'a = nat] by (simp add: digit_char_def del: char_of_char)

lemma digit_char_zero: "n < 10 \<Longrightarrow> digit_char n = CHR ''0'' \<longleftrightarrow> n = 0"
proof
  assume "n < 10" and "digit_char n = CHR ''0''"
  then have "of_char (digit_char n) = (48 :: nat)" by simp
  with \<open>n < 10\<close> show "n = 0" by (simp add: digit_char_def)
qed simp

lemma hd_format_nat: "n \<noteq> 0 \<Longrightarrow> hd (format_nat n) \<noteq> CHR ''0''"
proof (induction n rule: format_nat.induct)
  case (1 n)
  then show ?case by (cases "n < 10") (simp_all add: format_nat.simps [of n] digit_char_zero)
qed

lemma read_int_format_nat: "read_int (format_nat n) = Some (format_nat n, [])"
proof (cases "n = 0")
  case True
  then show ?thesis by (simp add: format_nat.simps [of 0] read_int_def)
next
  case False
  obtain c cs where c: "format_nat n = c # cs" by (cases "format_nat n") auto
  have d: "\<forall>b \<in> set (format_nat n). is_digit b" using format_nat_digits by blast
  then have "read_digits (format_nat n) = (format_nat n, [])"
    using read_digits_append [of "format_nat n" "[]"] by (simp add: starts_no_digit_def)
  with c d hd_format_nat [OF False] show ?thesis by (simp add: read_int_def)
qed

lemma read_number_format_int: "read_number (format_int i) = Some (format_int i, [])"
proof -
  have m: "read_minus (format_nat n) = ([], format_nat n)" for n
  proof (cases "format_nat n")
    case (Cons c cs)
    then have "is_digit c" using format_nat_digits [of c n] by simp
    with Cons show ?thesis by (auto simp: read_minus_def is_digit_def)
  qed simp
  have "read_minus (CHR ''-'' # s) = (''-'', s)" for s by (simp add: read_minus_def)
  with m show ?thesis
    by (simp add: format_int_def read_number_def read_int_format_nat read_frac_def read_exp_def)
qed

subsection \<open>Reading a value consumes input\<close>

lemma skip_ws_length: "length (skip_ws s) \<le> length s"
  by (simp add: skip_ws_def length_dropWhile_le)

lemma skip_ws_Cons_length: "skip_ws s = c # cs \<Longrightarrow> length cs < length s"
  using skip_ws_length [of s] by simp

lemma strip_prefix_eq: "strip_prefix p s = Some r \<longleftrightarrow> s = p @ r"
  by (induction p s rule: strip_prefix.induct) auto

lemma strip_prefix_skip_length: "strip_prefix (p # ps) (skip_ws s) = Some r \<Longrightarrow> length r < length s"
  using skip_ws_length [of s] by (simp add: strip_prefix_eq)

lemma read_number_length: "read_number s = Some (n, r) \<Longrightarrow> length r < length s"
  using read_number_props [of s n r] by auto

lemmas read_lengths =
  skip_ws_Cons_length strip_prefix_skip_length read_number_length conjunct2 [OF read_string_props]

lemma pval_length:
  "pval f d s = Some (v, r) \<Longrightarrow> length r < length s"
  "pelems f d s = Some (vs, r) \<Longrightarrow> length r < length s"
  "pmembers f d s = Some (ms, r) \<Longrightarrow> length r < length s"
proof (induction f d s and f d s and f d s arbitrary: v r and vs r and ms r rule: pval_pelems_pmembers.induct)
  case (2 f d s)
  from "2.prems" obtain c cs where s: "skip_ws s = c # cs" by (auto split: list.splits)
  note len = skip_ws_Cons_length [OF s]
  show ?case
    using "2.prems" s "2.IH"(1) [OF s] "2.IH"(2) [OF s]
    by (auto split: if_splits option.splits dest!: read_lengths simp: strip_prefix_eq intro: less_trans [OF _ len])
next
  case (4 f d s)
  from "4.prems" obtain v' r' where p: "pval f d s = Some (v', r')" by (auto split: option.splits)
  from "4.prems" p obtain c cs where w: "skip_ws r' = c # cs" by (auto split: list.splits)
  have len: "length cs < length s"
    using "4.IH"(1) [OF p] skip_ws_Cons_length [OF w] by simp
  show ?case
    using "4.prems" p w len "4.IH"(2) [OF p refl w] by (auto split: if_splits)
next
  case (6 f d s)
  from "6.prems" obtain t where t: "strip_prefix [CHR 0x22] (skip_ws s) = Some t" by (auto split: option.splits)
  from "6.prems" t obtain k t1 where k: "read_string t = Some (k, t1)" by (auto split: option.splits)
  from "6.prems" t k obtain t2 where t2: "strip_prefix '':'' (skip_ws t1) = Some t2" by (auto split: option.splits)
  from "6.prems" t k t2 obtain v' r' where p: "pval f d t2 = Some (v', r')" by (auto split: option.splits)
  from "6.prems" t k t2 p obtain c cs where w: "skip_ws r' = c # cs" by (auto split: list.splits)
  have len: "length cs < length s"
    using "6.IH"(1) [OF t k refl t2 p] read_lengths(1) [OF w] read_lengths(2) [OF t] read_lengths(2) [OF t2]
      read_lengths(4) [OF k] by simp
  show ?case
    using "6.prems" t k t2 p w len "6.IH"(2) [OF t k refl t2 p refl w] by (auto split: if_splits)
qed auto

subsection \<open>Enough fuel\<close>

lemma pval_fuel_eq:
  "2 * length s < f \<Longrightarrow> 2 * length s < g \<Longrightarrow> pval f d s = pval g d s"
  "Suc (2 * length s) < f \<Longrightarrow> Suc (2 * length s) < g \<Longrightarrow> pelems f d s = pelems g d s"
  "Suc (2 * length s) < f \<Longrightarrow> Suc (2 * length s) < g \<Longrightarrow> pmembers f d s = pmembers g d s"
proof (induction f d s and f d s and f d s arbitrary: g and g and g rule: pval_pelems_pmembers.induct)
  case (2 f d s)
  obtain g' where g: "g = Suc g'" using "2.prems" by (cases g) auto
  show ?case
  proof (cases "skip_ws s")
    case (Cons c cs)
    have "Suc (2 * length cs) < f" "Suc (2 * length cs) < g'"
      using skip_ws_Cons_length [OF Cons] "2.prems" g by simp_all
    then show ?thesis
      using "2.IH"(1) [OF Cons, of g'] "2.IH"(2) [OF Cons, of g'] Cons g by (auto split: option.split)
  qed (simp add: g)
next
  case (4 f d s)
  obtain g' where g: "g = Suc g'" using "4.prems" by (cases g) auto
  have eq: "pval f d s = pval g' d s" using "4.IH"(1) [of g'] "4.prems" g by simp
  show ?case
  proof (cases "pval f d s")
    case (Some p)
    obtain v r where p: "p = (v, r)" by (cases p)
    show ?thesis
    proof (cases "skip_ws r")
      case (Cons c cs)
      have "length cs < length s" using pval_length(1) [of f d s v r] Some p skip_ws_Cons_length [OF Cons] by simp
      then show ?thesis
        using "4.IH"(2) [OF Some p [symmetric] Cons, of g'] "4.prems" g Some p eq Cons by (auto split: option.split)
    qed (use Some p eq g in simp)
  qed (use eq g in simp)
next
  case (6 f d s)
  obtain g' where g: "g = Suc g'" using "6.prems" by (cases g) auto
  show ?case
  proof (cases "strip_prefix [CHR 0x22] (skip_ws s)")
    case (Some t)
    note t = this
    show ?thesis
    proof (cases "read_string t")
      case (Some q)
      obtain k t1 where k: "read_string t = Some (k, t1)" using Some by (cases q) auto
      show ?thesis
      proof (cases "strip_prefix '':'' (skip_ws t1)")
        case (Some t2)
        note t2 = this
        have l2: "length t2 < length s"
          using read_lengths(2) [OF t] read_lengths(2) [OF t2] read_lengths(4) [OF k] by simp
        have eq: "pval f d t2 = pval g' d t2" using "6.IH"(1) [OF t k refl t2, of g'] "6.prems" g l2 by simp
        show ?thesis
        proof (cases "pval f d t2")
          case (Some p)
          obtain v r where p: "p = (v, r)" by (cases p)
          show ?thesis
          proof (cases "skip_ws r")
            case (Cons c cs)
            have "length cs < length s"
              using pval_length(1) [of f d t2 v r] Some p skip_ws_Cons_length [OF Cons] l2 by simp
            then show ?thesis
              using "6.IH"(2) [OF t k refl t2 Some p [symmetric] Cons, of g'] "6.prems" g t k t2 Some p eq Cons
              by (auto split: option.split)
          qed (use Some p eq g t k t2 in simp)
        qed (use eq g t k t2 in simp)
      qed (use g t k in simp)
    qed (use g t in simp)
  qed (simp add: g)
qed auto

lemma pval_fuel: "2 * length s < f \<Longrightarrow> pval f d s = pval (Suc (2 * length s)) d s"
  by (rule pval_fuel_eq) auto

subsection \<open>What is read is well-formed\<close>

lemma json_wf_list: "list_all (\<lambda>p. p d) (map json_wf vs) \<longleftrightarrow> (\<forall>v \<in> set vs. json_wf v d)"
  by (simp add: list_all_iff)

lemma json_wf_members:
  "list_all (\<lambda>p. snd p d) (map (map_prod id json_wf) ms) \<longleftrightarrow> (\<forall>p \<in> set ms. json_wf (snd p) d)"
  by (simp add: list_all_iff)

lemma json_wf_empty: "json_wf (JObj []) d \<longleftrightarrow> d < max_depth"
  by simp

lemma json_wf_members_of:
  assumes "\<forall>p \<in> set ms. valid_utf8 (fst p) \<and> json_wf (snd p) (Suc d)" and "d < max_depth"
  shows "json_wf (JObj (map_of_members ms)) d"
  using assms set_map_of_members [of ms] by (auto simp: json_wf_members sorted_keys_map_of_members)

lemma pval_wf:
  "pval f d s = Some (v, r) \<Longrightarrow> json_wf v d"
  "pelems f d s = Some (vs, r) \<Longrightarrow> \<forall>v \<in> set vs. json_wf v d"
  "pmembers f d s = Some (ms, r) \<Longrightarrow> \<forall>p \<in> set ms. valid_utf8 (fst p) \<and> json_wf (snd p) d"
proof (induction f d s and f d s and f d s arbitrary: v r and vs r and ms r rule: pval_pelems_pmembers.induct)
  case (2 f d s)
  from "2.prems" obtain c cs where s: "skip_ws s = c # cs" by (auto split: list.splits)
  show ?case
    using "2.prems" s "2.IH"(1) [OF s] "2.IH"(2) [OF s]
    by (auto split: if_splits option.splits dest: read_string_props read_number_self
        intro!: json_wf_members_of simp: json_wf_list json_wf_empty simp del: json_wf.simps(6))
next
  case (4 f d s)
  from "4.prems" obtain v' r' where p: "pval f d s = Some (v', r')" by (auto split: option.splits)
  from "4.prems" p obtain c cs where w: "skip_ws r' = c # cs" by (auto split: list.splits)
  show ?case
    using "4.prems" p w "4.IH"(1) [OF p] "4.IH"(2) [OF p refl w] by (auto split: if_splits)
next
  case (6 f d s)
  from "6.prems" obtain t where t: "strip_prefix [CHR 0x22] (skip_ws s) = Some t" by (auto split: option.splits)
  from "6.prems" t obtain k t1 where k: "read_string t = Some (k, t1)" by (auto split: option.splits)
  from "6.prems" t k obtain t2 where t2: "strip_prefix '':'' (skip_ws t1) = Some t2" by (auto split: option.splits)
  from "6.prems" t k t2 obtain v' r' where p: "pval f d t2 = Some (v', r')" by (auto split: option.splits)
  from "6.prems" t k t2 p obtain c cs where w: "skip_ws r' = c # cs" by (auto split: list.splits)
  show ?case
    using "6.prems" t k t2 p w "6.IH"(1) [OF t k refl t2 p] "6.IH"(2) [OF t k refl t2 p refl w]
      conjunct1 [OF read_string_props [OF k]] by (fastforce split: if_splits)
qed auto

subsection \<open>What is written is read back\<close>

lemma marshal_head:
  assumes "json_wf v d"
  obtains c cs where "marshal v = c # cs" and "\<not> is_space c" and "c \<noteq> CHR '']''"
proof -
  have "marshal v \<noteq> [] \<and> \<not> is_space (hd (marshal v)) \<and> hd (marshal v) \<noteq> CHR '']''"
  proof (cases v)
    case (JNum n)
    then have "n \<noteq> [] \<and> (hd n = CHR ''-'' \<or> is_digit (hd n))"
      using assms read_number_props [of n n "[]"] by simp
    with JNum show ?thesis by (auto simp: is_space_def is_digit_def)
  qed (simp_all add: is_space_def quoted_def)
  then show thesis using that by (cases "marshal v") auto
qed

lemma skip_ws_marshal: "json_wf v d \<Longrightarrow> skip_ws (marshal v @ t) = marshal v @ t"
  by (erule marshal_head) (simp add: skip_ws_def)

lemma skip_ws_id: "\<not> is_space c \<Longrightarrow> skip_ws (c # cs) = c # cs"
  by (simp add: skip_ws_def)

text \<open>The text that may follow a value: after a number, nothing that continues it.\<close>

definition follows :: "json \<Rightarrow> string \<Rightarrow> bool" where
  "follows v t \<longleftrightarrow> (\<forall>n. v = JNum n \<longrightarrow> number_stop t)"

text \<open>A text that reads as a value below \<open>d\<close> open containers, whatever follows it.\<close>

definition reads_as :: "nat \<Rightarrow> string \<Rightarrow> json \<Rightarrow> bool" where
  "reads_as d x v \<longleftrightarrow> (\<forall>f t. follows v t \<longrightarrow> 2 * length x < f \<longrightarrow> pval f d (x @ t) = Some (v, t))"

lemma reads_asD: "reads_as d x v \<Longrightarrow> follows v t \<Longrightarrow> 2 * length x < f \<Longrightarrow> pval f d (x @ t) = Some (v, t)"
  by (simp add: reads_as_def)

definition reads_back :: "json \<Rightarrow> bool" where
  "reads_back v \<longleftrightarrow> (\<forall>d. json_wf v d \<longrightarrow> reads_as d (marshal v) v)"

lemma reads_backD:
  "reads_back v \<Longrightarrow> json_wf v d \<Longrightarrow> follows v t \<Longrightarrow> 2 * length (marshal v) < f \<Longrightarrow>
   pval f d (marshal v @ t) = Some (v, t)"
  by (simp add: reads_back_def reads_as_def)

lemma follows_delimiter: "c \<in> {CHR '','', CHR '']'', CHR ''}''} \<Longrightarrow> follows v (c # t)"
  by (auto simp: follows_def number_stop_def is_digit_def)

lemma commas_Cons: "commas (x # xs) = x @ (if xs = [] then [] else CHR '','' # commas xs)"
  by (cases xs) simp_all

text \<open>Texts of elements and of members, and what the readers make of them.\<close>

lemma pelems_texts:
  assumes "ps \<noteq> []" and "\<forall>p \<in> set ps. reads_as d (fst p) (snd p)"
    and "Suc (2 * length (commas (map fst ps))) < f"
  shows "pelems f d (commas (map fst ps) @ CHR '']'' # t) = Some (map snd ps, t)"
  using assms
proof (induction ps arbitrary: f)
  case (Cons p ps)
  obtain f' where f: "f = Suc f'" using Cons.prems(3) by (cases f) auto
  have v: "reads_as d (fst p) (snd p)" using Cons.prems(2) by simp
  show ?case
  proof (cases "ps = []")
    case True
    have "pval f' d (fst p @ CHR '']'' # t) = Some (snd p, CHR '']'' # t)"
      using Cons.prems(3) f True by (intro reads_asD [OF v] follows_delimiter) simp_all
    then show ?thesis using f True by (simp add: skip_ws_id is_space_def)
  next
    case False
    let ?u = "commas (map fst ps) @ CHR '']'' # t"
    have len: "Suc (2 * length (commas (map fst ps))) < f'" "2 * length (fst p) < f'"
      using Cons.prems(3) f False by (simp_all add: commas_Cons)
    have "pval f' d (fst p @ CHR '','' # ?u) = Some (snd p, CHR '','' # ?u)"
      using len by (intro reads_asD [OF v] follows_delimiter) simp_all
    moreover have "pelems f' d ?u = Some (map snd ps, t)"
      using Cons.IH [OF False _ len(1)] Cons.prems(2) by simp
    ultimately show ?thesis using f False by (simp add: commas_Cons skip_ws_id is_space_def)
  qed
qed simp

text \<open>The text of a key as it stands in a document, and the key it reads as.\<close>

definition key_reads :: "string \<Rightarrow> string \<Rightarrow> bool" where
  "key_reads x k \<longleftrightarrow> (\<exists>b. x = CHR 0x22 # b \<and> (\<forall>t. read_string (b @ t) = Some (k, t)))"

lemma key_reads_coerced: "key_reads (quoted k) (coerce_utf8 k)"
  by (simp add: key_reads_def quoted_def read_escape_coerced)

lemma key_reads_quoted: "valid_utf8 k \<Longrightarrow> key_reads (quoted k) k"
  using key_reads_coerced [of k] by (simp add: coerce_utf8_valid)

lemma key_readsE:
  assumes "key_reads x k"
  obtains b where "x = CHR 0x22 # b" "\<And>t. strip_prefix [CHR 0x22] (skip_ws (x @ t)) = Some (b @ t)"
    "\<And>t. read_string (b @ t) = Some (k, t)"
  using assms by (auto simp: key_reads_def skip_ws_id is_space_def)

text \<open>A member of an object with its texts: the key's text and the key, the value's text and the value.\<close>

type_synonym text_member = "(string \<times> string) \<times> string \<times> json"

abbreviation keyed_text :: "text_member \<Rightarrow> string" where
  "keyed_text p \<equiv> fst (fst p) @ CHR '':'' # fst (snd p)"

abbreviation keyed_value :: "text_member \<Rightarrow> string \<times> json" where
  "keyed_value p \<equiv> (snd (fst p), snd (snd p))"

definition keyed_reads :: "nat \<Rightarrow> text_member \<Rightarrow> bool" where
  "keyed_reads d p \<longleftrightarrow> key_reads (fst (fst p)) (snd (fst p)) \<and> reads_as d (fst (snd p)) (snd (snd p))"

lemma pmembers_texts:
  assumes "ps \<noteq> []" and "\<forall>p \<in> set ps. keyed_reads d p"
    and "Suc (2 * length (commas (map keyed_text ps))) < f"
  shows "pmembers f d (commas (map keyed_text ps) @ CHR ''}'' # t) = Some (map keyed_value ps, t)"
  using assms
proof (induction ps arbitrary: f)
  case (Cons p ps)
  obtain f' where f: "f = Suc f'" using Cons.prems(3) by (cases f) auto
  obtain y k x v where p: "p = ((y, k), x, v)" by (cases p) auto
  have v: "reads_as d x v" and "key_reads y k" using Cons.prems(2) p by (simp_all add: keyed_reads_def)
  then obtain b where key: "\<And>u. strip_prefix [CHR 0x22] (skip_ws (y @ u)) = Some (b @ u)"
    "\<And>u. read_string (b @ u) = Some (k, u)" by (auto elim: key_readsE)
  show ?case
  proof (cases "ps = []")
    case True
    have "pval f' d (x @ CHR ''}'' # t) = Some (v, CHR ''}'' # t)"
      using Cons.prems(3) f p True by (intro reads_asD [OF v] follows_delimiter) simp_all
    then show ?thesis
      using f p True by (simp add: key skip_ws_id is_space_def)
  next
    case False
    let ?u = "commas (map keyed_text ps) @ CHR ''}'' # t"
    have len: "Suc (2 * length (commas (map keyed_text ps))) < f'" "2 * length x < f'"
      using Cons.prems(3) f p False by (simp_all add: commas_Cons)
    have "pval f' d (x @ CHR '','' # ?u) = Some (v, CHR '','' # ?u)"
      using len by (intro reads_asD [OF v] follows_delimiter) simp_all
    moreover have "pmembers f' d ?u = Some (map keyed_value ps, t)"
      using Cons.IH [OF False _ len(1)] Cons.prems(2) by simp
    ultimately show ?thesis
      using f p False by (simp add: commas_Cons key skip_ws_id is_space_def)
  qed
qed simp

text \<open>A member whose key is written by \<open>quoted\<close>.\<close>

abbreviation entry_string :: "string \<times> string \<times> json \<Rightarrow> string" where
  "entry_string p \<equiv> quoted (fst p) @ CHR '':'' # fst (snd p)"

abbreviation entry_value :: "string \<times> string \<times> json \<Rightarrow> string \<times> json" where
  "entry_value p \<equiv> (fst p, snd (snd p))"

definition entry_reads :: "nat \<Rightarrow> string \<times> string \<times> json \<Rightarrow> bool" where
  "entry_reads d p \<longleftrightarrow> valid_utf8 (fst p) \<and> reads_as d (fst (snd p)) (snd (snd p))"

abbreviation member_text :: "string \<times> json \<Rightarrow> string" where
  "member_text p \<equiv> quoted (fst p) @ CHR '':'' # marshal (snd p)"

lemma marshal_members:
  "map (\<lambda>(k, t). quoted k @ CHR '':'' # t) (map (map_prod id marshal) ms) = map member_text ms"
  by (simp add: comp_def split_beta)

lemma marshal_JObj: "marshal (JObj ms) = CHR ''{'' # commas (map member_text ms) @ ''}''"
  by (simp only: marshal.simps marshal_members)

text \<open>Strings, arrays and objects from the texts of their parts.\<close>

lemma reads_asI:
  assumes "\<And>f t. follows v t \<Longrightarrow> 2 * length x \<le> f \<Longrightarrow> pval (Suc f) d (x @ t) = Some (v, t)"
  shows "reads_as d x v"
  unfolding reads_as_def
proof (intro allI impI)
  fix f t assume "follows v t" "2 * length x < f"
  then show "pval f d (x @ t) = Some (v, t)" using assms [of t "f - 1"] by (cases f) auto
qed

lemma reads_as_coerced: "reads_as d (quoted s) (JStr (coerce_utf8 s))"
  by (rule reads_asI) (simp add: quoted_def skip_ws_id is_space_def read_escape_coerced)

lemma reads_as_string: "valid_utf8 s \<Longrightarrow> reads_as d (quoted s) (JStr s)"
  using reads_as_coerced [of d s] by (simp add: coerce_utf8_valid)

text \<open>How a value's text starts.\<close>

definition starts_value :: "string \<Rightarrow> bool" where
  "starts_value x \<longleftrightarrow> x \<noteq> [] \<and> \<not> is_space (hd x) \<and> hd x \<noteq> CHR '']''"

lemma starts_value_quoted [simp]: "starts_value (quoted s)"
  by (simp add: starts_value_def quoted_def is_space_def)

lemma starts_value_brace [simp]: "starts_value (CHR ''{'' # s)" "starts_value (CHR ''['' # s)"
  by (simp_all add: starts_value_def is_space_def)

lemma skip_ws_starts: "starts_value x \<Longrightarrow> skip_ws (x @ t) = x @ t"
  by (cases x) (simp_all add: starts_value_def skip_ws_id)

lemma reads_as_array:
  assumes "\<forall>p \<in> set ps. reads_as (Suc d) (fst p) (snd p) \<and> starts_value (fst p)" and "d < max_depth"
  shows "reads_as d (CHR ''['' # commas (map fst ps) @ '']'') (JArr (map snd ps))"
proof (rule reads_asI)
  fix f t
  assume f: "2 * length (CHR ''['' # commas (map fst ps) @ '']'') \<le> f"
  show "pval (Suc f) d ((CHR ''['' # commas (map fst ps) @ '']'') @ t) = Some (JArr (map snd ps), t)"
  proof (cases ps)
    case Nil
    with assms(2) show ?thesis by (simp add: skip_ws_id is_space_def)
  next
    case (Cons p ps')
    then have "strip_prefix '']'' (skip_ws (commas (map fst ps) @ CHR '']'' # t)) = None"
      using assms(1) by (cases "fst p") (auto simp: commas_Cons skip_ws_id starts_value_def)
    moreover have "pelems f (Suc d) (commas (map fst ps) @ CHR '']'' # t) = Some (map snd ps, t)"
      using Cons assms(1) f by (intro pelems_texts) simp_all
    ultimately show ?thesis using assms(2) by (simp add: skip_ws_id is_space_def)
  qed
qed

lemma reads_as_members:
  assumes "\<forall>p \<in> set ps. keyed_reads (Suc d) p" and "d < max_depth"
  shows "reads_as d (CHR ''{'' # commas (map keyed_text ps) @ ''}'') (JObj (map_of_members (map keyed_value ps)))"
proof (rule reads_asI)
  fix f t
  assume f: "2 * length (CHR ''{'' # commas (map keyed_text ps) @ ''}'') \<le> f"
  show "pval (Suc f) d ((CHR ''{'' # commas (map keyed_text ps) @ ''}'') @ t)
    = Some (JObj (map_of_members (map keyed_value ps)), t)"
  proof (cases ps)
    case Nil
    with assms(2) show ?thesis by (simp add: skip_ws_id is_space_def map_of_members_def)
  next
    case (Cons p ps')
    with assms(1) obtain b where "fst (fst p) = CHR 0x22 # b" by (auto simp: keyed_reads_def elim: key_readsE)
    with Cons have "strip_prefix ''}'' (skip_ws (commas (map keyed_text ps) @ CHR ''}'' # t)) = None"
      by (simp add: commas_Cons skip_ws_id is_space_def)
    moreover have "pmembers f (Suc d) (commas (map keyed_text ps) @ CHR ''}'' # t) = Some (map keyed_value ps, t)"
      using Cons assms(1) f by (intro pmembers_texts) simp_all
    ultimately show ?thesis using assms(2) by (simp add: skip_ws_id is_space_def)
  qed
qed

lemma reads_as_object:
  assumes "\<forall>p \<in> set ps. entry_reads (Suc d) p" and "d < max_depth"
  shows "reads_as d (CHR ''{'' # commas (map entry_string ps) @ ''}'') (JObj (map_of_members (map entry_value ps)))"
  using reads_as_members [of "map (\<lambda>p. ((quoted (fst p), fst p), snd p)) ps" d] assms
  by (auto simp: keyed_reads_def entry_reads_def key_reads_quoted comp_def)

lemma reads_as_number:
  assumes "read_number n = Some (n, [])"
  shows "reads_as d n (JNum n)"
proof (rule reads_asI)
  fix f t
  assume "follows (JNum n) t"
  then have n: "read_number (n @ t) = Some (n, t)" "n \<noteq> []" "hd n = CHR ''-'' \<or> is_digit (hd n)"
    using read_number_props [OF assms, of t] by (auto simp: follows_def)
  then obtain c cs where c: "n = c # cs" by (cases n) auto
  have "c \<notin> set ''{[tfn'' \<and> c \<noteq> CHR 0x22 \<and> \<not> is_space c"
    using n(3) c by (auto simp: is_digit_def is_space_def)
  then show "pval (Suc f) d (n @ t) = Some (JNum n, t)"
    using n(1) c by (simp add: skip_ws_id)
qed

lemma starts_value_marshal: "json_wf v d \<Longrightarrow> starts_value (marshal v)"
  by (erule marshal_head) (simp add: starts_value_def)

lemma reads_back_all: "reads_back v"
proof (induction v)
  case (JNum n)
  show ?case by (simp add: reads_back_def reads_as_number)
next
  case (JStr s)
  show ?case by (simp add: reads_back_def reads_as_string)
next
  case (JArr vs)
  show ?case unfolding reads_back_def
  proof (intro allI impI)
    fix d
    assume "json_wf (JArr vs) d"
    then have "reads_as d (CHR ''['' # commas (map fst (map (\<lambda>v. (marshal v, v)) vs)) @ '']'')
        (JArr (map snd (map (\<lambda>v. (marshal v, v)) vs)))"
      using JArr by (intro reads_as_array) (auto simp: json_wf_list reads_back_def intro: starts_value_marshal)
    then show "reads_as d (marshal (JArr vs)) (JArr vs)" by (simp add: comp_def)
  qed
next
  case (JObj ms)
  let ?ps = "map (\<lambda>p. (fst p, marshal (snd p), snd p)) ms"
  show ?case unfolding reads_back_def
  proof (intro allI impI)
    fix d
    assume wf: "json_wf (JObj ms) d"
    then have "\<forall>p \<in> set ms. reads_back (snd p)" using JObj by (auto simp: snds.simps)
    with wf have "reads_as d (CHR ''{'' # commas (map entry_string ?ps) @ ''}'') (JObj (map_of_members (map entry_value ?ps)))"
      by (intro reads_as_object) (auto simp: json_wf_members reads_back_def entry_reads_def)
    then show "reads_as d (marshal (JObj ms)) (JObj ms)"
      using wf by (simp add: comp_def marshal_JObj map_of_members_sorted del: marshal.simps(6))
  qed
next
  case JNull
  show ?case unfolding reads_back_def
    by (intro allI impI reads_asI) (simp add: skip_ws_id is_space_def)
next
  case (JBool b)
  show ?case unfolding reads_back_def
    by (intro allI impI reads_asI) (simp add: skip_ws_id is_space_def)
qed

lemma json_wf_numbers_ok: "json_wf v d \<Longrightarrow> numbers_ok v"
proof (induction v arbitrary: d)
  case (JObj ms)
  then show ?case by (fastforce simp: list_all_iff json_wf_members snds.simps)
qed (auto simp: list_all_iff)

lemma json_marshal_wf: "json_wf v d \<Longrightarrow> json_marshal v = Inr (marshal v)"
  by (simp add: json_marshal_def json_wf_numbers_ok)

theorem json_decode_marshal: "json_wf v 0 \<Longrightarrow> json_decode (marshal v) = Inr v"
  using reads_backD [OF reads_back_all, of v 0 "[]" "Suc (2 * length (marshal v))"]
  by (simp add: json_decode_def follows_def number_stop_def)

lemma json_decode_wf: "json_decode s = Inr v \<Longrightarrow> json_wf v 0"
  by (auto simp: json_decode_def split: option.splits dest: pval_wf(1) simp del: pval.simps)

interpretation json_text: normal_codec marshal "ok_value \<circ> json_decode" "\<lambda>v. json_wf v 0"
  by unfold_locales (simp_all add: json_decode_marshal json_decode_wf)

end
