(* ===== verification/Go_Time.thy ===== *)
theory Go_Time
  imports Strconv
begin

section \<open>Instants and their RFC 3339 text\<close>

text \<open>
  \<^verbatim>\<open>time.Time\<close> as the code uses it: an instant in nanoseconds, the zero instant (January 1, year 1, 00:00:00
  UTC) that \<open>IsZero\<close> tests, and \<open>t.UTC().Format(time.RFC3339)\<close>, which every response uses for its
  timestamps. The calendar is the proleptic Gregorian one of Go's \<^verbatim>\<open>time\<close> package, counted in
  400-year eras from March 1 of year 0.
\<close>

definition nanos_per_second :: int where
  "nanos_per_second = 1000000000"

definition zero_time :: go_time where
  "zero_time = - (62135596800 * nanos_per_second)"

definition is_zero_time :: "go_time \<Rightarrow> bool" where
  "is_zero_time t \<longleftrightarrow> t = zero_time"

text \<open>Year, month and day of a day number (0 is January 1, 1970).\<close>

definition year_of_era :: "int \<Rightarrow> int" where
  "year_of_era doe = (doe - doe div 1460 + doe div 36524 - doe div 146096) div 365"

definition day_of_year :: "int \<Rightarrow> int \<Rightarrow> int" where
  "day_of_year doe yoe = doe - (365 * yoe + yoe div 4 - yoe div 100)"

definition civil_of_year_day :: "int \<Rightarrow> int \<Rightarrow> int \<times> int \<times> int" where
  "civil_of_year_day y doy =
     (let mp = (5 * doy + 2) div 153; d = doy - (153 * mp + 2) div 5 + 1
      in if mp < 10 then (y, mp + 3, d) else (y + 1, mp - 9, d))"

definition civil_of_day :: "int \<Rightarrow> int \<times> int \<times> int" where
  "civil_of_day day =
     (let era = (day + 719468) div 146097;
          doe = (day + 719468) mod 146097;
          yoe = year_of_era doe
      in civil_of_year_day (yoe + era * 400) (day_of_year doe yoe))"

text \<open>\<open>appendInt\<close>: decimal digits of at least the given width.\<close>

definition pad_left :: "nat \<Rightarrow> string \<Rightarrow> string" where
  "pad_left w s = replicate (w - length s) (CHR ''0'') @ s"

definition append_int :: "nat \<Rightarrow> int \<Rightarrow> string" where
  "append_int w n = (if n < 0 then ''-'' else []) @ pad_left w (format_nat (nat \<bar>n\<bar>))"

definition format_date :: "int \<times> int \<times> int \<Rightarrow> string" where
  "format_date ymd =
     (case ymd of (y, m, d) \<Rightarrow> append_int 4 y @ ''-'' @ append_int 2 m @ ''-'' @ append_int 2 d)"

definition format_clock :: "int \<Rightarrow> string" where
  "format_clock r =
     append_int 2 (r div 3600) @ '':'' @ append_int 2 (r mod 3600 div 60) @ '':'' @ append_int 2 (r mod 60)"

definition format_rfc3339 :: "go_time \<Rightarrow> string" where
  "format_rfc3339 t =
     (let s = t div nanos_per_second
      in format_date (civil_of_day (s div 86400)) @ ''T'' @ format_clock (s mod 86400) @ ''Z'')"

lemma civil_examples:
  "civil_of_day 0 = (1970, 1, 1)" "civil_of_day 20148 = (2025, 3, 1)" "civil_of_day 20147 = (2025, 2, 28)"
  "civil_of_day (- 719162) = (1, 1, 1)" "civil_of_day 11016 = (2000, 2, 29)"
  by code_simp+

lemma format_zero_time: "format_rfc3339 zero_time = ''0001-01-01T00:00:00Z''"
  by code_simp

lemma format_epoch: "format_rfc3339 0 = ''1970-01-01T00:00:00Z''"
  by code_simp

end
