(* ===== verification/Rfc3339.thy ===== *)
theory Rfc3339
  imports Go_Time
begin

section \<open>Reading timestamps back\<close>

text \<open>
  How \<open>encoding/json\<close> writes and reads a \<^verbatim>\<open>time.Time\<close>: \<open>MarshalJSON\<close> writes RFC 3339 with the fraction of
  the second and refuses years of more than four digits; \<open>UnmarshalJSON\<close> first tries the strict reader
  \<open>parseRFC3339\<close> below. The main result is the round trip \<open>parse_format\<close>, which rests on the
  inversion of the civil calendar (\<open>civil_of_day_spec\<close>).
\<close>

subsection \<open>Writing\<close>

text \<open>\<open>appendNano\<close>: nine digits without trailing zeros, or nothing.\<close>

definition strip_zeros :: "string \<Rightarrow> string" where
  "strip_zeros s = rev (dropWhile (\<lambda>c. c = CHR ''0'') (rev s))"

definition format_fraction :: "int \<Rightarrow> string" where
  "format_fraction n = (if n = 0 then [] else CHR ''.'' # strip_zeros (append_int 9 n))"

definition format_nano :: "go_time \<Rightarrow> string" where
  "format_nano t =
     (let s = t div nanos_per_second
      in format_date (civil_of_day (s div 86400)) @ ''T'' @ format_clock (s mod 86400)
           @ format_fraction (t mod nanos_per_second) @ ''Z'')"

definition year_of :: "go_time \<Rightarrow> int" where
  "year_of t = fst (civil_of_day (t div nanos_per_second div 86400))"

definition marshal_time :: "go_time \<Rightarrow> string result" where
  "marshal_time t =
     (if 0 \<le> year_of t \<and> year_of t \<le> 9999 then Inr (format_nano t)
      else Inl (Sentinel ''Time.MarshalJSON: year outside of range [0,9999]''))"

subsection \<open>Reading\<close>

definition is_leap :: "int \<Rightarrow> bool" where
  "is_leap y \<longleftrightarrow> y mod 4 = 0 \<and> (y mod 100 \<noteq> 0 \<or> y mod 400 = 0)"

definition days_in :: "int \<Rightarrow> int \<Rightarrow> int" where
  "days_in m y = (if m = 2 then (if is_leap y then 29 else 28) else if m \<in> {4, 6, 9, 11} then 30 else 31)"

definition days_of_civil :: "int \<Rightarrow> int \<Rightarrow> int \<Rightarrow> int" where
  "days_of_civil y m d =
     (let y' = (if m \<le> 2 then y - 1 else y);
          yoe = y' mod 400;
          doy = (153 * ((m + 9) mod 12) + 2) div 5 + d - 1
      in y' div 400 * 146097 + (365 * yoe + yoe div 4 - yoe div 100 + doy) - 719468)"

definition digits_value :: "string \<Rightarrow> int" where
  "digits_value s = fold (\<lambda>c n. 10 * n + int (digit_value c)) s 0"

definition parse_uint :: "string \<Rightarrow> int \<Rightarrow> int \<Rightarrow> int option" where
  "parse_uint s lo hi =
     (if list_all is_digit s \<and> lo \<le> digits_value s \<and> digits_value s \<le> hi then Some (digits_value s) else None)"

text \<open>The fraction: a point and at least one digit; digits after the ninth are dropped.\<close>

definition parse_fraction :: "string \<Rightarrow> int \<times> string" where
  "parse_fraction s =
     (case s of
        p # c # cs \<Rightarrow>
          if p = CHR ''.'' \<and> is_digit c
          then let ds = take 9 (takeWhile is_digit (c # cs))
               in (digits_value ds * 10 ^ (9 - length ds), dropWhile is_digit (c # cs))
          else (0, s)
      | _ \<Rightarrow> (0, s))"

definition parse_zone :: "string \<Rightarrow> int option" where
  "parse_zone s =
     (if s = ''Z'' then Some 0
      else if length s \<noteq> 6 then None
      else case (parse_uint (take 2 (drop 1 s)) 0 23, parse_uint (drop 4 s) 0 59) of
             (Some hr, Some mm) \<Rightarrow>
               if s ! 3 = CHR '':'' \<and> s ! 0 = CHR ''+'' then Some (hr * 3600 + mm * 60)
               else if s ! 3 = CHR '':'' \<and> s ! 0 = CHR ''-'' then Some (- (hr * 3600 + mm * 60))
               else None
           | _ \<Rightarrow> None)"

definition parse_date :: "string \<Rightarrow> (int \<times> int \<times> int) option" where
  "parse_date s =
     (case (parse_uint (take 4 s) 0 9999, parse_uint (take 2 (drop 5 s)) 1 12) of
        (Some y, Some m) \<Rightarrow>
          (case parse_uint (take 2 (drop 8 s)) 1 (days_in m y) of
             Some d \<Rightarrow> if s ! 4 = CHR ''-'' \<and> s ! 7 = CHR ''-'' \<and> s ! 10 = CHR ''T'' then Some (y, m, d) else None
           | None \<Rightarrow> None)
      | _ \<Rightarrow> None)"

definition parse_clock :: "string \<Rightarrow> int option" where
  "parse_clock s =
     (case (parse_uint (take 2 s) 0 23, parse_uint (take 2 (drop 3 s)) 0 59, parse_uint (take 2 (drop 6 s)) 0 59) of
        (Some h, Some m, Some sec) \<Rightarrow>
          if s ! 2 = CHR '':'' \<and> s ! 5 = CHR '':'' then Some (h * 3600 + m * 60 + sec) else None
      | _ \<Rightarrow> None)"

definition parse_rfc3339 :: "string \<Rightarrow> go_time option" where
  "parse_rfc3339 s =
     (if length s < 19 then None
      else case (parse_date s, parse_clock (drop 11 s), parse_fraction (drop 19 s)) of
             (Some (y, m, d), Some r, nsec, zone) \<Rightarrow>
               map_option (\<lambda>off. (days_of_civil y m d * 86400 + r - off) * nanos_per_second + nsec) (parse_zone zone)
           | _ \<Rightarrow> None)"

subsection \<open>The calendar\<close>

definition era_days :: "int \<Rightarrow> int" where
  "era_days yoe = 365 * yoe + yoe div 4 - yoe div 100"

text \<open>The last day of a year within the era; its last year has a leap day the formula does not count.\<close>

definition year_end :: "int \<Rightarrow> int" where
  "year_end y = (if y = 399 then 146096 else era_days (y + 1) - 1)"

lemma year_of_era_step:
  assumes "0 \<le> d" and "d < 146096"
  shows "year_of_era d \<le> year_of_era (d + 1)"
proof (cases "d = 146095")
  case True
  have "year_of_era 146095 \<le> year_of_era 146096" by code_simp
  with True show ?thesis by simp
next
  case False
  have "(d + 1) div 146096 = 0" "d div 146096 = 0" using assms False by simp_all
  moreover have "(d + 1) div 1460 \<le> d div 1460 + 1" by simp
  moreover have "d div 36524 \<le> (d + 1) div 36524" by (rule zdiv_mono1) simp_all
  ultimately show ?thesis unfolding year_of_era_def by (intro zdiv_mono1) linarith+
qed

lemma year_of_era_mono:
  assumes "0 \<le> a" and "a \<le> b" and "b \<le> 146096"
  shows "year_of_era a \<le> year_of_era b"
  using assms(2,3)
proof (induction b rule: int_ge_induct)
  case (step i)
  then show ?case using year_of_era_step [of i] assms(1) by simp
qed simp

lemma year_of_era_ends:
  "list_all (\<lambda>y. year_of_era (era_days y) = y \<and> year_of_era (year_end y) = y) [0..399]"
  by code_simp

lemma era_days_step: "era_days (y + 1) - era_days y \<le> 366"
proof -
  have "(y + 1) div 4 \<le> y div 4 + 1" by simp
  moreover have "y div 100 \<le> (y + 1) div 100" by (rule zdiv_mono1) simp_all
  moreover have "365 * (y + 1) + a - e - (365 * y + b - c) \<le> 366" if "a \<le> b + 1" "c \<le> e" for a b c e :: int
    using that by (simp add: distrib_left)
  ultimately show ?thesis unfolding era_days_def by blast
qed


lemma era_year_exists:
  assumes "0 \<le> d" and "d \<le> 146096"
  obtains y where "0 \<le> y" "y \<le> 399" "era_days y \<le> d" "d \<le> year_end y"
proof -
  have "\<exists>y. 0 \<le> y \<and> y \<le> 399 \<and> era_days y \<le> d \<and> d \<le> year_end y" if "d < era_days (int n)" "n \<le> 399" for n
    using that
  proof (induction n)
    case 0
    then show ?case using assms by (simp add: era_days_def)
  next
    case (Suc n)
    show ?case
    proof (cases "d < era_days (int n)")
      case False
      then show ?thesis using Suc.prems assms
        by (intro exI [of _ "int n"]) (auto simp: add.commute year_end_def)
    qed (use Suc in simp)
  qed
  then have "\<exists>y. 0 \<le> y \<and> y \<le> 399 \<and> era_days y \<le> d \<and> d \<le> year_end y" if "d < era_days 399" using that by force
  moreover have "d \<le> year_end 399" using assms(2) by (simp add: year_end_def)
  ultimately show thesis using that by (meson linorder_not_le order_refl zero_le_numeral)
qed

lemma year_of_era_bounds:
  assumes "0 \<le> d" and "d \<le> 146096"
  shows "0 \<le> year_of_era d \<and> year_of_era d \<le> 399 \<and> 0 \<le> d - era_days (year_of_era d)
    \<and> d \<le> year_end (year_of_era d)"
proof -
  from assms obtain y where y: "0 \<le> y" "y \<le> 399" "era_days y \<le> d" "d \<le> year_end y"
    by (rule era_year_exists)
  have ends: "year_of_era (era_days y) = y" "year_of_era (year_end y) = y"
    using year_of_era_ends y(1,2) by (simp_all add: list_all_iff)
  have "y div 100 * 100 + y mod 100 = y" "0 \<le> y mod 100" "0 \<le> y div 4" using y(1) by simp_all
  then have "0 \<le> era_days y" using y(1) unfolding era_days_def by linarith
  have "y div 4 \<le> 99" "(y + 1) div 4 \<le> 99 \<or> y = 399" "0 \<le> (y + 1) div 100" using y(1,2) by auto
  then have end_le: "year_end y \<le> 146096" using y(2) unfolding year_end_def era_days_def by auto
  from \<open>0 \<le> era_days y\<close> have "y \<le> year_of_era d" using year_of_era_mono [of "era_days y" d] y(3) assms(2) ends(1) by simp
  moreover have "year_of_era d \<le> y" using year_of_era_mono [of d "year_end y"] y(4) assms(1) ends(2) end_le by simp
  ultimately have "year_of_era d = y" by simp
  with y show ?thesis by simp
qed

lemma civil_of_year_day_table:
  "list_all (\<lambda>doy. case civil_of_year_day 0 doy of (y, m, d) \<Rightarrow>
      1 \<le> m \<and> m \<le> 12 \<and> 1 \<le> d \<and> (153 * ((m + 9) mod 12) + 2) div 5 + d - 1 = doy \<and> y = (if m \<le> 2 then 1 else 0)
      \<and> d \<le> (if m = 2 then 29 else if m \<in> {4, 6, 9, 11} then 30 else 31) \<and> (m = 2 \<and> d = 29 \<longleftrightarrow> doy = 365)) [0..365]"
  by code_simp

lemma civil_of_year_day_shift: "civil_of_year_day y doy = (case civil_of_year_day 0 doy of (y0, md) \<Rightarrow> (y + y0, md))"
  by (simp add: civil_of_year_day_def Let_def)

lemma civil_of_year_day_spec:
  assumes "0 \<le> doy" and "doy \<le> 365" and "civil_of_year_day y doy = (y', m, d)"
  shows "1 \<le> m" "m \<le> 12" "1 \<le> d" "(153 * ((m + 9) mod 12) + 2) div 5 + d - 1 = doy" "y' = (if m \<le> 2 then y + 1 else y)"
    "d \<le> (if m = 2 then 29 else if m \<in> {4, 6, 9, 11} then 30 else 31)" "m = 2 \<and> d = 29 \<longleftrightarrow> doy = 365"
proof -
  obtain y0 where e: "civil_of_year_day 0 doy = (y0, m, d)" "y' = y + y0"
    using assms(3) by (subst (asm) civil_of_year_day_shift) (auto split: prod.splits)
  have "doy \<in> set [0..365]" using assms(1,2) by simp
  with e have f: "1 \<le> m \<and> m \<le> 12 \<and> 1 \<le> d \<and> (153 * ((m + 9) mod 12) + 2) div 5 + d - 1 = doy \<and> y0 = (if m \<le> 2 then 1 else 0)
      \<and> d \<le> (if m = 2 then 29 else if m \<in> {4, 6, 9, 11} then 30 else 31) \<and> (m = 2 \<and> d = 29 \<longleftrightarrow> doy = 365)"
    using civil_of_year_day_table [unfolded list_all_iff, rule_format, of doy] by auto
  from f show "1 \<le> m" "m \<le> 12" "1 \<le> d" "(153 * ((m + 9) mod 12) + 2) div 5 + d - 1 = doy"
    "d \<le> (if m = 2 then 29 else if m \<in> {4, 6, 9, 11} then 30 else 31)" "m = 2 \<and> d = 29 \<longleftrightarrow> doy = 365" by blast+
  from f e(2) show "y' = (if m \<le> 2 then y + 1 else y)" by auto
qed

lemma leap_table:
  "list_all (\<lambda>y. era_days (y + 1) - era_days y = 366 \<or> y = 399 \<longrightarrow> is_leap (y + 1)) [0..399]"
  by code_simp

lemma is_leap_era: "is_leap (y + e * 400) \<longleftrightarrow> is_leap y"
proof -
  have "(y + e * 100 * 4) mod 4 = y mod 4" "(y + e * 4 * 100) mod 100 = y mod 100" by (simp_all only: mod_mult_self1)
  then show ?thesis by (simp add: is_leap_def mult.assoc)
qed

text \<open>A day number and its date: the date is valid and gives the day number back.\<close>

lemma civil_of_era_day:
  assumes "0 \<le> doe" "doe \<le> 146096" "civil_of_year_day (year_of_era doe + era * 400) (doe - era_days (year_of_era doe)) = (y, m, d)"
  shows "1 \<le> m" "m \<le> 12" "1 \<le> d" "d \<le> days_in m y" "days_of_civil y m d = era * 146097 + doe - 719468"
proof -
  obtain yoe where yoe: "yoe = year_of_era doe" by blast
  obtain doy where doy: "doy = doe - era_days yoe" by blast
  note b = year_of_era_bounds [OF assms(1,2), folded yoe]
  have bd: "0 \<le> doy" "doy \<le> 365"
    using b era_days_step [of yoe] by (auto simp: doy year_end_def era_days_def split: if_splits)
  note s = civil_of_year_day_spec [OF bd assms(3) [folded yoe, folded doy]]
  show "1 \<le> m" "m \<le> 12" "1 \<le> d" by (rule s)+
  have y': "(if m \<le> 2 then y - 1 else y) = yoe + era * 400" using s(5) by auto
  have "(yoe + era * 400) mod 400 = yoe" "(yoe + era * 400) div 400 = era" using b by simp_all
  moreover have "365 * yoe + yoe div 4 - yoe div 100 + doy = doe" by (simp add: doy era_days_def)
  ultimately show "days_of_civil y m d = era * 146097 + doe - 719468"
    unfolding days_of_civil_def Let_def y' s(4) [symmetric] by (simp only: add.assoc)
  show "d \<le> days_in m y"
  proof (cases "m = 2 \<and> d = 29")
    case True
    then have "doy = 365" using s(7) by simp
    then have "era_days (yoe + 1) - era_days yoe = 366 \<or> yoe = 399"
      using b era_days_step [of yoe] by (auto simp: doy year_end_def)
    moreover have "yoe \<in> set [0..399]" using b by simp
    ultimately have "is_leap (yoe + 1)" using leap_table unfolding list_all_iff by blast
    then have "is_leap y" using s(5) True is_leap_era [of "yoe + 1" era] by (simp add: algebra_simps)
    with True show ?thesis by (simp add: days_in_def)
  next
    case False
    with s(6) show ?thesis by (auto simp: days_in_def split: if_splits)
  qed
qed

lemma civil_of_day_spec:
  assumes "civil_of_day day = (y, m, d)"
  shows "1 \<le> m" "m \<le> 12" "1 \<le> d" "d \<le> days_in m y" "days_of_civil y m d = day"
proof -
  let ?z = "day + 719468"
  have doe: "0 \<le> ?z mod 146097" "?z mod 146097 \<le> 146096" using pos_mod_bound [of 146097 ?z] by simp_all
  have c: "civil_of_year_day (year_of_era (?z mod 146097) + ?z div 146097 * 400)
      (?z mod 146097 - era_days (year_of_era (?z mod 146097))) = (y, m, d)"
    using assms by (simp only: civil_of_day_def Let_def era_days_def day_of_year_def)
  note r = civil_of_era_day [OF doe c]
  show "1 \<le> m" "m \<le> 12" "1 \<le> d" "d \<le> days_in m y" by (rule r)+
  show "days_of_civil y m d = day" unfolding r(5) div_mult_mod_eq by simp
qed

subsection \<open>Digits\<close>

lemma digits_value_snoc: "digits_value (s @ [c]) = 10 * digits_value s + int (digit_value c)"
  by (simp add: digits_value_def)

lemma digits_value_append: "digits_value (a @ b) = digits_value a * 10 ^ length b + digits_value b"
proof (induction b rule: rev_induct)
  case (snoc c b)
  have "digits_value (a @ b @ [c]) = 10 * digits_value (a @ b) + int (digit_value c)"
    using digits_value_snoc [of "a @ b" c] by simp
  then show ?case by (simp add: snoc digits_value_snoc distrib_left)
qed (simp add: digits_value_def)

lemma digits_value_Nil [simp]: "digits_value [] = 0"
  by (simp add: digits_value_def)

lemma digits_value_single: "n < 10 \<Longrightarrow> digits_value [digit_char n] = int n"
  by (simp add: digits_value_def)

lemma digits_value_format_nat: "digits_value (format_nat n) = int n"
proof (induction n rule: format_nat.induct)
  case (1 n)
  show ?case
  proof (cases "n < 10")
    case False
    have "int (n div 10) * 10 + int (n mod 10) = int n" by presburger
    moreover have "digits_value (format_nat n) = 10 * digits_value (format_nat (n div 10)) + int (n mod 10)"
      using False by (simp add: format_nat.simps [of n] digits_value_snoc)
    ultimately show ?thesis using 1 [OF False] by simp
  qed (simp add: format_nat.simps [of n] digits_value_single)
qed

lemma length_format_nat: "n < 10 ^ w \<Longrightarrow> 0 < w \<Longrightarrow> length (format_nat n) \<le> w"
proof (induction n arbitrary: w rule: format_nat.induct)
  case (1 n)
  show ?case
  proof (cases "n < 10")
    case False
    with 1(2,3) obtain w' where w: "w = Suc w'" "0 < w'" by (cases w; cases "w - 1") auto
    with 1(2) have "n div 10 < 10 ^ w'" by (simp add: less_mult_imp_div_less)
    from 1(1) [OF False this w(2)] False w show ?thesis by (simp add: format_nat.simps [of n])
  qed (use 1 in \<open>simp add: format_nat.simps [of n]\<close>)
qed

lemma digits_value_zeros: "digits_value (replicate k (CHR ''0'')) = 0"
  by (induction k) (simp_all add: digits_value_def digit_value_def)

lemma append_int_props:
  assumes "0 \<le> n" and "n < 10 ^ w" and "0 < w"
  shows "length (append_int w n) = w" "list_all is_digit (append_int w n)" "digits_value (append_int w n) = n"
proof -
  have "nat n < 10 ^ w" using assms by (metis nat_less_eq_zless nat_numeral nat_power_eq zero_le_numeral)
  then show "length (append_int w n) = w"
    using assms length_format_nat [of "nat n" w] by (simp add: append_int_def pad_left_def)
  have "is_digit (CHR ''0'')" by (simp add: is_digit_def)
  then show "list_all is_digit (append_int w n)"
    using assms format_nat_digits [of _ "nat n"] by (auto simp: append_int_def pad_left_def list_all_iff)
  show "digits_value (append_int w n) = n"
    using assms by (simp add: append_int_def pad_left_def digits_value_append digits_value_zeros digits_value_format_nat)
qed

lemma parse_uint_append_int:
  "0 \<le> n \<Longrightarrow> n < 10 ^ w \<Longrightarrow> 0 < w \<Longrightarrow> lo \<le> n \<Longrightarrow> n \<le> hi \<Longrightarrow> parse_uint (append_int w n) lo hi = Some n"
  by (simp add: parse_uint_def append_int_props)

subsection \<open>The round trip\<close>

lemma take_exact: "length a = n \<Longrightarrow> take n (a @ b) = a"
  by simp

lemma drop_exact: "length a = n \<Longrightarrow> drop n (a @ b) = b"
  by simp

lemma parse_format_date:
  assumes "0 \<le> y" "y \<le> 9999" "1 \<le> m" "m \<le> 12" "1 \<le> d" "d \<le> days_in m y"
  shows "length (format_date (y, m, d)) = 10" "parse_date (format_date (y, m, d) @ CHR ''T'' # s) = Some (y, m, d)"
proof -
  have d: "d \<le> 31" using assms(6) by (auto simp: days_in_def split: if_splits)
  define a b c where "a = append_int 4 y" and "b = append_int 2 m" and "c = append_int 2 d"
  have len: "length a = 4" "length b = 2" "length c = 2"
    unfolding a_def b_def c_def using assms d by (auto intro!: append_int_props)
  have eq: "format_date (y, m, d) = a @ ''-'' @ b @ ''-'' @ c"
    by (simp add: format_date_def a_def b_def c_def)
  show "length (format_date (y, m, d)) = 10" by (simp add: eq len)
  have u: "parse_uint a 0 9999 = Some y" "parse_uint b 1 12 = Some m" "parse_uint c 1 (days_in m y) = Some d"
    unfolding a_def b_def c_def using assms d by (auto intro!: parse_uint_append_int)
  obtain a0 a1 a2 a3 where a: "a = [a0, a1, a2, a3]" using len(1) by (auto simp: numeral_eq_Suc length_Suc_conv)
  obtain b0 b1 where b: "b = [b0, b1]" using len(2) by (auto simp: numeral_eq_Suc length_Suc_conv)
  obtain c0 c1 where c: "c = [c0, c1]" using len(3) by (auto simp: numeral_eq_Suc length_Suc_conv)
  show "parse_date (format_date (y, m, d) @ CHR ''T'' # s) = Some (y, m, d)"
    using u by (simp add: eq a b c parse_date_def)
qed

lemma parse_clock_fields:
  assumes "0 \<le> h" "h \<le> 23" "0 \<le> m" "m \<le> 59" "0 \<le> sec" "sec \<le> 59"
  defines "t \<equiv> append_int 2 h @ '':'' @ append_int 2 m @ '':'' @ append_int 2 sec"
  shows "length t = 8" "parse_clock (t @ s) = Some (h * 3600 + m * 60 + sec)"
proof -
  define a b c where "a = append_int 2 h" and "b = append_int 2 m" and "c = append_int 2 sec"
  have len: "length a = 2" "length b = 2" "length c = 2"
    unfolding a_def b_def c_def using assms by (auto intro!: append_int_props)
  have eq: "t = a @ '':'' @ b @ '':'' @ c" by (simp add: t_def a_def b_def c_def)
  show "length t = 8" by (simp add: eq len)
  have u: "parse_uint a 0 23 = Some h" "parse_uint b 0 59 = Some m" "parse_uint c 0 59 = Some sec"
    unfolding a_def b_def c_def using assms by (auto intro!: parse_uint_append_int)
  obtain a0 a1 where a: "a = [a0, a1]" using len(1) by (auto simp: numeral_eq_Suc length_Suc_conv)
  obtain b0 b1 where b: "b = [b0, b1]" using len(2) by (auto simp: numeral_eq_Suc length_Suc_conv)
  obtain c0 c1 where c: "c = [c0, c1]" using len(3) by (auto simp: numeral_eq_Suc length_Suc_conv)
  show "parse_clock (t @ s) = Some (h * 3600 + m * 60 + sec)"
    using u by (simp add: eq a b c parse_clock_def)
qed

lemma clock_fields:
  fixes r :: int
  assumes "0 \<le> r" "r < 86400"
  shows "0 \<le> r div 3600" "r div 3600 \<le> 23" "0 \<le> r mod 3600 div 60" "r mod 3600 div 60 \<le> 59"
    "r div 3600 * 3600 + r mod 3600 div 60 * 60 + r mod 60 = r"
proof -
  show "0 \<le> r div 3600" "0 \<le> r mod 3600 div 60" using assms by (simp_all add: pos_imp_zdiv_nonneg_iff)
  have "r div 3600 \<le> 86399 div 3600" using assms by (intro zdiv_mono1) simp_all
  then show "r div 3600 \<le> 23" by simp
  have "r mod 3600 div 60 \<le> 3599 div 60" using pos_mod_bound [of 3600 r] by (intro zdiv_mono1) simp_all
  then show "r mod 3600 div 60 \<le> 59" by simp
  have "r mod 60 = r mod 3600 mod 60" by (simp add: mod_mod_cancel)
  then have "r div 3600 * 3600 + (r mod 3600 div 60 * 60 + r mod 60) = r" by (simp only: div_mult_mod_eq)
  then show "r div 3600 * 3600 + r mod 3600 div 60 * 60 + r mod 60 = r" by (simp only: add.assoc)
qed

lemma parse_format_clock:
  assumes "0 \<le> r" "r < 86400"
  shows "length (format_clock r) = 8" "parse_clock (format_clock r @ s) = Some r"
proof -
  have "0 \<le> r mod 60" "r mod 60 \<le> 59" using pos_mod_bound [of 60 r] by simp_all
  note f = parse_clock_fields [OF clock_fields(1-4) [OF assms] this, folded format_clock_def]
  show "length (format_clock r) = 8" "parse_clock (format_clock r @ s) = Some r"
    unfolding f clock_fields(5) [OF assms] by (rule refl)+
qed

lemma strip_zeros_split: "\<exists>k. s = strip_zeros s @ replicate k (CHR ''0'')"
proof -
  have "takeWhile (\<lambda>c. c = CHR ''0'') (rev s) = replicate (length (takeWhile (\<lambda>c. c = CHR ''0'') (rev s))) (CHR ''0'')"
    by (intro replicate_eqI) (auto dest: set_takeWhileD)
  then have "s = strip_zeros s @ replicate (length (takeWhile (\<lambda>c. c = CHR ''0'') (rev s))) (CHR ''0'')"
    unfolding strip_zeros_def by (metis rev_append rev_replicate rev_rev_ident takeWhile_dropWhile_id)
  then show ?thesis by blast
qed

lemma parse_format_fraction:
  assumes "0 \<le> n" "n < nanos_per_second"
  shows "parse_fraction (format_fraction n @ ''Z'') = (n, ''Z'')"
proof (cases "n = 0")
  case True
  then show ?thesis by (simp add: format_fraction_def parse_fraction_def)
next
  case False
  define s where "s = append_int 9 n"
  have p: "length s = 9" "list_all is_digit s" "digits_value s = n"
    unfolding s_def using assms by (auto intro!: append_int_props simp: nanos_per_second_def)
  obtain k where k: "s = strip_zeros s @ replicate k (CHR ''0'')" using strip_zeros_split by blast
  let ?z = "strip_zeros s"
  have len: "length ?z + k = 9" using p(1) k by (metis length_append length_replicate)
  have val: "digits_value ?z * 10 ^ k = n" using p(3) k digits_value_append [of ?z "replicate k (CHR ''0'')"]
    by (simp add: digits_value_zeros)
  have dig: "\<forall>c \<in> set ?z. is_digit c" using p(2) k by (metis list_all_append list_all_iff)
  have "?z \<noteq> []" using val False by auto
  then obtain c cs where z: "?z = c # cs" by (cases ?z) auto
  have Z: "\<not> is_digit (CHR ''Z'')" by (simp add: is_digit_def)
  have w: "takeWhile is_digit (?z @ ''Z'') = ?z" "dropWhile is_digit (?z @ ''Z'') = ''Z''"
    using dig Z by (simp_all add: takeWhile_append dropWhile_append)
  have "9 - length ?z = k" "take 9 ?z = ?z" using len by simp_all
  then show ?thesis
    using w val dig z False by (simp add: format_fraction_def parse_fraction_def s_def [symmetric])
qed

theorem parse_format:
  assumes "marshal_time t = Inr s"
  shows "parse_rfc3339 s = Some t"
proof -
  let ?sec = "t div nanos_per_second"
  obtain y m d where c: "civil_of_day (?sec div 86400) = (y, m, d)" by (cases "civil_of_day (?sec div 86400)") auto
  note cs = civil_of_day_spec [OF c]
  have y: "0 \<le> y" "y \<le> 9999" and s: "s = format_nano t"
    using assms c by (auto simp: marshal_time_def year_of_def split: if_splits)
  note date = parse_format_date [OF y cs(1-4)]
  have r: "0 \<le> ?sec mod 86400" "?sec mod 86400 < 86400" by simp_all
  note clock = parse_format_clock [OF r]
  have frac: "parse_fraction (format_fraction (t mod nanos_per_second) @ ''Z'') = (t mod nanos_per_second, ''Z'')"
    by (intro parse_format_fraction) (simp_all add: nanos_per_second_def)
  let ?D = "format_date (y, m, d)" and ?C = "format_clock (?sec mod 86400)"
    and ?F = "format_fraction (t mod nanos_per_second) @ ''Z''"
  have shape: "s = ?D @ CHR ''T'' # ?C @ ?F" using s c by (simp add: format_nano_def Let_def)
  have "drop 11 s = ?C @ ?F" "drop 19 s = ?F" "\<not> length s < 19"
    unfolding shape using date(1) clock(1) by (simp_all add: drop_Cons')
  moreover have "parse_date s = Some (y, m, d)" unfolding shape by (rule date(2))
  moreover have "parse_zone ''Z'' = Some 0" by (simp add: parse_zone_def)
  moreover have "days_of_civil y m d * 86400 + ?sec mod 86400 = ?sec" using cs(5) by simp
  ultimately show ?thesis using clock(2) frac by (simp add: parse_rfc3339_def)
qed

end
