(* ===== verification/Struct_Json.thy ===== *)
theory Struct_Json
  imports Raw_Json Json_Roundtrip Rfc3339
begin

section \<open>JSON into Go structs\<close>

text \<open>
  \<open>json.Unmarshal\<close> into a struct, as the anchor providers use it on their proof data. The whole text is
  checked first; then the members are stored in the order of the text. A member's name finds a field
  exactly or up to case folding (\<open>foldName\<close>), a name without a field is skipped, \<open>null\<close> changes
  nothing, and a value of another type is an error. A slice is filled element by element into the
  elements it already has, which a repeated member shows. The main result is \<open>unmarshal_object\<close>: the
  text of a struct gives its fields back.
\<close>

definition type_error :: go_error where
  "type_error = Sentinel ''json: cannot unmarshal value into Go struct field''"

definition syntax_error :: go_error where
  "syntax_error = Sentinel ''invalid JSON''"

subsection \<open>Field names\<close>

definition fold_char :: "char \<Rightarrow> char" where
  "fold_char c = (if 97 \<le> (of_char c :: nat) \<and> (of_char c :: nat) \<le> 122 then char_of (of_char c - 32 :: nat) else c)"

text \<open>Besides the ASCII letters, two code points fold to a letter: U+017F to \<open>S\<close>, U+212A to \<open>K\<close>.\<close>

fun fold_name :: "string \<Rightarrow> string" where
  "fold_name [] = []"
| "fold_name (c # cs) =
     (if take 2 (c # cs) = utf8_encode 383 then CHR ''S'' # fold_name (drop 1 cs)
      else if take 3 (c # cs) = utf8_encode 8490 then CHR ''K'' # fold_name (drop 2 cs)
      else fold_char c # fold_name cs)"

type_synonym 's struct_fields = "(string \<times> (bytes \<Rightarrow> 's \<Rightarrow> 's result)) list"

definition find_field :: "'s struct_fields \<Rightarrow> string \<Rightarrow> (bytes \<Rightarrow> 's \<Rightarrow> 's result) option" where
  "find_field fs k =
     (case map_of fs k of
        Some dec \<Rightarrow> Some dec
      | None \<Rightarrow> map_option snd (find (\<lambda>f. fold_name (fst f) = fold_name k) fs))"

fun store_members :: "'s struct_fields \<Rightarrow> (string \<times> bytes) list \<Rightarrow> 's \<Rightarrow> 's result" where
  "store_members fs [] s = Inr s"
| "store_members fs ((k, raw) # ms) s =
     (case find_field fs k of
        None \<Rightarrow> store_members fs ms s
      | Some dec \<Rightarrow> (case dec raw s of Inl e \<Rightarrow> Inl e | Inr s' \<Rightarrow> store_members fs ms s'))"

text \<open>The value's text \<open>raw\<close> into the struct \<open>s\<close>.\<close>

definition unmarshal_struct :: "'s struct_fields \<Rightarrow> bytes \<Rightarrow> 's \<Rightarrow> 's result" where
  "unmarshal_struct fs raw s =
     (case whole_value raw of
        None \<Rightarrow> Inl syntax_error
      | Some v \<Rightarrow>
          (case v of
             JNull \<Rightarrow> Inr s
           | JObj ms \<Rightarrow>
               if ms = [] then Inr s
               else (case raw_members (Suc (length raw)) (drop 1 (skip_ws raw)) of
                       None \<Rightarrow> Inl syntax_error
                     | Some ps \<Rightarrow> store_members fs ps s)
           | _ \<Rightarrow> Inl type_error))"

subsection \<open>Field values\<close>

definition unmarshal_string :: "bytes \<Rightarrow> string \<Rightarrow> string result" where
  "unmarshal_string raw old =
     (case whole_value raw of
        None \<Rightarrow> Inl syntax_error
      | Some v \<Rightarrow> (case v of JNull \<Rightarrow> Inr old | JStr s \<Rightarrow> Inr s | _ \<Rightarrow> Inl type_error))"

text \<open>\<open>Time.UnmarshalJSON\<close> reads the text between the quotes without unescaping it. What \<open>time.Parse\<close>
  accepts beyond the strict reader (a comma for the point, an hour of one digit) is the parameter
  \<open>lenient\<close>.\<close>

definition unmarshal_time :: "(string \<Rightarrow> go_time option) \<Rightarrow> bytes \<Rightarrow> go_time \<Rightarrow> go_time result" where
  "unmarshal_time lenient raw old =
     (if raw = ''null'' then Inr old
      else if length raw < 2 \<or> hd raw \<noteq> CHR 0x22 \<or> last raw \<noteq> CHR 0x22
      then Inl (Sentinel ''Time.UnmarshalJSON: input is not a JSON string'')
      else let s = butlast (tl raw)
           in case (case parse_rfc3339 s of Some t \<Rightarrow> Some t | None \<Rightarrow> lenient s) of
                Some t \<Rightarrow> Inr t
              | None \<Rightarrow> Inl (Sentinel ''parsing time''))"

text \<open>The elements of an array after its opening bracket, as texts.\<close>

fun raw_elements :: "nat \<Rightarrow> string \<Rightarrow> bytes list option" where
  "raw_elements 0 s = None"
| "raw_elements (Suc f) s =
     (case value_text 1 s of
        None \<Rightarrow> None
      | Some (raw, r) \<Rightarrow>
     (case skip_ws r of
        [] \<Rightarrow> None
      | c # cs \<Rightarrow>
          if c = CHR '']'' then Some [raw]
          else if c = CHR '','' then map_option ((#) raw) (raw_elements f cs)
          else None))"

text \<open>A slice: its elements, and those its backing array holds beyond its length.\<close>

type_synonym 'a slice = "'a list \<times> 'a list"

fun fill_slots :: "(bytes \<Rightarrow> 'a \<Rightarrow> 'a result) \<Rightarrow> 'a \<Rightarrow> bytes list \<Rightarrow> 'a list \<Rightarrow> 'a slice result" where
  "fill_slots dec zero [] slots = Inr ([], slots)"
| "fill_slots dec zero (raw # raws) slots =
     (case dec raw (case slots of [] \<Rightarrow> zero | old # _ \<Rightarrow> old) of
        Inl e \<Rightarrow> Inl e
      | Inr x \<Rightarrow>
          (case fill_slots dec zero raws (drop 1 slots) of
             Inl e \<Rightarrow> Inl e
           | Inr (xs, rest) \<Rightarrow> Inr (x # xs, rest)))"

definition unmarshal_slice :: "(bytes \<Rightarrow> 'a \<Rightarrow> 'a result) \<Rightarrow> 'a \<Rightarrow> bytes \<Rightarrow> 'a slice \<Rightarrow> 'a slice result" where
  "unmarshal_slice dec zero raw old =
     (case whole_value raw of
        None \<Rightarrow> Inl syntax_error
      | Some v \<Rightarrow>
          (case v of
             JNull \<Rightarrow> Inr ([], [])
           | JArr vs \<Rightarrow>
               if vs = [] then Inr ([], [])
               else (case raw_elements (Suc (length raw)) (drop 1 (skip_ws raw)) of
                       None \<Rightarrow> Inl syntax_error
                     | Some raws \<Rightarrow> fill_slots dec zero raws (fst old @ snd old))
           | _ \<Rightarrow> Inl type_error))"

text \<open>A field of a struct: its current value is what the decoder starts from.\<close>

definition struct_field ::
  "(bytes \<Rightarrow> 'a \<Rightarrow> 'a result) \<Rightarrow> ('s \<Rightarrow> 'a) \<Rightarrow> (('a \<Rightarrow> 'a) \<Rightarrow> 's \<Rightarrow> 's) \<Rightarrow> bytes \<Rightarrow> 's \<Rightarrow> 's result" where
  "struct_field dec get upd raw s = (case dec raw (get s) of Inl e \<Rightarrow> Inl e | Inr x \<Rightarrow> Inr (upd (\<lambda>_. x) s))"

subsection \<open>Reading back what was written\<close>

lemma whole_value_reads: "reads_as 0 x v \<Longrightarrow> whole_value x = Some v"
  using reads_asD [of 0 x v "[]" "Suc (2 * length x)"]
  by (simp add: whole_value_def follows_def number_stop_def skip_ws_def)

lemma value_text_reads:
  assumes "reads_as d x v" and "starts_value x" and "follows v t"
  shows "value_text d (x @ t) = Some (x, t)"
  using reads_asD [OF assms(1,3), of "Suc (2 * length (x @ t))"] assms(2)
  by (simp add: value_text_def skip_ws_starts del: pval.simps)

definition entry_starts :: "string \<times> string \<times> json \<Rightarrow> bool" where
  "entry_starts p \<longleftrightarrow> starts_value (fst (snd p))"

lemma raw_members_texts:
  assumes "ps \<noteq> []" and "\<forall>p \<in> set ps. entry_reads 1 p \<and> entry_starts p" and "length ps \<le> f"
  shows "raw_members f (commas (map entry_string ps) @ CHR ''}'' # t) = Some (map (\<lambda>p. (fst p, fst (snd p))) ps)"
  using assms
proof (induction ps arbitrary: f)
  case (Cons p ps)
  obtain f' where f: "f = Suc f'" using Cons.prems(3) by (cases f) auto
  obtain k x v where p: "p = (k, x, v)" by (cases p) auto
  have v: "reads_as 1 x v" "starts_value x" and k: "valid_utf8 k"
    using Cons.prems(2) p by (simp_all add: entry_reads_def entry_starts_def)
  have key: "strip_prefix [CHR 0x22] (skip_ws (quoted k @ u)) = Some (escape_string k @ CHR 0x22 # u)" for u
    by (simp add: quoted_def skip_ws_id is_space_def)
  have "follows v (CHR ''}'' # t)" "follows v (CHR '','' # u)" for u by (rule follows_delimiter; simp)+
  note rd = value_text_reads [OF v this(1)] value_text_reads [OF v this(2)]
  show ?case
  proof (cases "ps = []")
    case True
    then show ?thesis using f p rd by (simp add: key read_escape_string [OF k] skip_ws_id is_space_def)
  next
    case False
    have "raw_members f' (commas (map entry_string ps) @ CHR ''}'' # t) = Some (map (\<lambda>p. (fst p, fst (snd p))) ps)"
      using Cons.IH [OF False] Cons.prems f by simp
    then show ?thesis
      using f p False rd by (simp add: commas_Cons key read_escape_string [OF k] skip_ws_id is_space_def)
  qed
qed simp

lemma raw_elements_texts:
  assumes "ps \<noteq> []" and "\<forall>p \<in> set ps. reads_as 1 (fst p) (snd p) \<and> starts_value (fst p)" and "length ps \<le> f"
  shows "raw_elements f (commas (map fst ps) @ CHR '']'' # t) = Some (map fst ps)"
  using assms
proof (induction ps arbitrary: f)
  case (Cons p ps)
  obtain f' where f: "f = Suc f'" using Cons.prems(3) by (cases f) auto
  have v: "reads_as 1 (fst p) (snd p)" "starts_value (fst p)" using Cons.prems(2) by simp_all
  have "follows (snd p) (CHR '']'' # t)" "follows (snd p) (CHR '','' # u)" for u by (rule follows_delimiter; simp)+
  note rd = value_text_reads [OF v this(1)] value_text_reads [OF v this(2)]
  show ?case
  proof (cases "ps = []")
    case True
    then show ?thesis using f rd by (simp add: skip_ws_id is_space_def)
  next
    case False
    have "raw_elements f' (commas (map fst ps) @ CHR '']'' # t) = Some (map fst ps)"
      using Cons.IH [OF False] Cons.prems f by simp
    then show ?thesis using f False rd by (simp add: commas_Cons skip_ws_id is_space_def)
  qed
qed simp

lemma map_of_members_Nil_iff [simp]: "map_of_members ms = [] \<longleftrightarrow> ms = []"
proof
  assume e: "map_of_members ms = []"
  show "ms = []"
  proof (rule ccontr)
    assume "ms \<noteq> []"
    then have "map_of (rev ms) (fst (last ms)) \<noteq> None"
      by (cases ms rule: rev_cases) auto
    then show False using e map_get_map_of_members [of ms "fst (last ms)"] by (simp add: map_get_def)
  qed
qed (simp add: map_of_members_def)

lemma length_commas: "\<forall>x \<in> set xs. x \<noteq> [] \<Longrightarrow> length xs \<le> length (commas xs)"
proof (induction xs)
  case (Cons x xs)
  then show ?case by (cases x) (auto simp: commas_Cons)
qed simp

theorem unmarshal_object:
  assumes "ps \<noteq> []" and "\<forall>p \<in> set ps. entry_reads 1 p \<and> entry_starts p"
  shows "unmarshal_struct fs (json_object (map entry_string ps)) s = store_members fs (map (\<lambda>p. (fst p, fst (snd p))) ps) s"
proof -
  let ?raw = "json_object (map entry_string ps)" and ?ms = "map_of_members (map entry_value ps)"
  have "reads_as 0 (CHR ''{'' # commas (map entry_string ps) @ ''}'') (JObj ?ms)"
    using assms(2) by (intro reads_as_object) (simp_all add: max_depth_def)
  then have w: "whole_value ?raw = Some (JObj ?ms)"
    unfolding json_object_def by (rule whole_value_reads)
  have "length ps \<le> length (commas (map entry_string ps))"
    using length_commas [of "map entry_string ps"] by (simp add: quoted_def)
  then have "length ps \<le> Suc (length ?raw)" by (simp add: json_object_def)
  from raw_members_texts [OF assms this, of "[]"]
  have "raw_members (Suc (length ?raw)) (drop 1 (skip_ws ?raw)) = Some (map (\<lambda>p. (fst p, fst (snd p))) ps)"
    by (simp add: json_object_def skip_ws_id is_space_def)
  moreover have "?ms \<noteq> []" using assms(1) by simp
  ultimately show ?thesis by (simp add: unmarshal_struct_def w)
qed

theorem unmarshal_array:
  assumes "\<forall>p \<in> set ps. reads_as 1 (fst p) (snd p) \<and> starts_value (fst p)"
  shows "unmarshal_slice dec zero (json_array (map fst ps)) ([], []) = fill_slots dec zero (map fst ps) []"
proof -
  let ?raw = "json_array (map fst ps)"
  have "reads_as 0 (CHR ''['' # commas (map fst ps) @ '']'') (JArr (map snd ps))"
    using assms by (intro reads_as_array) (simp_all add: max_depth_def)
  then have w: "whole_value ?raw = Some (JArr (map snd ps))"
    unfolding json_array_def by (rule whole_value_reads)
  show ?thesis
  proof (cases "ps = []")
    case True
    then show ?thesis using w by (simp add: unmarshal_slice_def)
  next
    case False
    have "\<forall>x \<in> set (map fst ps). x \<noteq> []" using assms by (auto simp: starts_value_def)
    from length_commas [OF this] have "length ps \<le> Suc (length ?raw)" by (simp add: json_array_def)
    from raw_elements_texts [OF False assms this, of "[]"]
    have "raw_elements (Suc (length ?raw)) (drop 1 (skip_ws ?raw)) = Some (map fst ps)"
      by (simp add: json_array_def skip_ws_id is_space_def)
    with False show ?thesis by (simp add: unmarshal_slice_def w)
  qed
qed

lemma unmarshal_quoted: "valid_utf8 s \<Longrightarrow> unmarshal_string (quoted s) old = Inr s"
  using whole_value_reads [OF reads_as_string [of s 0]] by (simp add: unmarshal_string_def)

text \<open>A member whose value is a string.\<close>

definition string_entry :: "string \<Rightarrow> string \<Rightarrow> string \<times> string \<times> json" where
  "string_entry k s = (k, quoted s, JStr s)"

lemma string_entry_simps [simp]:
  "fst (string_entry k s) = k" "fst (snd (string_entry k s)) = quoted s"
  by (simp_all add: string_entry_def)

lemma string_entry_ok: "valid_utf8 k \<Longrightarrow> valid_utf8 s \<Longrightarrow> entry_reads d (string_entry k s) \<and> entry_starts (string_entry k s)"
  by (simp add: entry_reads_def entry_starts_def string_entry_def reads_as_string)

text \<open>Characters that a JSON string holds as they are.\<close>

definition plain_char :: "char \<Rightarrow> bool" where
  "plain_char c \<longleftrightarrow> is_digit c \<or> c \<in> {CHR ''-'', CHR '':'', CHR ''.'', CHR ''T'', CHR ''Z''}"

lemma escape_plain: "list_all plain_char s \<Longrightarrow> escape_string s = s \<and> valid_utf8 s"
proof (induction s)
  case (Cons c cs)
  have n: "32 \<le> (of_char c :: nat)" "(of_char c :: nat) < 128"
    using Cons.prems by (auto simp: plain_char_def is_digit_def)
  have d: "c \<notin> {CHR 0x22, CHR 0x5C, CHR ''<'', CHR ''>'', CHR ''&''}"
    using Cons.prems by (auto simp: plain_char_def is_digit_def)
  have "c \<noteq> CHR 0x08" "c \<noteq> CHR 0x0C" "c \<noteq> CHR 0x0A" "c \<noteq> CHR 0x0D" "c \<noteq> CHR 0x09" using n(1) by auto
  then have "escape_ascii c = [c]" using n(1) d by (auto simp: escape_ascii_def)
  moreover have "utf8_width (c # cs) = 1" using n(2) by (simp only: utf8_width_1)
  ultimately show ?case using Cons n(2) by (simp add: escape_rune_def valid_utf8_ascii del: valid_utf8.simps(2) utf8_width.simps)
qed simp

lemma plain_chars [simp]: "plain_char (CHR ''-'')" "plain_char (CHR '':'')" "plain_char (CHR ''.'')" "plain_char (CHR ''T'')" "plain_char (CHR ''Z'')"
  by (simp_all add: plain_char_def)

lemma plain_append_int: "0 \<le> n \<Longrightarrow> list_all plain_char (append_int w n)"
  using format_nat_digits [of _ "nat n"] by (auto simp: append_int_def pad_left_def list_all_iff plain_char_def is_digit_def)

lemma plain_clock:
  assumes "0 \<le> r"
  shows "list_all plain_char (format_clock r)"
proof -
  have "0 \<le> r div 3600" "0 \<le> r mod 3600 div 60" "0 \<le> r mod 60"
    using assms by (simp_all add: pos_imp_zdiv_nonneg_iff)
  note this [THEN plain_append_int [of _ 2]]
  then show ?thesis by (simp only: format_clock_def list_all_append list.pred_inject plain_chars simp_thms)
qed

lemma plain_fraction: "0 \<le> n \<Longrightarrow> list_all plain_char (format_fraction n)"
  using plain_append_int [of n 9]
  by (auto simp: format_fraction_def strip_zeros_def list_all_iff dest: set_dropWhileD)

lemma format_nano_plain:
  assumes "marshal_time t = Inr s"
  shows "list_all plain_char s"
proof -
  let ?sec = "t div nanos_per_second"
  obtain y m d where c: "civil_of_day (?sec div 86400) = (y, m, d)" by (cases "civil_of_day (?sec div 86400)") auto
  have y: "0 \<le> y" and s: "s = format_nano t"
    using assms c by (auto simp: marshal_time_def year_of_def split: if_splits)
  have "list_all plain_char (format_date (y, m, d))"
    using y civil_of_day_spec(1,3) [OF c] by (simp add: format_date_def plain_append_int)
  moreover have "list_all plain_char (format_clock (?sec mod 86400))" by (rule plain_clock) simp
  moreover have "list_all plain_char (format_fraction (t mod nanos_per_second))"
    by (rule plain_fraction) (simp add: nanos_per_second_def)
  ultimately show ?thesis by (simp add: s format_nano_def Let_def c)
qed

lemma unmarshal_marshal_time:
  assumes "marshal_time t = Inr s"
  shows "unmarshal_time lenient (quoted s) old = Inr t"
  using parse_format [OF assms] escape_plain [OF format_nano_plain [OF assms]]
  by (simp add: unmarshal_time_def quoted_def)

end
