(* ===== verification/Provider_Ots.thy ===== *)
theory Provider_Ots
  imports Providers Struct_Json
begin

section \<open>The OpenTimestamps provider\<close>

text \<open>
  \<^verbatim>\<open>providers/opentimestamps/opentimestamps.go\<close>: a Merkle root is posted to every configured calendar
  server, the receipts become the anchor's proof data, and \<open>Verify\<close> asks the servers of those receipts
  whether the proof has been upgraded. The network is the parameter \<open>http\<close>, which answers the \<open>k\<close>-th
  request of a call; the clock is a parameter. The main results are the exact outcome of \<open>Verify\<close> in
  terms of the HTTP answers, the round trip of the proof data, and the \<open>Verify\<close> contract as an
  interpretation of \<open>swallowing_provider\<close>.
\<close>

subsection \<open>The network\<close>

text \<open>What becomes of a request: it cannot be built (a malformed URL), there is no response, or there is
  one with a status, a body and possibly an error while reading the body.\<close>

datatype http_result = BadRequest go_error | NoResponse go_error | Response int bytes "go_error option"

record http_client =
  http_post :: "nat \<Rightarrow> string \<Rightarrow> bytes \<Rightarrow> http_result"
  http_get :: "nat \<Rightarrow> string \<Rightarrow> http_result"

text \<open>\<open>io.LimitReader(resp.Body, 1<<20)\<close>\<close>

definition limited :: "bytes \<Rightarrow> bytes" where
  "limited body = take 1048576 body"

subsection \<open>Base64\<close>

definition base64_char :: "nat \<Rightarrow> char" where
  "base64_char n = (if n < 26 then char_of (65 + n) else if n < 52 then char_of (71 + n)
     else if n < 62 then char_of (n - 4) else if n = 62 then CHR ''+'' else CHR ''/'')"

text \<open>\<open>base64.StdEncoding.EncodeToString\<close>\<close>

fun base64_encode :: "bytes \<Rightarrow> string" where
  "base64_encode [] = []"
| "base64_encode [a] =
     (let n = of_char a in [base64_char (n div 4), base64_char (n mod 4 * 16), CHR ''='', CHR ''=''])"
| "base64_encode [a, b] =
     (let n = of_char a; m = of_char b
      in [base64_char (n div 4), base64_char (n mod 4 * 16 + m div 16), base64_char (m mod 16 * 4), CHR ''=''])"
| "base64_encode (a # b # c # cs) =
     (let n = of_char a; m = of_char b; k = of_char c
      in base64_char (n div 4) # base64_char (n mod 4 * 16 + m div 16)
           # base64_char (m mod 16 * 4 + k div 64) # base64_char (k mod 64) # base64_encode cs)"

subsection \<open>The types\<close>

definition ots_name :: string where
  "ots_name = ''opentimestamps''"

record ots_Config =
  CalendarServers :: "string list"
  HTTPTimeout :: int64

record calendarReceipt =
  rc_URL :: string
  rc_ReceiptB64 :: string
  rc_SubmittedAt :: go_time

record ots_proofData =
  od_HashHex :: string
  od_CalendarReceipts :: "calendarReceipt slice"

record ots_Provider =
  op_config :: ots_Config
  op_timeout :: int64

definition ots_NewProvider :: "ots_Config \<Rightarrow> ots_Provider result" where
  "ots_NewProvider cfg =
     (if CalendarServers cfg = [] then Inl (Errorf ''opentimestamps: at least one calendar server required'' [])
      else Inr \<lparr>op_config = cfg, op_timeout = (if HTTPTimeout cfg = 0 then 30000000000 else HTTPTimeout cfg)\<rparr>)"

text \<open>\<open>json.Marshal\<close> of the proof data; only a time beyond the year 9999 can fail.\<close>

definition receipt_json :: "calendarReceipt \<Rightarrow> bytes result" where
  "receipt_json r =
     (case marshal_time (rc_SubmittedAt r) of
        Inl e \<Rightarrow> Inl e
      | Inr t \<Rightarrow> Inr (json_object
          [json_member ''url'' (quoted (rc_URL r)), json_member ''receipt_b64'' (quoted (rc_ReceiptB64 r)),
           json_member ''submitted_at'' (quoted t)]))"

fun receipts_json :: "calendarReceipt list \<Rightarrow> bytes list result" where
  "receipts_json [] = Inr []"
| "receipts_json (r # rs) =
     (case receipt_json r of
        Inl e \<Rightarrow> Inl e
      | Inr t \<Rightarrow> (case receipts_json rs of Inl e \<Rightarrow> Inl e | Inr ts \<Rightarrow> Inr (t # ts)))"

definition ots_proof_json :: "ots_proofData \<Rightarrow> bytes result" where
  "ots_proof_json pd =
     (case receipts_json (fst (od_CalendarReceipts pd)) of
        Inl e \<Rightarrow> Inl e
      | Inr ts \<Rightarrow> Inr (json_object
          [json_member ''hash_hex'' (quoted (od_HashHex pd)),
           json_member ''calendar_receipts'' (if ts = [] then ''null'' else json_array ts)]))"

definition zero_receipt :: calendarReceipt where
  "zero_receipt = \<lparr>rc_URL = [], rc_ReceiptB64 = [], rc_SubmittedAt = zero_time\<rparr>"

definition receipt_fields :: "(string \<Rightarrow> go_time option) \<Rightarrow> calendarReceipt struct_fields" where
  "receipt_fields lenient =
     [(''url'', struct_field unmarshal_string rc_URL rc_URL_update),
      (''receipt_b64'', struct_field unmarshal_string rc_ReceiptB64 rc_ReceiptB64_update),
      (''submitted_at'', struct_field (unmarshal_time lenient) rc_SubmittedAt rc_SubmittedAt_update)]"

definition ots_proof_fields :: "(string \<Rightarrow> go_time option) \<Rightarrow> ots_proofData struct_fields" where
  "ots_proof_fields lenient =
     [(''hash_hex'', struct_field unmarshal_string od_HashHex od_HashHex_update),
      (''calendar_receipts'', struct_field (unmarshal_slice (unmarshal_struct (receipt_fields lenient)) zero_receipt)
         od_CalendarReceipts od_CalendarReceipts_update)]"

text \<open>\<open>json.Unmarshal(anchor.ProofData, &pd)\<close>; a NULL proof is an empty text.\<close>

definition ots_unmarshal :: "(string \<Rightarrow> go_time option) \<Rightarrow> bytes option \<Rightarrow> ots_proofData result" where
  "ots_unmarshal lenient data =
     unmarshal_struct (ots_proof_fields lenient) (case data of None \<Rightarrow> [] | Some d \<Rightarrow> d)
       \<lparr>od_HashHex = [], od_CalendarReceipts = ([], [])\<rparr>"

subsection \<open>Anchoring\<close>

text \<open>\<open>strings.TrimRight(calURL, "/")\<close>\<close>

definition trim_slashes :: "string \<Rightarrow> string" where
  "trim_slashes s = rev (dropWhile (\<lambda>c. c = CHR ''/'') (rev s))"

definition submitToCalendar :: "http_client \<Rightarrow> nat \<Rightarrow> string \<Rightarrow> bytes \<Rightarrow> go_time \<Rightarrow> calendarReceipt result" where
  "submitToCalendar http k calURL hashBytes now =
     (let endpoint = trim_slashes calURL @ ''/digest''
      in case http_post http k endpoint hashBytes of
           BadRequest e \<Rightarrow> Inl (Errorf ''build request for %s: %w'' [ArgS endpoint, ArgE e])
         | NoResponse e \<Rightarrow> Inl (Errorf ''POST %s: %w'' [ArgS endpoint, ArgE e])
         | Response status body (Some e) \<Rightarrow> Inl (Errorf ''read response from %s: %w'' [ArgS calURL, ArgE e])
         | Response status body None \<Rightarrow>
             if status < 200 \<or> 300 \<le> status
             then Inl (Errorf ''calendar %s returned HTTP %d: %s'' [ArgS calURL, ArgI status, ArgS (limited body)])
             else Inr \<lparr>rc_URL = calURL, rc_ReceiptB64 = base64_encode (limited body), rc_SubmittedAt = now\<rparr>)"

text \<open>The loop over the calendar servers: the receipts so far and the last error.\<close>

fun submit_all ::
  "http_client \<Rightarrow> bytes \<Rightarrow> go_time \<Rightarrow> nat \<Rightarrow> calendarReceipt list \<Rightarrow> go_error option \<Rightarrow> string list
    \<Rightarrow> calendarReceipt list \<times> go_error option" where
  "submit_all http hashBytes now k recs lastErr [] = (recs, lastErr)"
| "submit_all http hashBytes now k recs lastErr (url # urls) =
     (case submitToCalendar http k url hashBytes now of
        Inl e \<Rightarrow> submit_all http hashBytes now (Suc k) recs (Some e) urls
      | Inr r \<Rightarrow> submit_all http hashBytes now (Suc k) (recs @ [r]) lastErr urls)"

text \<open>A nil error printed with \<^verbatim>\<open>%w\<close>.\<close>

definition error_arg :: "go_error option \<Rightarrow> go_arg" where
  "error_arg e = (case e of None \<Rightarrow> ArgS ''%!w(<nil>)'' | Some e' \<Rightarrow> ArgE e')"

definition ots_Anchor :: "http_client \<Rightarrow> go_time \<Rightarrow> ots_Provider \<Rightarrow> string \<Rightarrow> Anchor result" where
  "ots_Anchor http now p root =
     (case hex_decode root of
        Inl e \<Rightarrow> Inl (Errorf ''opentimestamps: invalid merkle root hex: %w'' [ArgE e])
      | Inr hashBytes \<Rightarrow>
          if length hashBytes \<noteq> 32
          then Inl (Errorf ''opentimestamps: merkle root must be 32 bytes (64 hex chars), got %d bytes''
                      [ArgI (int (length hashBytes))])
          else
     (case submit_all http hashBytes now 0 [] None (CalendarServers (op_config p)) of
        (recs, lastErr) \<Rightarrow>
          if recs = []
          then Inl (Errorf ''opentimestamps: all %d calendar server(s) failed; last error: %w''
                      [ArgI (int (length (CalendarServers (op_config p)))), error_arg lastErr])
          else
     (case ots_proof_json \<lparr>od_HashHex = root, od_CalendarReceipts = (recs, [])\<rparr> of
        Inl e \<Rightarrow> Inl (Errorf ''opentimestamps: marshal proof data: %w'' [ArgE e])
      | Inr proofBytes \<Rightarrow> Inr
          \<lparr>ProviderName = ots_name, AnchoredAt = now, ExternalID = root, ProofData = Some proofBytes,
           Confirmation = ConfirmationPending\<rparr>)))"

subsection \<open>Verifying\<close>

definition timestamp_url :: "string \<Rightarrow> string \<Rightarrow> string" where
  "timestamp_url calURL hashHex = trim_slashes calURL @ ''/timestamp/'' @ hashHex"

text \<open>Upgraded, transient error, hard error.\<close>

definition checkUpgrade :: "http_client \<Rightarrow> nat \<Rightarrow> string \<Rightarrow> string \<Rightarrow> bool \<times> go_error option \<times> go_error option" where
  "checkUpgrade http k calURL hashHex =
     (let endpoint = timestamp_url calURL hashHex
      in case http_get http k endpoint of
           BadRequest e \<Rightarrow> (False, Some (Errorf ''build request for %s: %w'' [ArgS endpoint, ArgE e]), None)
         | NoResponse e \<Rightarrow> (False, Some (Errorf ''GET %s: %w'' [ArgS endpoint, ArgE e]), None)
         | Response status body rd \<Rightarrow>
             if status = 200 then (True, None, None)
             else if status = 404 then (False, None, None)
             else if 500 \<le> status then (False, Some (Errorf ''HTTP %d from %s'' [ArgI status, ArgS calURL]), None)
             else if 400 \<le> status
             then (False, None, Some (Errorf ''HTTP %d from %s: %s'' [ArgI status, ArgS calURL, ArgS (limited body)]))
             else (False, Some (Errorf ''unexpected HTTP %d from %s'' [ArgI status, ArgS calURL]), None))"

fun poll_calendars ::
  "http_client \<Rightarrow> string \<Rightarrow> nat \<Rightarrow> string list \<Rightarrow> bool \<Rightarrow> calendarReceipt list \<Rightarrow> (string list \<times> bool) result" where
  "poll_calendars http hashHex k msgs confirmed [] = Inr (msgs, confirmed)"
| "poll_calendars http hashHex k msgs confirmed (r # rs) =
     (case checkUpgrade http k (rc_URL r) hashHex of
        (upgraded, transientErr, hardErr) \<Rightarrow>
          (case hardErr of
             Some e \<Rightarrow> Inl (Errorf ''opentimestamps: calendar %s rejected proof: %w'' [ArgS (rc_URL r), ArgE e])
           | None \<Rightarrow>
               (case transientErr of
                  Some e \<Rightarrow> poll_calendars http hashHex (Suc k) (msgs @ [rc_URL r @ '': '' @ Error e]) confirmed rs
                | None \<Rightarrow> poll_calendars http hashHex (Suc k) msgs (confirmed \<or> upgraded) rs)))"

definition ots_Verify ::
  "http_client \<Rightarrow> go_time \<Rightarrow> (string \<Rightarrow> go_time option) \<Rightarrow> Anchor \<Rightarrow> Verification result" where
  "ots_Verify http now lenient anchor =
     (case ots_unmarshal lenient (ProofData anchor) of
        Inl e \<Rightarrow> Inl (Errorf ''opentimestamps: malformed proof data: %w'' [ArgE e])
      | Inr pd \<Rightarrow>
     (case poll_calendars http (od_HashHex pd) 0 [] False (fst (od_CalendarReceipts pd)) of
        Inl e \<Rightarrow> Inl e
      | Inr (transientMsgs, confirmed) \<Rightarrow>
          let current = (if confirmed \<and> Confirmation anchor = ConfirmationPending then ConfirmationConfirmed
                         else Confirmation anchor);
              swallowed = (transientMsgs \<noteq> [] \<and> \<not> confirmed)
          in Inr \<lparr>VProvider = ots_name, VConfirmation = current, UpdatedAt = now, Swallowed = swallowed,
               ErrorMessage = (if swallowed
                 then ''transient errors from '' @ format_int (int (length transientMsgs)) @ '' of ''
                   @ format_int (int (length (fst (od_CalendarReceipts pd)))) @ '' calendar(s): ''
                   @ join ''; '' transientMsgs
                 else [])\<rparr>))"

definition ots_Cost :: "int64 \<Rightarrow> Cost" where
  "ots_Cost numAnchors = \<lparr>PerAnchorUSDCents = 0,
     Notes = ''OpenTimestamps is free; anchoring is batched into Bitcoin transactions by volunteer calendar servers''\<rparr>"

text \<open>The provider as the interface value; \<open>net\<close> and \<open>clock\<close> answer the \<open>i\<close>-th call.\<close>

definition ots_provider ::
  "(nat \<Rightarrow> http_client) \<Rightarrow> (nat \<Rightarrow> go_time) \<Rightarrow> (string \<Rightarrow> go_time option) \<Rightarrow> ots_Provider \<Rightarrow> AnchorProvider" where
  "ots_provider net clock lenient p =
     \<lparr>pName = ots_name, pAnchor = (\<lambda>i root. ots_Anchor (net i) (clock i) p root),
      pVerify = (\<lambda>i a. ots_Verify (net i) (clock i) lenient a), pCost = ots_Cost\<rparr>"

subsection \<open>What the answers mean\<close>

fun upgrades :: "http_result \<Rightarrow> bool" where
  "upgrades (Response status body rd) = (status = 200)"
| "upgrades _ = False"

fun rejects :: "http_result \<Rightarrow> bool" where
  "rejects (Response status body rd) = (400 \<le> status \<and> status < 500 \<and> status \<noteq> 404)"
| "rejects _ = False"

fun transient :: "http_result \<Rightarrow> bool" where
  "transient (Response status body rd) = (status \<noteq> 200 \<and> (status < 400 \<or> 500 \<le> status))"
| "transient _ = True"

lemma checkUpgrade_answer:
  assumes "checkUpgrade http k url h = (up, tr, hard)"
  shows "up \<longleftrightarrow> upgrades (http_get http k (timestamp_url url h))"
    and "tr \<noteq> None \<longleftrightarrow> transient (http_get http k (timestamp_url url h))"
    and "hard \<noteq> None \<longleftrightarrow> rejects (http_get http k (timestamp_url url h))"
  using assms
  by (cases "http_get http k (timestamp_url url h)"; auto simp: checkUpgrade_def Let_def split: if_splits)+

text \<open>The answers of the calendars of a proof, in the order they are asked.\<close>

definition answers_from :: "http_client \<Rightarrow> string \<Rightarrow> nat \<Rightarrow> calendarReceipt list \<Rightarrow> http_result list" where
  "answers_from http h k rs = map (\<lambda>(i, r). http_get http i (timestamp_url (rc_URL r) h)) (enumerate k rs)"

definition answers :: "http_client \<Rightarrow> ots_proofData \<Rightarrow> http_result list" where
  "answers http pd = answers_from http (od_HashHex pd) 0 (fst (od_CalendarReceipts pd))"

lemma answers_from_Cons:
  "answers_from http h k (r # rs) = http_get http k (timestamp_url (rc_URL r) h) # answers_from http h (Suc k) rs"
  by (simp add: answers_from_def)

lemma poll_calendars_spec:
  "case poll_calendars http h k msgs confirmed rs of
     Inl e \<Rightarrow> (\<exists>a \<in> set (answers_from http h k rs). rejects a)
   | Inr (msgs', confirmed') \<Rightarrow>
       (\<forall>a \<in> set (answers_from http h k rs). \<not> rejects a)
     \<and> (confirmed' \<longleftrightarrow> confirmed \<or> (\<exists>a \<in> set (answers_from http h k rs). upgrades a))
     \<and> (msgs' = [] \<longleftrightarrow> msgs = [] \<and> (\<forall>a \<in> set (answers_from http h k rs). \<not> transient a))"
proof (induction rs arbitrary: k msgs confirmed)
  case (Cons r rs)
  obtain up tr hard where c: "checkUpgrade http k (rc_URL r) h = (up, tr, hard)" by (metis prod_cases3)
  note ans = checkUpgrade_answer [OF c]
  let ?a = "http_get http k (timestamp_url (rc_URL r) h)"
  show ?case
  proof (cases hard)
    case (Some e)
    then show ?thesis using c ans(3) by (simp add: answers_from_Cons)
  next
    case None
    then have r: "\<not> rejects ?a" using ans(3) by simp
    show ?thesis
    proof (cases tr)
      case None
      with \<open>hard = None\<close> r c ans(1,2) Cons.IH [where k = "Suc k" and msgs = msgs and confirmed = "confirmed \<or> up"] show ?thesis
        by (auto simp: answers_from_Cons split: sum.splits)
    next
      case (Some e)
      then have "transient ?a" "\<not> upgrades ?a" using ans(2) by (cases ?a; auto)+
      with Some \<open>hard = None\<close> r c Cons.IH [where k = "Suc k" and msgs = "msgs @ [rc_URL r @ '': '' @ Error e]" and confirmed = confirmed] show ?thesis
        by (auto simp: answers_from_Cons split: sum.splits)
    qed
  qed
qed (simp add: answers_from_def)

lemma ots_Verify_InrD:
  assumes "ots_Verify http now lenient a = Inr v"
  obtains pd msgs confirmed where "ots_unmarshal lenient (ProofData a) = Inr pd"
    "poll_calendars http (od_HashHex pd) 0 [] False (fst (od_CalendarReceipts pd)) = Inr (msgs, confirmed)"
    "VProvider v = ots_name" "UpdatedAt v = now"
    "VConfirmation v = (if confirmed \<and> Confirmation a = ConfirmationPending then ConfirmationConfirmed else Confirmation a)"
    "Swallowed v \<longleftrightarrow> msgs \<noteq> [] \<and> \<not> confirmed" "ErrorMessage v = [] \<longleftrightarrow> \<not> Swallowed v"
  using assms by (auto simp: ots_Verify_def Let_def split: sum.splits prod.splits)

interpretation ots_verify: swallowing_provider ots_name "ots_Verify http now lenient" for http now lenient
  by unfold_locales (auto elim!: ots_Verify_InrD)

text \<open>C30. The outcome of \<open>Verify\<close> is determined by the answers of the calendars of the proof, one each,
  in order: a 4xx other than 404 from any of them is a hard error; otherwise one 200 confirms a pending
  anchor; otherwise any network failure, 5xx or unexpected status is reported as a swallowed error, and
  the level stays.\<close>

theorem ots_Verify_outcome:
  assumes "ots_unmarshal lenient (ProofData a) = Inr pd"
  shows "case ots_Verify http now lenient a of
      Inl e \<Rightarrow> (\<exists>r \<in> set (answers http pd). rejects r)
    | Inr v \<Rightarrow> (\<forall>r \<in> set (answers http pd). \<not> rejects r)
        \<and> VConfirmation v = (if (\<exists>r \<in> set (answers http pd). upgrades r) \<and> Confirmation a = ConfirmationPending
            then ConfirmationConfirmed else Confirmation a)
        \<and> (Swallowed v \<longleftrightarrow> (\<exists>r \<in> set (answers http pd). transient r) \<and> (\<forall>r \<in> set (answers http pd). \<not> upgrades r))
        \<and> UpdatedAt v = now"
proof -
  note spec = poll_calendars_spec [where http = http and h = "od_HashHex pd" and k = 0 and msgs = "[]" and confirmed = False
      and rs = "fst (od_CalendarReceipts pd)", folded answers_def]
  show ?thesis
  proof (cases "poll_calendars http (od_HashHex pd) 0 [] False (fst (od_CalendarReceipts pd))")
    case (Inl e)
    with assms spec show ?thesis by (simp add: ots_Verify_def)
  next
    case (Inr mc)
    obtain msgs confirmed where mc: "mc = (msgs, confirmed)" by (cases mc)
    have "(confirmed \<longleftrightarrow> (\<exists>r \<in> set (answers http pd). upgrades r)) \<and> (msgs = [] \<longleftrightarrow> (\<forall>r \<in> set (answers http pd). \<not> transient r))
        \<and> (\<forall>r \<in> set (answers http pd). \<not> rejects r)"
      using spec Inr mc by simp
    with assms Inr mc show ?thesis by (auto simp: ots_Verify_def Let_def)
  qed
qed

subsection \<open>The proof data\<close>

definition receipt_entries :: "calendarReceipt \<Rightarrow> string \<Rightarrow> (string \<times> string \<times> json) list" where
  "receipt_entries r t =
     [string_entry ''url'' (rc_URL r), string_entry ''receipt_b64'' (rc_ReceiptB64 r), string_entry ''submitted_at'' t]"

definition receipt_valid :: "calendarReceipt \<Rightarrow> bool" where
  "receipt_valid r \<longleftrightarrow> valid_utf8 (rc_URL r) \<and> valid_utf8 (rc_ReceiptB64 r)"

lemma ots_names_valid:
  "valid_utf8 ''url''" "valid_utf8 ''receipt_b64''" "valid_utf8 ''submitted_at''" "valid_utf8 ''hash_hex''"
  "valid_utf8 ''calendar_receipts''"
  by (rule ascii_valid; simp)+

lemma receipt_json_reads:
  assumes "receipt_json r = Inr x" and "receipt_valid r"
  shows "\<exists>v. d < max_depth \<longrightarrow> reads_as d x v" "starts_value x" "unmarshal_struct (receipt_fields lenient) x zero_receipt = Inr r"
proof -
  obtain t where t: "marshal_time (rc_SubmittedAt r) = Inr t"
    and x: "x = json_object (map entry_string (receipt_entries r t))"
    using assms(1) by (auto simp: receipt_json_def receipt_entries_def json_member_def split: sum.splits)
  have vt: "valid_utf8 t" using escape_plain [OF format_nano_plain [OF t]] by simp
  have e: "\<forall>p \<in> set (receipt_entries r t). entry_reads d p \<and> entry_starts p" for d
    using assms(2) vt string_entry_ok ots_names_valid by (simp add: receipt_entries_def receipt_valid_def)
  then have "d < max_depth \<longrightarrow> reads_as d x (JObj (map_of_members (map entry_value (receipt_entries r t))))"
    unfolding x json_object_def by (intro impI reads_as_object) auto
  then show "\<exists>v. d < max_depth \<longrightarrow> reads_as d x v" by blast
  show "starts_value x" by (simp add: x json_object_def)
  have "unmarshal_struct (receipt_fields lenient) x zero_receipt
      = store_members (receipt_fields lenient) (map (\<lambda>p. (fst p, fst (snd p))) (receipt_entries r t)) zero_receipt"
    unfolding x by (rule unmarshal_object) (use e in \<open>simp_all add: receipt_entries_def\<close>)
  then show "unmarshal_struct (receipt_fields lenient) x zero_receipt = Inr r"
    using assms(2) t
    by (simp add: receipt_entries_def receipt_fields_def find_field_def struct_field_def unmarshal_quoted
        unmarshal_marshal_time receipt_valid_def)
qed

lemma receipts_json_list: "receipts_json rs = Inr ts \<Longrightarrow> list_all2 (\<lambda>r t. receipt_json r = Inr t) rs ts"
  by (induction rs arbitrary: ts) (auto split: sum.splits)

lemma fill_slots_receipts:
  assumes "list_all2 (\<lambda>r t. receipt_json r = Inr t) rs ts" and "\<forall>r \<in> set rs. receipt_valid r"
  shows "fill_slots (unmarshal_struct (receipt_fields lenient)) zero_receipt ts [] = Inr (rs, [])"
  using assms by (induction rs ts) (auto simp: receipt_json_reads(3))

lemma ots_unmarshal_marshal:
  assumes "ots_proof_json pd = Inr x" and "od_CalendarReceipts pd = (rs, [])" and "rs \<noteq> []"
    and "\<forall>r \<in> set rs. receipt_valid r" and "valid_utf8 (od_HashHex pd)"
  shows "ots_unmarshal lenient (Some x) = Inr pd"
proof -
  obtain ts where ts: "receipts_json rs = Inr ts"
    and x: "x = json_object [json_member ''hash_hex'' (quoted (od_HashHex pd)),
      json_member ''calendar_receipts'' (if ts = [] then ''null'' else json_array ts)]"
    using assms(1,2) by (auto simp: ots_proof_json_def split: sum.splits)
  note l = receipts_json_list [OF ts]
  have ne: "ts \<noteq> []" using l assms(3) by auto
  have part: "\<forall>t \<in> set ts. (\<exists>v. reads_as d t v) \<and> starts_value t" if "d < max_depth" for d
  proof
    fix t assume "t \<in> set ts"
    then obtain i where "i < length ts" "t = ts ! i" by (auto simp: in_set_conv_nth)
    then obtain r where "r \<in> set rs" "receipt_json r = Inr t"
      using list_all2_nthD2 [OF l] list_all2_lengthD [OF l] by (metis nth_mem)
    then show "(\<exists>v. reads_as d t v) \<and> starts_value t"
      using receipt_json_reads(1,2) [of r t] assms(4) that by blast
  qed
  have md: "1 < max_depth" "2 < max_depth" by (simp_all add: max_depth_def)
  define val where "val d t = (SOME v. reads_as d t v)" for d t
  define ps where "ps d = map (\<lambda>t. (t, val d t)) ts" for d
  have fst_ps: "map fst (ps d) = ts" for d by (simp add: ps_def comp_def)
  have ps: "\<forall>p \<in> set (ps d). reads_as d (fst p) (snd p) \<and> starts_value (fst p)" if "d < max_depth" for d
    using part [OF that] by (auto simp: ps_def val_def intro: someI_ex)
  have arr: "reads_as 1 (json_array ts) (JArr (map snd (ps 2)))"
    using reads_as_array [of "ps 2" 1] ps [OF md(2)] md(1)
    by (simp add: fst_ps json_array_def numeral_2_eq_2)
  let ?es = "[string_entry ''hash_hex'' (od_HashHex pd),
    (''calendar_receipts'', json_array ts, JArr (map snd (ps 2)))]"
  have "\<forall>p \<in> set ?es. entry_reads 1 p \<and> entry_starts p"
    using arr assms(5) ots_names_valid string_entry_ok by (simp add: entry_reads_def entry_starts_def json_array_def)
  from unmarshal_object [OF _ this]
  have "ots_unmarshal lenient (Some x) = store_members (ots_proof_fields lenient)
      [(''hash_hex'', quoted (od_HashHex pd)), (''calendar_receipts'', json_array ts)] \<lparr>od_HashHex = [], od_CalendarReceipts = ([], [])\<rparr>"
    using ne by (simp add: ots_unmarshal_def x json_member_def)
  moreover have "unmarshal_slice (unmarshal_struct (receipt_fields lenient)) zero_receipt (json_array ts) ([], []) = Inr (rs, [])"
    using unmarshal_array [of "ps 1", unfolded fst_ps] ps [OF md(1)] fill_slots_receipts [OF l assms(4)] by metis
  ultimately show ?thesis
    using assms(2,5) by (simp add: ots_proof_fields_def find_field_def struct_field_def unmarshal_quoted)
qed

text \<open>The receipts of the calendars that accepted the root, in order.\<close>

definition accepted :: "http_client \<Rightarrow> bytes \<Rightarrow> go_time \<Rightarrow> nat \<Rightarrow> string list \<Rightarrow> calendarReceipt list" where
  "accepted http hashBytes now k urls =
     List.map_filter (\<lambda>(i, url). ok_value (submitToCalendar http i url hashBytes now)) (enumerate k urls)"

lemma submit_all_accepted: "fst (submit_all http b now k recs e urls) = recs @ accepted http b now k urls"
  by (induction urls arbitrary: k recs e) (simp_all add: accepted_def map_filter_simps split: sum.split)

lemma base64_char_ascii: "(of_char (base64_char n) :: nat) < 128"
  by (cases "n < 62") (auto simp: base64_char_def)

lemma base64_ascii: "c \<in> set (base64_encode s) \<Longrightarrow> (of_char c :: nat) < 128"
  by (induction s rule: base64_encode.induct) (auto simp: Let_def base64_char_ascii)

lemma submitted_receipt:
  assumes "submitToCalendar http k url b now = Inr r"
  shows "rc_URL r = url" "rc_SubmittedAt r = now" "valid_utf8 (rc_ReceiptB64 r)"
  using assms by (auto simp: submitToCalendar_def Let_def base64_ascii split: http_result.splits option.splits if_splits intro!: ascii_valid)

lemma accepted_receipt:
  assumes "r \<in> set (accepted http b now k urls)"
  shows "rc_URL r \<in> set urls" "rc_SubmittedAt r = now" "valid_utf8 (rc_ReceiptB64 r)"
  using assms submitted_receipt
  by (fastforce simp: accepted_def map_filter_def in_set_enumerate_eq)+

subsection \<open>Anchor and verify\<close>

lemma ots_Anchor_InrD:
  assumes "ots_Anchor http now p root = Inr a"
  obtains b x where "hex_decode root = Inr b" "length b = 32"
    "accepted http b now 0 (CalendarServers (op_config p)) \<noteq> []"
    "ots_proof_json \<lparr>od_HashHex = root, od_CalendarReceipts = (accepted http b now 0 (CalendarServers (op_config p)), [])\<rparr> = Inr x"
    "a = \<lparr>ProviderName = ots_name, AnchoredAt = now, ExternalID = root, ProofData = Some x, Confirmation = ConfirmationPending\<rparr>"
proof -
  obtain b where b: "hex_decode root = Inr b" "length b = 32"
    using assms by (auto simp: ots_Anchor_def split: sum.splits if_splits)
  let ?s = "submit_all http b now 0 [] None (CalendarServers (op_config p))"
  have "fst ?s = accepted http b now 0 (CalendarServers (op_config p))" by (simp add: submit_all_accepted)
  moreover obtain recs e where "?s = (recs, e)" by (cases ?s)
  ultimately show thesis
    using assms b that [OF b] by (auto simp: ots_Anchor_def split: sum.splits if_splits)
qed

text \<open>C33. What \<open>Anchor\<close> stores is what \<open>Verify\<close> reads: an accepted root comes back as a pending anchor
  whose proof data decodes to that root and to one receipt per calendar that accepted it, in the
  configured order, with its URL, the response in base64 and the time of the anchor.\<close>

theorem ots_proof_roundtrip:
  assumes "ots_Anchor http now p root = Inr a" and "\<forall>u \<in> set (CalendarServers (op_config p)). valid_utf8 u"
  shows "ExternalID a = root \<and> Confirmation a = ConfirmationPending \<and> AnchoredAt a = now
    \<and> (\<exists>b. hex_decode root = Inr b \<and> length b = 32 \<and> accepted http b now 0 (CalendarServers (op_config p)) \<noteq> []
      \<and> ots_unmarshal lenient (ProofData a) = Inr
          \<lparr>od_HashHex = root, od_CalendarReceipts = (accepted http b now 0 (CalendarServers (op_config p)), [])\<rparr>)"
proof -
  obtain b x where b: "hex_decode root = Inr b" "length b = 32"
    and ne: "accepted http b now 0 (CalendarServers (op_config p)) \<noteq> []"
    and x: "ots_proof_json \<lparr>od_HashHex = root, od_CalendarReceipts = (accepted http b now 0 (CalendarServers (op_config p)), [])\<rparr> = Inr x"
    and a: "a = \<lparr>ProviderName = ots_name, AnchoredAt = now, ExternalID = root, ProofData = Some x, Confirmation = ConfirmationPending\<rparr>"
    using assms(1) by (rule ots_Anchor_InrD)
  have "\<forall>r \<in> set (accepted http b now 0 (CalendarServers (op_config p))). receipt_valid r"
    using accepted_receipt assms(2) by (fastforce simp: receipt_valid_def)
  moreover have "valid_utf8 root" using hex_decode_ascii [OF b(1)] by (intro ascii_valid) blast
  ultimately show ?thesis using ots_unmarshal_marshal [OF x _ ne] a b ne by simp
qed

text \<open>One calendar that accepts every root and has upgraded every proof.\<close>

definition sample_http :: http_client where
  "sample_http = \<lparr>http_post = (\<lambda>k url body. Response 200 ''ok'' None), http_get = (\<lambda>k url. Response 200 [] None)\<rparr>"

definition sample_ots :: ots_Provider where
  "sample_ots = \<lparr>op_config = \<lparr>CalendarServers = [''http://c/''], HTTPTimeout = 0\<rparr>, op_timeout = 30000000000\<rparr>"

definition sample_root :: string where
  "sample_root = hex_encode (replicate 32 (CHR 0x00))"

lemma marshal_epoch: "marshal_time 0 = Inr ''1970-01-01T00:00:00Z''"
  by code_simp

lemma sample_ots_anchors: "\<exists>a. ots_Anchor sample_http 0 sample_ots sample_root = Inr a"
  by (simp add: ots_Anchor_def sample_root_def sample_ots_def submitToCalendar_def Let_def sample_http_def ots_proof_json_def
      receipt_json_def marshal_epoch)

theorem ots_proof_roundtrip_witness:
  "\<exists>a r. ots_Anchor sample_http 0 sample_ots sample_root = Inr a
     \<and> ots_unmarshal (\<lambda>s. None) (ProofData a) = Inr \<lparr>od_HashHex = sample_root, od_CalendarReceipts = ([r], [])\<rparr>"
proof -
  obtain a where a: "ots_Anchor sample_http 0 sample_ots sample_root = Inr a" using sample_ots_anchors by blast
  have "valid_utf8 ''http://c/''" by (rule ascii_valid) simp
  then have "\<forall>u \<in> set (CalendarServers (op_config sample_ots)). valid_utf8 u" by (simp add: sample_ots_def del: valid_utf8.simps(2))
  from ots_proof_roundtrip [OF a this, of "\<lambda>s. None"] a show ?thesis
    by (auto simp: accepted_def sample_ots_def sample_http_def submitToCalendar_def Let_def map_filter_simps)
qed

theorem ots_Verify_outcome_witness:
  "\<exists>a v. ots_Verify sample_http 1 (\<lambda>s. None) a = Inr v \<and> Confirmation a = ConfirmationPending
     \<and> VConfirmation v = ConfirmationConfirmed \<and> \<not> Swallowed v"
proof -
  let ?pd = "\<lparr>od_HashHex = ''ab'', od_CalendarReceipts = ([\<lparr>rc_URL = ''c'', rc_ReceiptB64 = ''b2s='', rc_SubmittedAt = 0\<rparr>], [])\<rparr>"
  obtain x where x: "ots_proof_json ?pd = Inr x"
    by (simp add: ots_proof_json_def receipt_json_def marshal_epoch)
  let ?a = "\<lparr>ProviderName = ots_name, AnchoredAt = 0, ExternalID = ''ab'', ProofData = Some x, Confirmation = ConfirmationPending\<rparr>"
  have v: "valid_utf8 ''c''" "valid_utf8 ''b2s=''" "valid_utf8 ''ab''" by (rule ascii_valid; simp)+
  have pd: "ots_unmarshal (\<lambda>s. None) (ProofData ?a) = Inr ?pd"
    using ots_unmarshal_marshal [OF x, of _ "\<lambda>s. None"] v by (simp add: receipt_valid_def del: valid_utf8.simps(2))
  have "answers sample_http ?pd = [Response 200 [] None]"
    by (simp add: answers_def answers_from_def sample_http_def)
  with ots_Verify_outcome [OF pd, of sample_http 1] show ?thesis
    by (intro exI [of _ ?a]) (auto simp: confirmation_defs split: sum.splits)
qed

end
