(* ===== verification/Provider_Git.thy ===== *)
theory Provider_Git
  imports Providers Struct_Json
begin

section \<open>The git provider\<close>

text \<open>
  \<^verbatim>\<open>providers/git/git.go\<close>: a Merkle root is written to a file, committed and pushed to a remote; \<open>Verify\<close>
  checks that the remote answers. The go-git library, the file system, the template engine and the
  loading of credentials are parameters, a repository is a value of an arbitrary type. The main result
  is \<open>git_own_anchor\<close>: what an anchor that \<open>Anchor\<close> returned has left on the remote, and what \<open>Verify\<close>
  makes of it.
\<close>

subsection \<open>The outside\<close>

record CommitTemplateData =
  ct_MerkleRoot :: string
  ct_AnchoredAt :: string

datatype git_auth = SSHAgentAuth string | PublicKeys string string string | BasicAuth string string

record git_setup =
  parse_template :: "string \<Rightarrow> go_error option"
  ssh_agent :: "string \<Rightarrow> go_error option"
  ssh_keys :: "string \<Rightarrow> string \<Rightarrow> string \<Rightarrow> go_error option"

record 'r git_env =
  render :: "string \<Rightarrow> CommitTemplateData \<Rightarrow> string result"
  mkdir_temp :: "string result"
  plain_clone :: "string \<Rightarrow> string \<Rightarrow> string \<Rightarrow> git_auth option \<Rightarrow> 'r result"
  plain_init :: "string \<Rightarrow> 'r result"
  create_remote :: "'r \<Rightarrow> string \<Rightarrow> string \<Rightarrow> 'r result"
  set_head :: "'r \<Rightarrow> string \<Rightarrow> 'r result"
  get_worktree :: "'r \<Rightarrow> go_error option"
  write_file :: "'r \<Rightarrow> string \<Rightarrow> string \<Rightarrow> bytes \<Rightarrow> 'r result"
  stage_file :: "'r \<Rightarrow> string \<Rightarrow> 'r result"
  commit_staged :: "'r \<Rightarrow> string \<Rightarrow> string \<Rightarrow> string \<Rightarrow> go_time \<Rightarrow> (string \<times> 'r) result"
  push_refs :: "'r \<Rightarrow> string \<Rightarrow> string \<Rightarrow> git_auth option \<Rightarrow> go_error option"
  list_remote :: "string \<Rightarrow> git_auth option \<Rightarrow> go_error option"
  err_empty_remote :: go_error
  err_up_to_date :: go_error

subsection \<open>The provider\<close>

definition git_name :: string where
  "git_name = ''git''"

record git_Config =
  Remote :: string
  Branch :: string
  CommitTemplate :: string
  AuthorName :: string
  AuthorEmail :: string
  UseSSHAgent :: bool
  SSHKeyPath :: string
  SSHKeyPassword :: string
  HTTPUsername :: string
  HTTPPassword :: string

record git_Provider =
  gp_cfg :: git_Config
  gp_commitTemplate :: string
  gp_auth :: "git_auth option"

text \<open>\<open>buildAuth\<close>: no credentials at all means anonymous access.\<close>

definition buildAuth :: "git_setup \<Rightarrow> git_Config \<Rightarrow> git_auth option result" where
  "buildAuth su cfg =
     (if UseSSHAgent cfg
      then (case ssh_agent su ''git'' of
              Some e \<Rightarrow> Inl (Errorf ''SSH agent: %w'' [ArgE e])
            | None \<Rightarrow> Inr (Some (SSHAgentAuth ''git'')))
      else if SSHKeyPath cfg \<noteq> []
      then (case ssh_keys su ''git'' (SSHKeyPath cfg) (SSHKeyPassword cfg) of
              Some e \<Rightarrow> Inl (Errorf ''SSH key %s: %w'' [ArgS (SSHKeyPath cfg), ArgE e])
            | None \<Rightarrow> Inr (Some (PublicKeys ''git'' (SSHKeyPath cfg) (SSHKeyPassword cfg))))
      else if HTTPUsername cfg \<noteq> [] \<or> HTTPPassword cfg \<noteq> []
      then Inr (Some (BasicAuth (HTTPUsername cfg) (HTTPPassword cfg)))
      else Inr None)"

definition default_to :: "string \<Rightarrow> string \<Rightarrow> string" where
  "default_to d s = (if s = [] then d else s)"

definition with_defaults :: "git_Config \<Rightarrow> git_Config" where
  "with_defaults cfg = cfg
     \<lparr>Branch := default_to ''main'' (Branch cfg),
      CommitTemplate := default_to ''anchor: {{.MerkleRoot}}'' (CommitTemplate cfg),
      AuthorName := default_to ''audit-chain-bot'' (AuthorName cfg),
      AuthorEmail := default_to ''audit-chain-bot@localhost'' (AuthorEmail cfg)\<rparr>"

definition git_NewProvider :: "git_setup \<Rightarrow> git_Config \<Rightarrow> git_Provider result" where
  "git_NewProvider su cfg0 =
     (if Remote cfg0 = [] then Inl (Errorf ''git provider: remote is required'' [])
      else let cfg = with_defaults cfg0
           in case parse_template su (CommitTemplate cfg) of
                Some e \<Rightarrow> Inl (Errorf ''git provider: invalid commit template: %w'' [ArgE e])
              | None \<Rightarrow>
                  (case buildAuth su cfg of
                     Inl e \<Rightarrow> Inl (Errorf ''git provider: build auth: %w'' [ArgE e])
                   | Inr auth \<Rightarrow> Inr \<lparr>gp_cfg = cfg, gp_commitTemplate = CommitTemplate cfg, gp_auth = auth\<rparr>))"

subsection \<open>The proof data and the anchor file\<close>

record git_proofData =
  gd_CommitSHA :: string
  gd_Remote :: string
  gd_Branch :: string
  gd_FilePath :: string

definition git_proof_json :: "git_proofData \<Rightarrow> bytes" where
  "git_proof_json pd = json_object
     [json_member ''commit_sha'' (quoted (gd_CommitSHA pd)), json_member ''remote'' (quoted (gd_Remote pd)),
      json_member ''branch'' (quoted (gd_Branch pd)), json_member ''file_path'' (quoted (gd_FilePath pd))]"

definition git_proof_fields :: "git_proofData struct_fields" where
  "git_proof_fields =
     [(''commit_sha'', struct_field unmarshal_string gd_CommitSHA gd_CommitSHA_update),
      (''remote'', struct_field unmarshal_string gd_Remote gd_Remote_update),
      (''branch'', struct_field unmarshal_string gd_Branch gd_Branch_update),
      (''file_path'', struct_field unmarshal_string gd_FilePath gd_FilePath_update)]"

definition git_unmarshal :: "bytes option \<Rightarrow> git_proofData result" where
  "git_unmarshal data = unmarshal_struct git_proof_fields (case data of None \<Rightarrow> [] | Some d \<Rightarrow> d)
     \<lparr>gd_CommitSHA = [], gd_Remote = [], gd_Branch = [], gd_FilePath = []\<rparr>"

text \<open>\<open>json.MarshalIndent\<close> of \<open>anchorFileContent\<close> with two blanks.\<close>

definition newline :: string where
  "newline = [CHR 0x0A]"

definition anchorFileContent :: "string \<Rightarrow> go_time \<Rightarrow> bytes" where
  "anchorFileContent rootHex now =
     ''{'' @ newline
       @ ''  '' @ quoted ''merkle_root'' @ '': '' @ quoted rootHex @ '','' @ newline
       @ ''  '' @ quoted ''anchored_at'' @ '': '' @ quoted (format_rfc3339 now) @ '','' @ newline
       @ ''  '' @ quoted ''provider'' @ '': '' @ quoted git_name @ newline @ ''}''"

definition writeAnchorFile :: "'r git_env \<Rightarrow> 'r \<Rightarrow> string \<Rightarrow> string \<Rightarrow> string \<Rightarrow> go_time \<Rightarrow> 'r result" where
  "writeAnchorFile env repo dir relPath rootHex now = write_file env repo dir relPath (anchorFileContent rootHex now)"

subsection \<open>Anchoring\<close>

definition initWithRemote :: "'r git_env \<Rightarrow> git_Provider \<Rightarrow> string \<Rightarrow> 'r result" where
  "initWithRemote env p dir =
     (case plain_init env dir of
        Inl e \<Rightarrow> Inl (Errorf ''init: %w'' [ArgE e])
      | Inr repo \<Rightarrow>
     (case create_remote env repo ''origin'' (Remote (gp_cfg p)) of
        Inl e \<Rightarrow> Inl (Errorf ''add remote origin: %w'' [ArgE e])
      | Inr repo1 \<Rightarrow>
     (case set_head env repo1 (''refs/heads/'' @ Branch (gp_cfg p)) of
        Inl e \<Rightarrow> Inl (Errorf ''set HEAD to %s: %w'' [ArgS (Branch (gp_cfg p)), ArgE e])
      | Inr repo2 \<Rightarrow> Inr repo2)))"

text \<open>\<open>strings.Contains\<close>\<close>

fun contains :: "string \<Rightarrow> string \<Rightarrow> bool" where
  "contains p [] = (p = [])"
| "contains p (c # cs) = (take (length p) (c # cs) = p \<or> contains p cs)"

definition cloneOrInit :: "'r git_env \<Rightarrow> git_Provider \<Rightarrow> string \<Rightarrow> 'r result" where
  "cloneOrInit env p dir =
     (case plain_clone env dir (Remote (gp_cfg p)) (''refs/heads/'' @ Branch (gp_cfg p)) (gp_auth p) of
        Inr repo \<Rightarrow> Inr repo
      | Inl e \<Rightarrow>
          if e = err_empty_remote env \<or> contains ''remote repository is empty'' (Error e)
            \<or> contains (''couldn'' @ [CHR 0x27] @ ''t find remote ref'') (Error e)
          then initWithRemote env p dir else Inl e)"

definition anchor_path :: "go_time \<Rightarrow> string \<Rightarrow> string" where
  "anchor_path now root =
     ''anchors/'' @ format_date (civil_of_day (now div nanos_per_second div 86400)) @ ''/'' @ take 16 root @ ''.json''"

text \<open>\<open>root.Hex[:16]\<close> panics on a shorter string; a panic is the value below.\<close>

definition slice_panic :: go_error where
  "slice_panic = Sentinel ''panic: runtime error: slice bounds out of range''"

text \<open>File, index and commit; the result is the commit's hash and the repository.\<close>

definition commit_root :: "'r git_env \<Rightarrow> go_time \<Rightarrow> git_Provider \<Rightarrow> string \<Rightarrow> 'r \<Rightarrow> string \<Rightarrow> string \<Rightarrow> (string \<times> 'r) result" where
  "commit_root env now p dir repo commitMsg root =
     (if length root < 16 then Inl slice_panic
      else
     (case writeAnchorFile env repo dir (anchor_path now root) root now of
        Inl e \<Rightarrow> Inl (Errorf ''git provider: write anchor file: %w'' [ArgE e])
      | Inr repo1 \<Rightarrow>
     (case stage_file env repo1 (anchor_path now root) of
        Inl e \<Rightarrow> Inl (Errorf ''git provider: stage %s: %w'' [ArgS (anchor_path now root), ArgE e])
      | Inr repo2 \<Rightarrow>
     (case commit_staged env repo2 commitMsg (AuthorName (gp_cfg p)) (AuthorEmail (gp_cfg p)) now of
        Inl e \<Rightarrow> Inl (Errorf ''git provider: commit: %w'' [ArgE e])
      | Inr c \<Rightarrow> Inr c))))"

definition ref_spec :: "git_Provider \<Rightarrow> string" where
  "ref_spec p = ''refs/heads/'' @ Branch (gp_cfg p) @ '':refs/heads/'' @ Branch (gp_cfg p)"

definition git_Anchor :: "'r git_env \<Rightarrow> go_time \<Rightarrow> git_Provider \<Rightarrow> string \<Rightarrow> Anchor result" where
  "git_Anchor env now p root =
     (case render env (gp_commitTemplate p) \<lparr>ct_MerkleRoot = root, ct_AnchoredAt = format_rfc3339 now\<rparr> of
        Inl e \<Rightarrow> Inl (Errorf ''git provider: render commit template: %w'' [ArgE e])
      | Inr commitMsg \<Rightarrow>
     (case mkdir_temp env of
        Inl e \<Rightarrow> Inl (Errorf ''git provider: create temp dir: %w'' [ArgE e])
      | Inr dir \<Rightarrow>
     (case cloneOrInit env p dir of
        Inl e \<Rightarrow> Inl (Errorf ''git provider: clone/init from %s: %w'' [ArgS (Remote (gp_cfg p)), ArgE e])
      | Inr repo \<Rightarrow>
     (case get_worktree env repo of
        Some e \<Rightarrow> Inl (Errorf ''git provider: get worktree: %w'' [ArgE e])
      | None \<Rightarrow>
     (case commit_root env now p dir repo commitMsg root of
        Inl e \<Rightarrow> Inl e
      | Inr (commitHash, repo') \<Rightarrow>
          let pushErr = push_refs env repo' ''origin'' (ref_spec p) (gp_auth p);
              proof_data = \<lparr>gd_CommitSHA = commitHash, gd_Remote = Remote (gp_cfg p), gd_Branch = Branch (gp_cfg p),
                gd_FilePath = anchor_path now root\<rparr>
          in if pushErr \<noteq> None \<and> pushErr \<noteq> Some (err_up_to_date env)
             then Inl (Errorf ''git provider: push to %s: %w'' [ArgS (Remote (gp_cfg p)), ArgE (the pushErr)])
             else Inr
               \<lparr>ProviderName = git_name, AnchoredAt = now, ExternalID = commitHash,
                ProofData = Some (git_proof_json proof_data), Confirmation = ConfirmationFinalized\<rparr>)))))"

subsection \<open>Verifying\<close>

definition git_Verify :: "'r git_env \<Rightarrow> go_time \<Rightarrow> git_Provider \<Rightarrow> Anchor \<Rightarrow> Verification result" where
  "git_Verify env now p anchor =
     (case git_unmarshal (ProofData anchor) of
        Inl e \<Rightarrow> Inl (Errorf ''git provider: malformed proof data: %w'' [ArgE e])
      | Inr pd \<Rightarrow>
     (case list_remote env (gd_Remote pd) (gp_auth p) of
        Some e \<Rightarrow> Inr
          \<lparr>VProvider = git_name, VConfirmation = Confirmation anchor, UpdatedAt = now, Swallowed = True,
           ErrorMessage = ''remote '' @ gd_Remote pd @ '' unreachable: '' @ Error e\<rparr>
      | None \<Rightarrow> Inr
          \<lparr>VProvider = git_name, VConfirmation = ConfirmationFinalized, UpdatedAt = now, Swallowed = False,
           ErrorMessage = []\<rparr>))"

definition git_Cost :: "int64 \<Rightarrow> Cost" where
  "git_Cost numAnchors = \<lparr>PerAnchorUSDCents = 0,
     Notes = ''git anchoring is free; trust depends on the git hosting provider''\<rparr>"

definition git_provider :: "(nat \<Rightarrow> 'r git_env) \<Rightarrow> (nat \<Rightarrow> go_time) \<Rightarrow> git_Provider \<Rightarrow> AnchorProvider" where
  "git_provider net clock p =
     \<lparr>pName = git_name, pAnchor = (\<lambda>i root. git_Anchor (net i) (clock i) p root),
      pVerify = (\<lambda>i a. git_Verify (net i) (clock i) p a), pCost = git_Cost\<rparr>"

interpretation git_verify: swallowing_provider git_name "git_Verify env now p" for env now p
  by unfold_locales (auto simp: git_Verify_def split: sum.splits option.splits)

subsection \<open>An anchor of its own\<close>

lemma git_names_valid: "valid_utf8 ''commit_sha''" "valid_utf8 ''remote''" "valid_utf8 ''branch''" "valid_utf8 ''file_path''"
  by (rule ascii_valid; simp)+

lemma git_unmarshal_marshal:
  assumes "valid_utf8 (gd_CommitSHA pd)" "valid_utf8 (gd_Remote pd)" "valid_utf8 (gd_Branch pd)" "valid_utf8 (gd_FilePath pd)"
  shows "git_unmarshal (Some (git_proof_json pd)) = Inr pd"
proof -
  let ?es = "[string_entry ''commit_sha'' (gd_CommitSHA pd), string_entry ''remote'' (gd_Remote pd),
    string_entry ''branch'' (gd_Branch pd), string_entry ''file_path'' (gd_FilePath pd)]"
  have "\<forall>p \<in> set ?es. entry_reads 1 p \<and> entry_starts p" using assms git_names_valid string_entry_ok by simp
  from unmarshal_object [OF _ this, of git_proof_fields] show ?thesis
    using assms by (simp add: git_unmarshal_def git_proof_json_def json_member_def git_proof_fields_def find_field_def
        struct_field_def unmarshal_quoted)
qed

lemma append_int_ascii: "c \<in> set (append_int w n) \<Longrightarrow> (of_char c :: nat) < 128"
  using format_nat_digits [of c "nat \<bar>n\<bar>"]
  by (auto simp: append_int_def pad_left_def is_digit_def split: if_splits)

lemma valid_anchor_path:
  assumes "\<forall>c \<in> set root. (of_char c :: nat) < 128"
  shows "valid_utf8 (anchor_path now root)"
proof (rule ascii_valid)
  obtain y m d where c: "civil_of_day (now div nanos_per_second div 86400) = (y, m, d)" by (metis prod_cases3)
  show "\<forall>c \<in> set (anchor_path now root). (of_char c :: nat) < 128"
    using assms append_int_ascii by (auto simp: anchor_path_def c format_date_def dest: in_set_takeD)
qed

lemma commit_root_InrD:
  assumes "commit_root env now p dir repo msg root = Inr (h, repo')"
  obtains repo1 repo2 where "16 \<le> length root"
    "write_file env repo dir (anchor_path now root) (anchorFileContent root now) = Inr repo1"
    "stage_file env repo1 (anchor_path now root) = Inr repo2"
    "commit_staged env repo2 msg (AuthorName (gp_cfg p)) (AuthorEmail (gp_cfg p)) now = Inr (h, repo')"
  using assms by (auto simp: commit_root_def writeAnchorFile_def split: if_splits sum.splits)

lemma git_Anchor_InrD:
  assumes "git_Anchor env now p root = Inr a"
  obtains msg dir repo repo' where "cloneOrInit env p dir = Inr repo"
    "render env (gp_commitTemplate p) \<lparr>ct_MerkleRoot = root, ct_AnchoredAt = format_rfc3339 now\<rparr> = Inr msg"
    "commit_root env now p dir repo msg root = Inr (ExternalID a, repo')"
    "push_refs env repo' ''origin'' (ref_spec p) (gp_auth p) \<in> {None, Some (err_up_to_date env)}"
    "ProofData a = Some (git_proof_json \<lparr>gd_CommitSHA = ExternalID a, gd_Remote = Remote (gp_cfg p),
       gd_Branch = Branch (gp_cfg p), gd_FilePath = anchor_path now root\<rparr>)"
    "Confirmation a = ConfirmationFinalized" "ProviderName a = git_name" "AnchoredAt a = now"
  using assms by (auto simp: git_Anchor_def Let_def split: sum.splits option.splits if_splits prod.splits)

text \<open>A root shorter than 16 characters never gets anchored: slicing it panics.\<close>

lemma git_Anchor_long_root: "git_Anchor env now p root = Inr a \<Longrightarrow> 16 \<le> length root"
  by (auto elim!: git_Anchor_InrD commit_root_InrD)

text \<open>Every proof that names a reachable remote is confirmed as final, whatever commit it names.\<close>

lemma git_Verify_any_commit:
  assumes "git_unmarshal (ProofData a) = Inr pd" and "list_remote env (gd_Remote pd) (gp_auth p) = None"
  shows "\<exists>v. git_Verify env now p a = Inr v \<and> VConfirmation v = ConfirmationFinalized"
  using assms by (simp add: git_Verify_def)

text \<open>C32. A git anchor is only returned after a file that holds the root was committed with the
  configured author and the rendered message and pushed to the configured branch (or the remote had it
  already). Its proof data decode to that commit, remote, branch and file; polled later it is never
  malformed: a reachable remote confirms it as final, an unreachable one is swallowed and keeps it final.\<close>

theorem git_own_anchor:
  assumes "git_Anchor env now p root = Inr a" and "\<forall>c \<in> set root. (of_char c :: nat) < 128"
    and "valid_utf8 (ExternalID a)" "valid_utf8 (Remote (gp_cfg p))" "valid_utf8 (Branch (gp_cfg p))"
  shows "(\<exists>dir msg repo repo1 repo2 repo3. cloneOrInit env p dir = Inr repo
      \<and> render env (gp_commitTemplate p) \<lparr>ct_MerkleRoot = root, ct_AnchoredAt = format_rfc3339 now\<rparr> = Inr msg
      \<and> write_file env repo dir (anchor_path now root) (anchorFileContent root now) = Inr repo1
      \<and> stage_file env repo1 (anchor_path now root) = Inr repo2
      \<and> commit_staged env repo2 msg (AuthorName (gp_cfg p)) (AuthorEmail (gp_cfg p)) now = Inr (ExternalID a, repo3)
      \<and> push_refs env repo3 ''origin'' (ref_spec p) (gp_auth p) \<in> {None, Some (err_up_to_date env)})
    \<and> Confirmation a = ConfirmationFinalized
    \<and> git_unmarshal (ProofData a) = Inr \<lparr>gd_CommitSHA = ExternalID a, gd_Remote = Remote (gp_cfg p),
         gd_Branch = Branch (gp_cfg p), gd_FilePath = anchor_path now root\<rparr>
    \<and> (\<exists>v. git_Verify env' now' p a = Inr v \<and> VConfirmation v = ConfirmationFinalized
         \<and> (Swallowed v \<longleftrightarrow> list_remote env' (Remote (gp_cfg p)) (gp_auth p) \<noteq> None))"
proof -
  let ?pd = "\<lparr>gd_CommitSHA = ExternalID a, gd_Remote = Remote (gp_cfg p), gd_Branch = Branch (gp_cfg p),
    gd_FilePath = anchor_path now root\<rparr>"
  from assms(1) obtain msg dir repo repo' where c: "cloneOrInit env p dir = Inr repo"
    and m: "render env (gp_commitTemplate p) \<lparr>ct_MerkleRoot = root, ct_AnchoredAt = format_rfc3339 now\<rparr> = Inr msg"
    and r: "commit_root env now p dir repo msg root = Inr (ExternalID a, repo')"
    and push: "push_refs env repo' ''origin'' (ref_spec p) (gp_auth p) \<in> {None, Some (err_up_to_date env)}"
    and d: "ProofData a = Some (git_proof_json ?pd)" and f: "Confirmation a = ConfirmationFinalized"
    by (rule git_Anchor_InrD)
  obtain repo1 repo2 where w: "write_file env repo dir (anchor_path now root) (anchorFileContent root now) = Inr repo1"
    "stage_file env repo1 (anchor_path now root) = Inr repo2"
    "commit_staged env repo2 msg (AuthorName (gp_cfg p)) (AuthorEmail (gp_cfg p)) now = Inr (ExternalID a, repo')"
    using r by (rule commit_root_InrD)
  have u: "git_unmarshal (ProofData a) = Inr ?pd"
    using git_unmarshal_marshal [of ?pd] assms(3-5) valid_anchor_path [OF assms(2)] d by simp
  then have "\<exists>v. git_Verify env' now' p a = Inr v \<and> VConfirmation v = ConfirmationFinalized
      \<and> (Swallowed v \<longleftrightarrow> list_remote env' (Remote (gp_cfg p)) (gp_auth p) \<noteq> None)"
    using f by (auto simp: git_Verify_def split: option.split)
  with c m w push f u show ?thesis by blast
qed

definition sample_git :: "unit git_env" where
  "sample_git = \<lparr>render = (\<lambda>t d. Inr ''anchor''), mkdir_temp = Inr ''/tmp/x'', plain_clone = (\<lambda>d u b au. Inr ()),
     plain_init = (\<lambda>d. Inr ()), create_remote = (\<lambda>r n u. Inr ()), set_head = (\<lambda>r h. Inr ()), get_worktree = (\<lambda>r. None),
     write_file = (\<lambda>r d f c. Inr ()), stage_file = (\<lambda>r f. Inr ()), commit_staged = (\<lambda>r m n e t. Inr (''abc'', ())),
     push_refs = (\<lambda>r n s au. None), list_remote = (\<lambda>u au. Some (Sentinel ''timeout'')),
     err_empty_remote = Sentinel ''remote repository is empty'', err_up_to_date = Sentinel ''already up-to-date''\<rparr>"

definition sample_git_provider :: git_Provider where
  "sample_git_provider = \<lparr>gp_cfg = with_defaults
       \<lparr>Remote = ''r'', Branch = [], CommitTemplate = [], AuthorName = [], AuthorEmail = [], UseSSHAgent = False,
        SSHKeyPath = [], SSHKeyPassword = [], HTTPUsername = [], HTTPPassword = []\<rparr>,
     gp_commitTemplate = ''anchor: {{.MerkleRoot}}'', gp_auth = None\<rparr>"

theorem git_own_anchor_witness:
  "\<exists>a v. git_Anchor sample_git 0 sample_git_provider (replicate 64 (CHR ''0'')) = Inr a
     \<and> git_Verify sample_git 1 sample_git_provider a = Inr v \<and> Swallowed v \<and> VConfirmation v = ConfirmationFinalized"
proof -
  let ?root = "replicate 64 (CHR ''0'')"
  obtain a where a: "git_Anchor sample_git 0 sample_git_provider ?root = Inr a" "ExternalID a = ''abc''"
    by (simp add: git_Anchor_def sample_git_def cloneOrInit_def commit_root_def writeAnchorFile_def Let_def)
  have "valid_utf8 ''abc''" "valid_utf8 ''r''" "valid_utf8 ''main''" by (rule ascii_valid; simp)+
  then have v: "valid_utf8 (ExternalID a)" "valid_utf8 (Remote (gp_cfg sample_git_provider))"
    "valid_utf8 (Branch (gp_cfg sample_git_provider))"
    using a(2) by (simp_all add: sample_git_provider_def with_defaults_def default_to_def del: valid_utf8.simps(2))
  have "\<forall>c \<in> set ?root. (of_char c :: nat) < 128" by simp
  from git_own_anchor [OF a(1) this v, of sample_git 1] a show ?thesis by (auto simp: sample_git_def)
qed

end
