(* ===== verification/Provider_Sigstore.thy ===== *)
theory Provider_Sigstore
  imports Providers Struct_Json
begin

section \<open>The Sigstore provider\<close>

text \<open>
  \<^verbatim>\<open>providers/sigstore/sigstore.go\<close>: a Merkle root is signed with a key made for the purpose and entered
  into a Rekor transparency log; \<open>Verify\<close> looks the entry up. The cryptography, the URL parser and the
  Rekor client are parameters. The main result is \<open>sig_own_anchor\<close>: what \<open>Verify\<close> makes of an anchor that
  \<open>Anchor\<close> returned, for every answer of the log.
\<close>

subsection \<open>The outside\<close>

text \<open>The entry that is submitted: \<^verbatim>\<open>models.Hashedrekord\<close> with its specification, flattened.\<close>

record hashedrekord =
  hr_APIVersion :: string
  hr_Algorithm :: string
  hr_Value :: string
  hr_Signature :: bytes
  hr_PublicKey :: bytes

text \<open>What a lookup can fail with: \<^verbatim>\<open>GetLogEntryByUUIDNotFound\<close>, \<^verbatim>\<open>GetLogEntryByUUIDDefault\<close> with its code, or
  any other error.\<close>

datatype rekor_error = NotFound go_error | DefaultError int go_error | OtherError go_error

fun rekor_cause :: "rekor_error \<Rightarrow> go_error" where
  "rekor_cause (NotFound e) = e"
| "rekor_cause (DefaultError code e) = e"
| "rekor_cause (OtherError e) = e"

text \<open>A created entry is a map with the new identifiers as keys, in the order a loop sees them.\<close>

record 'k rekor =
  generate_key :: "'k result"
  sign_digest :: "'k \<Rightarrow> bytes \<Rightarrow> bytes result"
  public_der :: "'k \<Rightarrow> bytes result"
  pem_encode :: "string \<Rightarrow> bytes \<Rightarrow> bytes"
  create_entry :: "hashedrekord \<Rightarrow> string list result"
  get_entry :: "string \<Rightarrow> rekor_error option"

subsection \<open>The types\<close>

definition sig_name :: string where
  "sig_name = ''sigstore''"

record sig_Provider =
  sp_RekorURL :: string
  sp_host :: string
  sp_scheme :: string

text \<open>\<open>url_parse\<close> gives scheme and host.\<close>

definition sig_NewProvider :: "(string \<Rightarrow> (string \<times> string) result) \<Rightarrow> string \<Rightarrow> sig_Provider result" where
  "sig_NewProvider url_parse RekorURL =
     (let url = (if RekorURL = [] then ''https://rekor.sigstore.dev'' else RekorURL)
      in case url_parse url of
           Inl e \<Rightarrow> Inl (Errorf ''sigstore: invalid Rekor URL %q: %w'' [ArgS url, ArgE e])
         | Inr (scheme, host) \<Rightarrow>
             if host = [] then Inl (Errorf ''sigstore: invalid Rekor URL %q: missing host'' [ArgS url])
             else Inr \<lparr>sp_RekorURL = url, sp_host = host, sp_scheme = (if scheme = [] then ''https'' else scheme)\<rparr>)"

record sig_proofData =
  sd_EntryUUID :: string
  sd_RekorURL :: string

definition sig_proof_json :: "sig_proofData \<Rightarrow> bytes" where
  "sig_proof_json pd = json_object
     [json_member ''entry_uuid'' (quoted (sd_EntryUUID pd)), json_member ''rekor_url'' (quoted (sd_RekorURL pd))]"

definition sig_proof_fields :: "sig_proofData struct_fields" where
  "sig_proof_fields =
     [(''entry_uuid'', struct_field unmarshal_string sd_EntryUUID sd_EntryUUID_update),
      (''rekor_url'', struct_field unmarshal_string sd_RekorURL sd_RekorURL_update)]"

definition sig_unmarshal :: "bytes option \<Rightarrow> sig_proofData result" where
  "sig_unmarshal data = unmarshal_struct sig_proof_fields (case data of None \<Rightarrow> [] | Some d \<Rightarrow> d)
     \<lparr>sd_EntryUUID = [], sd_RekorURL = []\<rparr>"

subsection \<open>Anchoring\<close>

text \<open>The entry for a root: the signature is over the root's bytes themselves.\<close>

definition rekor_entry :: "'k rekor \<Rightarrow> string \<Rightarrow> bytes \<Rightarrow> hashedrekord result" where
  "rekor_entry rk root hashBytes =
     (case generate_key rk of
        Inl e \<Rightarrow> Inl (Errorf ''sigstore: generate key: %w'' [ArgE e])
      | Inr privKey \<Rightarrow>
     (case sign_digest rk privKey hashBytes of
        Inl e \<Rightarrow> Inl (Errorf ''sigstore: sign merkle root: %w'' [ArgE e])
      | Inr signature \<Rightarrow>
     (case public_der rk privKey of
        Inl e \<Rightarrow> Inl (Errorf ''sigstore: marshal public key: %w'' [ArgE e])
      | Inr pubDER \<Rightarrow> Inr
          \<lparr>hr_APIVersion = ''0.0.1'', hr_Algorithm = ''sha256'', hr_Value = root, hr_Signature = signature,
           hr_PublicKey = pem_encode rk ''PUBLIC KEY'' pubDER\<rparr>)))"

definition sig_Anchor :: "'k rekor \<Rightarrow> go_time \<Rightarrow> sig_Provider \<Rightarrow> string \<Rightarrow> Anchor result" where
  "sig_Anchor rk now p root =
     (case hex_decode root of
        Inl e \<Rightarrow> Inl (Errorf ''sigstore: invalid merkle root hex: %w'' [ArgE e])
      | Inr hashBytes \<Rightarrow>
          if length hashBytes \<noteq> 32
          then Inl (Errorf ''sigstore: merkle root must be 32 bytes (64 hex chars), got %d bytes''
                      [ArgI (int (length hashBytes))])
          else
     (case rekor_entry rk root hashBytes of
        Inl e \<Rightarrow> Inl e
      | Inr entry \<Rightarrow>
     (case create_entry rk entry of
        Inl e \<Rightarrow> Inl (Errorf ''sigstore: create Rekor log entry: %w'' [ArgE e])
      | Inr payload \<Rightarrow>
          let entryUUID = (case payload of [] \<Rightarrow> [] | k # _ \<Rightarrow> k)
          in if entryUUID = [] then Inl (Errorf ''sigstore: empty response from Rekor (no entry UUID)'' [])
             else Inr
               \<lparr>ProviderName = sig_name, AnchoredAt = now, ExternalID = entryUUID,
                ProofData = Some (sig_proof_json \<lparr>sd_EntryUUID = entryUUID, sd_RekorURL = sp_RekorURL p\<rparr>),
                Confirmation = ConfirmationFinalized\<rparr>)))"

subsection \<open>Verifying\<close>

text \<open>The switch on the error of the lookup; \<open>IsClientError\<close> and \<open>IsServerError\<close> look at the code's
  hundreds.\<close>

definition sig_failure :: "go_time \<Rightarrow> Anchor \<Rightarrow> sig_proofData \<Rightarrow> rekor_error \<Rightarrow> Verification result" where
  "sig_failure now anchor pd err =
     (let keep = (\<lambda>msg. Inr \<lparr>VProvider = sig_name, VConfirmation = Confirmation anchor, UpdatedAt = now,
                             Swallowed = True, ErrorMessage = msg\<rparr>);
          unknown = keep (''transient error contacting Rekor at '' @ sd_RekorURL pd @ '': '' @ Error (rekor_cause err))
      in case err of
           NotFound e \<Rightarrow>
             Inl (Errorf ''sigstore: Rekor entry %s not found (transparency log may have been tampered with): %w''
                    [ArgS (sd_EntryUUID pd), ArgE e])
         | DefaultError code e \<Rightarrow>
             if code div 100 = 4
             then Inl (Errorf ''sigstore: Rekor rejected request for entry %s (HTTP %d): %w''
                         [ArgS (sd_EntryUUID pd), ArgI code, ArgE e])
             else if code div 100 = 5
             then keep (''Rekor server error (HTTP '' @ format_int code @ ''): '' @ Error e)
             else unknown
         | OtherError e \<Rightarrow> unknown)"

definition sig_Verify :: "'k rekor \<Rightarrow> go_time \<Rightarrow> Anchor \<Rightarrow> Verification result" where
  "sig_Verify rk now anchor =
     (case sig_unmarshal (ProofData anchor) of
        Inl e \<Rightarrow> Inl (Errorf ''sigstore: malformed proof data: %w'' [ArgE e])
      | Inr pd \<Rightarrow>
     (case get_entry rk (sd_EntryUUID pd) of
        None \<Rightarrow> Inr \<lparr>VProvider = sig_name, VConfirmation = ConfirmationFinalized, UpdatedAt = now,
                      Swallowed = False, ErrorMessage = []\<rparr>
      | Some err \<Rightarrow> sig_failure now anchor pd err))"

definition sig_Cost :: "int64 \<Rightarrow> Cost" where
  "sig_Cost numAnchors = \<lparr>PerAnchorUSDCents = 0,
     Notes = ''Sigstore Rekor is free; operated by the Linux Foundation''\<rparr>"

definition sig_provider :: "(nat \<Rightarrow> 'k rekor) \<Rightarrow> (nat \<Rightarrow> go_time) \<Rightarrow> sig_Provider \<Rightarrow> AnchorProvider" where
  "sig_provider net clock p =
     \<lparr>pName = sig_name, pAnchor = (\<lambda>i root. sig_Anchor (net i) (clock i) p root),
      pVerify = (\<lambda>i a. sig_Verify (net i) (clock i) a), pCost = sig_Cost\<rparr>"

subsection \<open>Lemmas\<close>

lemma sig_failure_InrD:
  assumes "sig_failure now a pd err = Inr v"
  shows "Swallowed v \<and> VConfirmation v = Confirmation a \<and> VProvider v = sig_name \<and> ErrorMessage v \<noteq> []"
  using assms by (auto simp: sig_failure_def Let_def split: rekor_error.splits if_splits)

interpretation sig_verify: swallowing_provider sig_name "sig_Verify rk now" for rk now
  by unfold_locales (auto simp: sig_Verify_def dest: sig_failure_InrD split: sum.splits option.splits)

lemma sig_names_valid: "valid_utf8 ''entry_uuid''" "valid_utf8 ''rekor_url''"
  by (rule ascii_valid; simp)+

lemma sig_unmarshal_marshal:
  assumes "valid_utf8 (sd_EntryUUID pd)" and "valid_utf8 (sd_RekorURL pd)"
  shows "sig_unmarshal (Some (sig_proof_json pd)) = Inr pd"
proof -
  let ?es = "[string_entry ''entry_uuid'' (sd_EntryUUID pd), string_entry ''rekor_url'' (sd_RekorURL pd)]"
  have "\<forall>p \<in> set ?es. entry_reads 1 p \<and> entry_starts p" using assms sig_names_valid string_entry_ok by simp
  from unmarshal_object [OF _ this, of sig_proof_fields] show ?thesis
    using assms by (simp add: sig_unmarshal_def sig_proof_json_def json_member_def sig_proof_fields_def find_field_def
        struct_field_def unmarshal_quoted)
qed

lemma sig_Anchor_InrD:
  assumes "sig_Anchor rk now p root = Inr a"
  obtains b entry uuids where "hex_decode root = Inr b" "length b = 32" "rekor_entry rk root b = Inr entry"
    "create_entry rk entry = Inr (ExternalID a # uuids)" "ExternalID a \<noteq> []"
    "ProofData a = Some (sig_proof_json \<lparr>sd_EntryUUID = ExternalID a, sd_RekorURL = sp_RekorURL p\<rparr>)"
    "Confirmation a = ConfirmationFinalized" "AnchoredAt a = now" "ProviderName a = sig_name"
  using assms by (auto simp: sig_Anchor_def Let_def split: sum.splits if_splits list.splits)

text \<open>C31. An anchor that \<open>Anchor\<close> returned is an entry of the log with the root as its artifact hash and is
  final at once; polled later, it is never malformed: a log that has the entry confirms it as final, a
  log that denies it (404 or another 4xx) is a hard error, and every other answer is swallowed.\<close>

theorem sig_own_anchor:
  assumes "sig_Anchor rk now p root = Inr a" and "valid_utf8 (ExternalID a)" and "valid_utf8 (sp_RekorURL p)"
  shows "(\<exists>entry uuids. create_entry rk entry = Inr (ExternalID a # uuids) \<and> hr_Value entry = root)
    \<and> Confirmation a = ConfirmationFinalized
    \<and> (case get_entry rk' (ExternalID a) of
         None \<Rightarrow> \<exists>v. sig_Verify rk' now' a = Inr v \<and> VConfirmation v = ConfirmationFinalized \<and> \<not> Swallowed v
       | Some (NotFound e) \<Rightarrow> \<exists>f. sig_Verify rk' now' a = Inl f \<and> errors_is e f
       | Some (DefaultError code e) \<Rightarrow>
           if code div 100 = 4 then \<exists>f. sig_Verify rk' now' a = Inl f \<and> errors_is e f
           else \<exists>v. sig_Verify rk' now' a = Inr v \<and> VConfirmation v = ConfirmationFinalized \<and> Swallowed v
       | Some (OtherError e) \<Rightarrow> \<exists>v. sig_Verify rk' now' a = Inr v \<and> VConfirmation v = ConfirmationFinalized \<and> Swallowed v)"
proof -
  obtain b entry uuids where b: "rekor_entry rk root b = Inr entry" and c: "create_entry rk entry = Inr (ExternalID a # uuids)"
    and d: "ProofData a = Some (sig_proof_json \<lparr>sd_EntryUUID = ExternalID a, sd_RekorURL = sp_RekorURL p\<rparr>)"
    and f: "Confirmation a = ConfirmationFinalized"
    using assms(1) by (rule sig_Anchor_InrD)
  have "hr_Value entry = root" using b by (auto simp: rekor_entry_def split: sum.splits)
  moreover have "sig_unmarshal (ProofData a) = Inr \<lparr>sd_EntryUUID = ExternalID a, sd_RekorURL = sp_RekorURL p\<rparr>"
    using sig_unmarshal_marshal [of "\<lparr>sd_EntryUUID = ExternalID a, sd_RekorURL = sp_RekorURL p\<rparr>"] assms(2,3) d by simp
  ultimately show ?thesis
    using c f by (auto simp: sig_Verify_def sig_failure_def Let_def errors_is.simps split: option.split rekor_error.split)
qed

definition sample_rekor :: "unit rekor" where
  "sample_rekor = \<lparr>generate_key = Inr (), sign_digest = (\<lambda>k d. Inr ''sig''), public_der = (\<lambda>k. Inr ''der''),
     pem_encode = (\<lambda>t d. d), create_entry = (\<lambda>e. Inr [''uuid'']), get_entry = (\<lambda>u. None)\<rparr>"

theorem sig_own_anchor_witness:
  "\<exists>a v. sig_Anchor sample_rekor 0 \<lparr>sp_RekorURL = ''https://r'', sp_host = ''r'', sp_scheme = ''https''\<rparr>
       (hex_encode (replicate 32 (CHR 0x00))) = Inr a
     \<and> sig_Verify sample_rekor 1 a = Inr v \<and> VConfirmation v = ConfirmationFinalized"
proof -
  let ?p = "\<lparr>sp_RekorURL = ''https://r'', sp_host = ''r'', sp_scheme = ''https''\<rparr>"
    and ?root = "hex_encode (replicate 32 (CHR 0x00))"
  obtain a where a: "sig_Anchor sample_rekor 0 ?p ?root = Inr a" "ExternalID a = ''uuid''"
    by (simp add: sig_Anchor_def sample_rekor_def rekor_entry_def Let_def)
  have v: "valid_utf8 ''uuid''" "valid_utf8 ''https://r''" by (rule ascii_valid; simp)+
  then have "valid_utf8 (ExternalID a)" "valid_utf8 (sp_RekorURL ?p)" using a(2) by (simp_all del: valid_utf8.simps(2))
  from sig_own_anchor [OF a(1) this, of sample_rekor 1] a show ?thesis by (auto simp: sample_rekor_def)
qed

end
