(* ===== verification/Provider_Modules.thy ===== *)
theory Provider_Modules
  imports Registry Provider_Ots Provider_Git Provider_Sigstore
begin

section \<open>The module factories of the providers\<close>

text \<open>
  The factories of \<^verbatim>\<open>modules/anchor_provider.go\<close>: a typed configuration becomes a module around a
  provider. The record \<open>outside\<close> gathers what the three providers see of the world. The locale
  \<open>shipped_provider\<close> is what the steps may rely on in any of them; it extends \<open>swallowing_provider\<close> and
  is interpreted for each backend.
\<close>

record ('r, 'k) outside =
  out_http :: "nat \<Rightarrow> http_client"
  out_clock :: "nat \<Rightarrow> go_time"
  out_parse_time :: "string \<Rightarrow> go_time option"
  out_git_setup :: git_setup
  out_git :: "nat \<Rightarrow> 'r git_env"
  out_url_parse :: "string \<Rightarrow> (string \<times> string) result"
  out_rekor :: "nat \<Rightarrow> 'k rekor"

text \<open>\<open>time.Duration(ms) * time.Millisecond\<close> wraps around like every \<open>int64\<close> product.\<close>

definition milliseconds :: "int64 \<Rightarrow> int64" where
  "milliseconds ms = ms * 1000000"

definition NewOpenTimestampsProviderModule ::
  "('r, 'k) outside \<Rightarrow> string \<Rightarrow> OpenTimestampsProviderConfig \<Rightarrow> anchorProviderModule result" where
  "NewOpenTimestampsProviderModule out instanceName cfg =
     (if oc_CalendarServers cfg = []
      then Inl (Errorf ''audit.anchor_provider.opentimestamps %q: at least one calendar server required'' [ArgS instanceName])
      else
     (case ots_NewProvider \<lparr>CalendarServers = oc_CalendarServers cfg, HTTPTimeout = milliseconds (oc_HttpTimeoutMs cfg)\<rparr> of
        Inl e \<Rightarrow> Inl (Errorf ''audit.anchor_provider.opentimestamps %q: %w'' [ArgS instanceName, ArgE e])
      | Inr p \<Rightarrow> Inr \<lparr>pm_instanceName = instanceName,
          pm_provider = ots_provider (out_http out) (out_clock out) (out_parse_time out) p\<rparr>))"

definition NewGitAnchorProviderModule ::
  "('r, 'k) outside \<Rightarrow> string \<Rightarrow> GitAnchorProviderConfig \<Rightarrow> anchorProviderModule result" where
  "NewGitAnchorProviderModule out instanceName cfg =
     (if gc_Remote cfg = []
      then Inl (Errorf ''audit.anchor_provider.git %q: config.remote is required'' [ArgS instanceName])
      else
     (case git_NewProvider (out_git_setup out)
             \<lparr>Remote = gc_Remote cfg, Branch = gc_Branch cfg, CommitTemplate = gc_CommitTemplate cfg,
              AuthorName = gc_AuthorName cfg, AuthorEmail = gc_AuthorEmail cfg, UseSSHAgent = gc_UseSshAgent cfg,
              SSHKeyPath = gc_SshKeyPath cfg, SSHKeyPassword = gc_SshKeyPassword cfg,
              HTTPUsername = gc_HttpUsername cfg, HTTPPassword = gc_HttpPassword cfg\<rparr> of
        Inl e \<Rightarrow> Inl (Errorf ''audit.anchor_provider.git %q: %w'' [ArgS instanceName, ArgE e])
      | Inr p \<Rightarrow> Inr \<lparr>pm_instanceName = instanceName, pm_provider = git_provider (out_git out) (out_clock out) p\<rparr>))"

definition NewSigstoreProviderModule ::
  "('r, 'k) outside \<Rightarrow> string \<Rightarrow> SigstoreProviderConfig \<Rightarrow> anchorProviderModule result" where
  "NewSigstoreProviderModule out instanceName cfg =
     (case sig_NewProvider (out_url_parse out) (sc_RekorUrl cfg) of
        Inl e \<Rightarrow> Inl (Errorf ''audit.anchor_provider.sigstore %q: %w'' [ArgS instanceName, ArgE e])
      | Inr p \<Rightarrow> Inr \<lparr>pm_instanceName = instanceName, pm_provider = sig_provider (out_rekor out) (out_clock out) p\<rparr>)"

subsection \<open>What the steps rely on\<close>

text \<open>The order of the levels in the forward-only rule of the poll step.\<close>

fun level_rank :: "ConfirmationLevel \<Rightarrow> nat" where
  "level_rank c = (if c = ConfirmationConfirmed then 1 else if c = ConfirmationFinalized then 2 else 0)"

declare level_rank.simps [simp del]

definition known :: "ConfirmationLevel \<Rightarrow> bool" where
  "known c \<longleftrightarrow> c = ConfirmationPending \<or> c = ConfirmationConfirmed \<or> c = ConfirmationFinalized"

locale shipped_provider = swallowing_provider name verify
  for name :: string and verify :: "Anchor \<Rightarrow> Verification result" +
  fixes anchor :: "string \<Rightarrow> Anchor result"
  assumes own_name: "anchor root = Inr a \<Longrightarrow> ProviderName a = name"
    and first_level: "anchor root = Inr a \<Longrightarrow> Confirmation a = ConfirmationPending \<or> Confirmation a = ConfirmationFinalized"
    and never_lower: "verify a = Inr v \<Longrightarrow> level_rank (Confirmation a) \<le> level_rank (VConfirmation v)"
    and known_level: "verify a = Inr v \<Longrightarrow> VConfirmation v = Confirmation a \<or> VConfirmation v = ConfirmationConfirmed
      \<or> VConfirmation v = ConfirmationFinalized"
begin

text \<open>A report that does not move the level forward repeats it, if the level is one of the three.\<close>

lemma moves_forward:
  assumes "verify a = Inr v" and "\<not> level_rank (Confirmation a) < level_rank (VConfirmation v)"
    and "known (Confirmation a)"
  shows "VConfirmation v = Confirmation a"
  using known_level [OF assms(1)] never_lower [OF assms(1)] assms(2,3)
  by (auto simp: known_def level_rank.simps confirmation_defs split: if_splits)

end

lemma rank_finalized: "level_rank c \<le> level_rank ConfirmationFinalized"
  by (simp add: level_rank.simps confirmation_defs)

lemma rank_pending: "level_rank ConfirmationPending \<le> level_rank c"
  by (simp add: level_rank.simps confirmation_defs)

lemma ots_Verify_level:
  assumes "ots_Verify http now lenient a = Inr v"
  shows "level_rank (Confirmation a) \<le> level_rank (VConfirmation v)"
    and "VConfirmation v = Confirmation a \<or> VConfirmation v = ConfirmationConfirmed \<or> VConfirmation v = ConfirmationFinalized"
  by (rule ots_Verify_InrD [OF assms]; simp add: rank_pending)+

interpretation ots_shipped: shipped_provider ots_name "ots_Verify http now lenient" "ots_Anchor http' now' p"
  for http now lenient http' now' p
  by unfold_locales (auto elim!: ots_Anchor_InrD dest: ots_Verify_level)

interpretation git_shipped: shipped_provider git_name "git_Verify env now p" "git_Anchor env' now' p'"
  for env now p env' now' p'
  by unfold_locales
    (auto elim!: git_Anchor_InrD simp: git_Verify_def rank_finalized split: sum.splits option.splits)

lemma sig_Verify_level:
  "sig_Verify rk now a = Inr v \<Longrightarrow> VConfirmation v = ConfirmationFinalized \<or> VConfirmation v = Confirmation a"
  by (auto simp: sig_Verify_def dest: sig_failure_InrD split: sum.splits option.splits)

interpretation sig_shipped: shipped_provider sig_name "sig_Verify rk now" "sig_Anchor rk' now' p"
  for rk now rk' now' p
proof unfold_locales
  fix a v assume "sig_Verify rk now a = Inr v"
  from sig_Verify_level [OF this] show "level_rank (Confirmation a) \<le> level_rank (VConfirmation v)"
    by (auto simp: rank_finalized)
qed (auto elim!: sig_Anchor_InrD dest: sig_Verify_level)

text \<open>A provider value keeps the contract when each of its calls does.\<close>

definition contract_ok :: "AnchorProvider \<Rightarrow> bool" where
  "contract_ok p \<longleftrightarrow> (\<forall>i j. shipped_provider (pName p) (pVerify p i) (pAnchor p j))"

lemma shipped_contract:
  "contract_ok (ots_provider net clock lenient p)" "contract_ok (git_provider net' clock p')"
  "contract_ok (sig_provider net'' clock p'')"
  unfolding contract_ok_def ots_provider_def git_provider_def sig_provider_def
  by (simp_all add: ots_shipped.shipped_provider_axioms git_shipped.shipped_provider_axioms
      sig_shipped.shipped_provider_axioms)

lemma contract_call: "contract_ok p \<Longrightarrow> shipped_provider (pName p) (pVerify p i) (pAnchor p j)"
  by (simp add: contract_ok_def)

lemma contract_first: "contract_ok p \<Longrightarrow> pAnchor p i root = Inr a \<Longrightarrow> known (Confirmation a)"
  using shipped_provider.first_level [OF contract_call, of p i root a] by (auto simp: known_def)

lemma contract_name: "contract_ok p \<Longrightarrow> pAnchor p i root = Inr a \<Longrightarrow> ProviderName a = pName p"
  using shipped_provider.own_name [OF contract_call, of p i root a] by simp

lemma contract_level: "contract_ok p \<Longrightarrow> pVerify p i a = Inr v \<Longrightarrow> known (Confirmation a) \<Longrightarrow> known (VConfirmation v)"
  using shipped_provider.known_level [OF contract_call, of p i a v] by (auto simp: known_def)

lemma contract_repeats:
  "contract_ok p \<Longrightarrow> pVerify p i a = Inr v \<Longrightarrow> known (Confirmation a) \<Longrightarrow>
     \<not> level_rank (Confirmation a) < level_rank (VConfirmation v) \<Longrightarrow> VConfirmation v = Confirmation a"
  using shipped_provider.moves_forward [OF contract_call, of p i a v] by simp

text \<open>A module from one of the factories.\<close>

definition from_factory :: "('r, 'k) outside \<Rightarrow> anchorProviderModule \<Rightarrow> bool" where
  "from_factory out m \<longleftrightarrow>
     (\<exists>cfg. NewOpenTimestampsProviderModule out (pm_instanceName m) cfg = Inr m)
   \<or> (\<exists>cfg. NewGitAnchorProviderModule out (pm_instanceName m) cfg = Inr m)
   \<or> (\<exists>cfg. NewSigstoreProviderModule out (pm_instanceName m) cfg = Inr m)"

lemma module_contract:
  "NewOpenTimestampsProviderModule out n oc = Inr m \<Longrightarrow> contract_ok (pm_provider m)"
  "NewGitAnchorProviderModule out n gc = Inr m \<Longrightarrow> contract_ok (pm_provider m)"
  "NewSigstoreProviderModule out n sc = Inr m \<Longrightarrow> contract_ok (pm_provider m)"
  unfolding NewOpenTimestampsProviderModule_def NewGitAnchorProviderModule_def NewSigstoreProviderModule_def
  by (auto simp: shipped_contract split: sum.splits if_splits)

lemma factory_contract: "from_factory out m \<Longrightarrow> contract_ok (pm_provider m)"
  unfolding from_factory_def using module_contract by blast

text \<open>The names the factories' providers go by, whatever the module's instance name is.\<close>

definition shipped_names :: "string set" where
  "shipped_names = {ots_name, git_name, sig_name}"

lemma provider_names_shipped:
  "pName (ots_provider net clock lenient p) \<in> shipped_names" "pName (git_provider net' clock p') \<in> shipped_names"
  "pName (sig_provider net'' clock p'') \<in> shipped_names"
  by (simp_all add: shipped_names_def ots_provider_def git_provider_def sig_provider_def)

lemma module_provider_name:
  "NewOpenTimestampsProviderModule out n oc = Inr m \<Longrightarrow> pName (pm_provider m) \<in> shipped_names"
  "NewGitAnchorProviderModule out n gc = Inr m \<Longrightarrow> pName (pm_provider m) \<in> shipped_names"
  "NewSigstoreProviderModule out n sc = Inr m \<Longrightarrow> pName (pm_provider m) \<in> shipped_names"
  unfolding NewOpenTimestampsProviderModule_def NewGitAnchorProviderModule_def NewSigstoreProviderModule_def
  by (auto simp: provider_names_shipped split: sum.splits if_splits)

lemma factory_name: "from_factory out m \<Longrightarrow> pName (pm_provider m) \<in> shipped_names"
  unfolding from_factory_def using module_provider_name by blast

end
