(* ===== verification/Plugin.thy ===== *)
theory Plugin
  imports Provider_Modules
begin

section \<open>The plugin and its contracts\<close>

text \<open>
  \<^verbatim>\<open>internal/plugin.go\<close> and \<^verbatim>\<open>internal/contracts.go\<close>: which module, step and trigger types the plugin
  advertises, how an instance of each is created, and the typed contracts the engine reads. The engine's
  SDK (\<open>NewTypedStepFactory\<close>) and protobuf's \<open>UnmarshalTo\<close> are parameters. A message type is named by its
  full protobuf name.
\<close>

subsection \<open>Metadata\<close>

record PluginManifest =
  man_Name :: string
  man_Version :: string
  man_Author :: string
  man_Description :: string

text \<open>\<open>version\<close> is the package variable, \<^verbatim>\<open>0.0.0\<close> unless the linker sets it.\<close>

definition Manifest :: "string \<Rightarrow> PluginManifest" where
  "Manifest version =
     \<lparr>man_Name = ''workflow-plugin-audit-chain'', man_Version = version, man_Author = ''GoCodeAlone'',
      man_Description = ''Tamper-evident hash-chained audit logging with periodic Merkle root anchoring (OpenTimestamps/Bitcoin, git, Sigstore, Ethereum, AWS QLDB)''\<rparr>"

subsection \<open>Modules\<close>

definition knownModuleTypes :: "string list" where
  "knownModuleTypes =
     [''audit.ledger'', ''audit.anchor_provider.opentimestamps'', ''audit.anchor_provider.git'',
      ''audit.anchor_provider.sigstore'', ''audit.anchor_provider.ethereum'', ''audit.anchor_provider.aws_qldb'']"

definition TypedModuleTypes :: "string list" where
  "TypedModuleTypes = knownModuleTypes"

definition ModuleTypes :: "string list" where
  "ModuleTypes = knownModuleTypes"

text \<open>\<open>anypb.Any.UnmarshalTo\<close> for the four configuration messages.\<close>

record 'any protobuf =
  to_LedgerConfig :: "'any \<Rightarrow> LedgerConfig result"
  to_OpenTimestampsConfig :: "'any \<Rightarrow> OpenTimestampsProviderConfig result"
  to_GitConfig :: "'any \<Rightarrow> GitAnchorProviderConfig result"
  to_SigstoreConfig :: "'any \<Rightarrow> SigstoreProviderConfig result"

definition zero_LedgerConfig :: LedgerConfig where
  "zero_LedgerConfig = \<lparr>lc_Name = [], lc_Description = [], lc_AnchorProviders = [], lc_AnchorSchedule = [],
     lc_AnchorMinEntries = 0, lc_PayloadSchema = [], lc_Dsn = []\<rparr>"

definition zero_OpenTimestampsConfig :: OpenTimestampsProviderConfig where
  "zero_OpenTimestampsConfig = \<lparr>oc_CalendarServers = [], oc_HttpTimeoutMs = 0\<rparr>"

definition zero_GitConfig :: GitAnchorProviderConfig where
  "zero_GitConfig = \<lparr>gc_Remote = [], gc_Branch = [], gc_CommitTemplate = [], gc_AuthorName = [], gc_AuthorEmail = [],
     gc_UseSshAgent = False, gc_SshKeyPath = [], gc_SshKeyPassword = [], gc_HttpUsername = [], gc_HttpPassword = []\<rparr>"

definition zero_SigstoreConfig :: SigstoreProviderConfig where
  "zero_SigstoreConfig = \<lparr>sc_RekorUrl = []\<rparr>"

text \<open>An absent configuration is the zero message.\<close>

definition decode_config :: "('any \<Rightarrow> 'm result) \<Rightarrow> 'm \<Rightarrow> string \<Rightarrow> string \<Rightarrow> 'any option \<Rightarrow> 'm result" where
  "decode_config dec zero typeName name config =
     (case config of
        None \<Rightarrow> Inr zero
      | Some c \<Rightarrow>
          (case dec c of
             Inl e \<Rightarrow> Inl (Errorf (typeName @ '' %q: unmarshal config: %w'') [ArgS name, ArgE e])
           | Inr m \<Rightarrow> Inr m))"

datatype module_instance = LedgerInstance LedgerModule | ProviderInstance anchorProviderModule

definition and_then :: "'a result \<Rightarrow> ('a \<Rightarrow> 'b result) \<Rightarrow> 'b result" where
  "and_then r f = (case r of Inl e \<Rightarrow> Inl e | Inr x \<Rightarrow> f x)"

definition CreateTypedModule ::
  "('r, 'k) outside \<Rightarrow> 'any protobuf \<Rightarrow> string \<Rightarrow> string \<Rightarrow> 'any option \<Rightarrow> module_instance result" where
  "CreateTypedModule out pb typeName name config =
     (if typeName = ''audit.ledger''
      then and_then (decode_config (to_LedgerConfig pb) zero_LedgerConfig typeName name config)
             (\<lambda>cfg. map_sum id LedgerInstance (NewLedgerModule name cfg))
      else if typeName = ''audit.anchor_provider.opentimestamps''
      then and_then (decode_config (to_OpenTimestampsConfig pb) zero_OpenTimestampsConfig typeName name config)
             (\<lambda>cfg. map_sum id ProviderInstance (NewOpenTimestampsProviderModule out name cfg))
      else if typeName = ''audit.anchor_provider.git''
      then and_then (decode_config (to_GitConfig pb) zero_GitConfig typeName name config)
             (\<lambda>cfg. map_sum id ProviderInstance (NewGitAnchorProviderModule out name cfg))
      else if typeName = ''audit.anchor_provider.sigstore''
      then and_then (decode_config (to_SigstoreConfig pb) zero_SigstoreConfig typeName name config)
             (\<lambda>cfg. map_sum id ProviderInstance (NewSigstoreProviderModule out name cfg))
      else if typeName = ''audit.anchor_provider.ethereum'' \<or> typeName = ''audit.anchor_provider.aws_qldb''
      then Inl (Errorf ''audit-chain: module type %q not yet implemented (deferred for pilot)'' [ArgS typeName])
      else Inl (Errorf ''audit-chain: unknown module type %q'' [ArgS typeName]))"

text \<open>The legacy path never creates a module.\<close>

definition CreateModule :: "string \<Rightarrow> module_instance result" where
  "CreateModule typeName =
     (if list_ex (\<lambda>known. known = typeName) knownModuleTypes
      then Inl (Errorf ''audit-chain: module type %q not yet implemented via legacy path; engine must support TypedModuleProvider''
                  [ArgS typeName])
      else Inl (Errorf ''audit-chain: unknown module type %q'' [ArgS typeName]))"

subsection \<open>Steps\<close>

datatype step_handler = AppendStep | VerifyStep | MerkleRootStep | AnchorStep | PollStep | ProofStep | ReceiptStep

definition auditProtoPkg :: string where
  "auditProtoPkg = ''workflow.plugin.audit.v1.''"

definition empty_message :: string where
  "empty_message = ''google.protobuf.Empty''"

text \<open>The type parameters of a handler's request and result: configuration, input and output message.\<close>

fun handler_messages :: "step_handler \<Rightarrow> string \<times> string \<times> string" where
  "handler_messages AppendStep = (empty_message, auditProtoPkg @ ''AppendRequest'', auditProtoPkg @ ''AppendResponse'')"
| "handler_messages VerifyStep = (empty_message, auditProtoPkg @ ''VerifyRequest'', auditProtoPkg @ ''VerifyResponse'')"
| "handler_messages MerkleRootStep = (empty_message, auditProtoPkg @ ''MerkleRootRequest'', auditProtoPkg @ ''MerkleRootResponse'')"
| "handler_messages AnchorStep = (empty_message, auditProtoPkg @ ''AnchorRequest'', auditProtoPkg @ ''AnchorResponse'')"
| "handler_messages PollStep = (auditProtoPkg @ ''PollAnchorConfirmationConfig'',
     auditProtoPkg @ ''PollAnchorConfirmationRequest'', auditProtoPkg @ ''PollAnchorConfirmationResponse'')"
| "handler_messages ProofStep = (empty_message, auditProtoPkg @ ''ProofRequest'', auditProtoPkg @ ''ProofResponse'')"
| "handler_messages ReceiptStep = (auditProtoPkg @ ''PublicReceiptConfig'',
     auditProtoPkg @ ''PublicReceiptRequest'', auditProtoPkg @ ''PublicReceiptResponse'')"

text \<open>What \<open>sdk.NewTypedStepFactory\<close> is given: the type, the configuration and input messages, the handler.\<close>

record step_factory =
  sf_type :: string
  sf_config :: string
  sf_input :: string
  sf_handler :: step_handler

definition step_factory :: "string \<Rightarrow> string \<Rightarrow> string \<Rightarrow> step_handler \<Rightarrow> step_factory" where
  "step_factory t c i h = \<lparr>sf_type = t, sf_config = c, sf_input = i, sf_handler = h\<rparr>"

definition stepFactories :: "step_factory list" where
  "stepFactories =
     [step_factory ''step.audit.append'' empty_message (auditProtoPkg @ ''AppendRequest'') AppendStep,
      step_factory ''step.audit.verify'' empty_message (auditProtoPkg @ ''VerifyRequest'') VerifyStep,
      step_factory ''step.audit.merkle_root'' empty_message (auditProtoPkg @ ''MerkleRootRequest'') MerkleRootStep,
      step_factory ''step.audit.anchor'' empty_message (auditProtoPkg @ ''AnchorRequest'') AnchorStep,
      step_factory ''step.audit.poll_anchor_confirmation'' (auditProtoPkg @ ''PollAnchorConfirmationConfig'')
        (auditProtoPkg @ ''PollAnchorConfirmationRequest'') PollStep,
      step_factory ''step.audit.proof'' empty_message (auditProtoPkg @ ''ProofRequest'') ProofStep,
      step_factory ''step.audit.public_receipt'' (auditProtoPkg @ ''PublicReceiptConfig'')
        (auditProtoPkg @ ''PublicReceiptRequest'') ReceiptStep]"

definition StepTypes :: "string list" where
  "StepTypes =
     [''step.audit.append'', ''step.audit.verify'', ''step.audit.merkle_root'', ''step.audit.anchor'',
      ''step.audit.poll_anchor_confirmation'', ''step.audit.proof'', ''step.audit.public_receipt'']"

definition TypedStepTypes :: "string list" where
  "TypedStepTypes = StepTypes"

text \<open>The SDK's side: what a factory makes of a request, and its error for a type that is not its own.\<close>

record ('any, 'i) step_sdk =
  sdk_create :: "step_factory \<Rightarrow> string \<Rightarrow> string \<Rightarrow> 'any option \<Rightarrow> 'i result"
  sdk_not_handled :: go_error

fun try_factories ::
  "('any, 'i) step_sdk \<Rightarrow> string \<Rightarrow> string \<Rightarrow> 'any option \<Rightarrow> step_factory list \<Rightarrow> 'i result" where
  "try_factories sdk typeName name config [] = Inl (Errorf ''audit-chain: unknown step type %q'' [ArgS typeName])"
| "try_factories sdk typeName name config (f # fs) =
     (case sdk_create sdk f typeName name config of
        Inr inst \<Rightarrow> Inr inst
      | Inl err \<Rightarrow>
          if errors_is (sdk_not_handled sdk) err then try_factories sdk typeName name config fs else Inl err)"

definition CreateTypedStep :: "('any, 'i) step_sdk \<Rightarrow> string \<Rightarrow> string \<Rightarrow> 'any option \<Rightarrow> 'i result" where
  "CreateTypedStep sdk typeName name config = try_factories sdk typeName name config stepFactories"

definition CreateStep :: "string \<Rightarrow> 'i result" where
  "CreateStep typeName =
     (if list_ex (\<lambda>s. s = typeName) StepTypes
      then Inl (Errorf ''audit-chain: step type %q not yet implemented via legacy path; engine must support TypedStepProvider''
                  [ArgS typeName])
      else Inl (Errorf ''audit-chain: unknown step type %q'' [ArgS typeName]))"

subsection \<open>Triggers\<close>

definition TriggerTypes :: "string list" where
  "TriggerTypes = [''trigger.audit.entry_appended'']"

definition CreateTrigger :: "string \<Rightarrow> 'i result" where
  "CreateTrigger typeName =
     (if typeName = ''trigger.audit.entry_appended''
      then Inl (Errorf ''audit-chain: trigger type %q not yet implemented'' [ArgS typeName])
      else Inl (Errorf ''audit-chain: unknown trigger type %q'' [ArgS typeName]))"

subsection \<open>Contracts\<close>

datatype contract_kind = ModuleKind | StepKind

record ContractDescriptor =
  cd_Kind :: contract_kind
  cd_ModuleType :: string
  cd_StepType :: string
  cd_ConfigMessage :: string
  cd_InputMessage :: string
  cd_OutputMessage :: string
  cd_Mode :: string

definition strict_proto :: string where
  "strict_proto = ''CONTRACT_MODE_STRICT_PROTO''"

definition moduleContract :: "string \<Rightarrow> string \<Rightarrow> ContractDescriptor" where
  "moduleContract moduleType configMessage =
     \<lparr>cd_Kind = ModuleKind, cd_ModuleType = moduleType, cd_StepType = [], cd_ConfigMessage = auditProtoPkg @ configMessage,
      cd_InputMessage = [], cd_OutputMessage = [], cd_Mode = strict_proto\<rparr>"

definition stepContractEmptyConfig :: "string \<Rightarrow> string \<Rightarrow> string \<Rightarrow> ContractDescriptor" where
  "stepContractEmptyConfig stepType inputMessage outputMessage =
     \<lparr>cd_Kind = StepKind, cd_ModuleType = [], cd_StepType = stepType, cd_ConfigMessage = ''google.protobuf.Empty'',
      cd_InputMessage = auditProtoPkg @ inputMessage, cd_OutputMessage = auditProtoPkg @ outputMessage,
      cd_Mode = strict_proto\<rparr>"

definition stepContractTypedConfig :: "string \<Rightarrow> string \<Rightarrow> string \<Rightarrow> string \<Rightarrow> ContractDescriptor" where
  "stepContractTypedConfig stepType configMessage inputMessage outputMessage =
     \<lparr>cd_Kind = StepKind, cd_ModuleType = [], cd_StepType = stepType, cd_ConfigMessage = auditProtoPkg @ configMessage,
      cd_InputMessage = auditProtoPkg @ inputMessage, cd_OutputMessage = auditProtoPkg @ outputMessage,
      cd_Mode = strict_proto\<rparr>"

definition auditContracts :: "ContractDescriptor list" where
  "auditContracts =
     [moduleContract ''audit.ledger'' ''LedgerConfig'',
      moduleContract ''audit.anchor_provider.opentimestamps'' ''OpenTimestampsProviderConfig'',
      moduleContract ''audit.anchor_provider.git'' ''GitAnchorProviderConfig'',
      moduleContract ''audit.anchor_provider.sigstore'' ''SigstoreProviderConfig'',
      stepContractEmptyConfig ''step.audit.append'' ''AppendRequest'' ''AppendResponse'',
      stepContractEmptyConfig ''step.audit.verify'' ''VerifyRequest'' ''VerifyResponse'',
      stepContractEmptyConfig ''step.audit.merkle_root'' ''MerkleRootRequest'' ''MerkleRootResponse'',
      stepContractEmptyConfig ''step.audit.anchor'' ''AnchorRequest'' ''AnchorResponse'',
      stepContractTypedConfig ''step.audit.poll_anchor_confirmation'' ''PollAnchorConfirmationConfig''
        ''PollAnchorConfirmationRequest'' ''PollAnchorConfirmationResponse'',
      stepContractEmptyConfig ''step.audit.proof'' ''ProofRequest'' ''ProofResponse'',
      stepContractTypedConfig ''step.audit.public_receipt'' ''PublicReceiptConfig''
        ''PublicReceiptRequest'' ''PublicReceiptResponse'']"

text \<open>A file of the descriptor set, as far as the engine looks it up: its name and the messages it declares.\<close>

record proto_file =
  pf_name :: string
  pf_messages :: "string list"

definition audit_proto :: proto_file where
  "audit_proto = \<lparr>pf_name = ''audit.proto'', pf_messages = map (\<lambda>m. auditProtoPkg @ m)
     [''LedgerConfig'', ''OpenTimestampsProviderConfig'', ''GitAnchorProviderConfig'', ''SigstoreProviderConfig'',
      ''AppendRequest'', ''AppendResponse'', ''VerifyRequest'', ''VerifyResponse'', ''MerkleRootRequest'', ''MerkleRootResponse'',
      ''AnchorRequest'', ''AnchorResponse'', ''AnchorRecord'', ''PollAnchorConfirmationConfig'', ''PollAnchorConfirmationRequest'',
      ''PollAnchorConfirmationResponse'', ''ProofRequest'', ''ProofResponse'', ''Entry'', ''PublicReceiptConfig'',
      ''PublicReceiptRequest'', ''PublicReceiptResponse'']\<rparr>"

text \<open>The two files of protobuf's own well-known types.\<close>

definition struct_proto :: proto_file where
  "struct_proto = \<lparr>pf_name = ''google/protobuf/struct.proto'',
     pf_messages = [''google.protobuf.Struct'', ''google.protobuf.Value'', ''google.protobuf.ListValue'']\<rparr>"

definition empty_proto :: proto_file where
  "empty_proto = \<lparr>pf_name = ''google/protobuf/empty.proto'', pf_messages = [''google.protobuf.Empty'']\<rparr>"

record contract_registry =
  cr_Files :: "proto_file list"
  cr_Contracts :: "ContractDescriptor list"

definition auditContractRegistry :: contract_registry where
  "auditContractRegistry = \<lparr>cr_Files = [struct_proto, empty_proto, audit_proto], cr_Contracts = auditContracts\<rparr>"

definition ContractRegistry :: contract_registry where
  "ContractRegistry = auditContractRegistry"

definition resolves :: "contract_registry \<Rightarrow> string \<Rightarrow> bool" where
  "resolves reg message \<longleftrightarrow> list_ex (\<lambda>f. message \<in> set (pf_messages f)) (cr_Files reg)"

subsection \<open>Properties\<close>

text \<open>What the SDK documents of its factories: another type's request is not handled, and the own type's
  errors are errors of their own.\<close>

definition sdk_ok :: "('any, 'i) step_sdk \<Rightarrow> bool" where
  "sdk_ok sdk \<longleftrightarrow> (\<forall>f t n c. case sdk_create sdk f t n c of
       Inr i \<Rightarrow> t = sf_type f
     | Inl e \<Rightarrow> errors_is (sdk_not_handled sdk) e \<longleftrightarrow> t \<noteq> sf_type f)"

lemma sdk_other: "sdk_ok sdk \<Longrightarrow> t \<noteq> sf_type f \<Longrightarrow> \<exists>e. sdk_create sdk f t n c = Inl e \<and> errors_is (sdk_not_handled sdk) e"
  unfolding sdk_ok_def by (erule allE [of _ f], erule allE [of _ t], erule allE [of _ n], erule allE [of _ c])
    (auto split: sum.splits)

lemma sdk_own: "sdk_ok sdk \<Longrightarrow> sdk_create sdk f (sf_type f) n c = Inl e \<Longrightarrow> \<not> errors_is (sdk_not_handled sdk) e"
  unfolding sdk_ok_def by (erule allE [of _ f], erule allE [of _ "sf_type f"], erule allE [of _ n], erule allE [of _ c]) auto

lemma try_factories_find:
  assumes "sdk_ok sdk"
  shows "try_factories sdk t name config fs =
    (case find (\<lambda>f. sf_type f = t) fs of
       None \<Rightarrow> Inl (Errorf ''audit-chain: unknown step type %q'' [ArgS t])
     | Some f \<Rightarrow> sdk_create sdk f t name config)"
proof (induction fs)
  case (Cons f fs)
  show ?case
  proof (cases "sf_type f = t")
    case True
    then show ?thesis using sdk_own [OF assms, of f name config] by (auto split: sum.split)
  next
    case False
    then obtain e where "sdk_create sdk f t name config = Inl e" "errors_is (sdk_not_handled sdk) e"
      using sdk_other [OF assms, of t f name config] by auto
    with False Cons show ?thesis by simp
  qed
qed simp

lemmas plugin_tables =
  stepFactories_def step_factory_def StepTypes_def auditContracts_def moduleContract_def stepContractEmptyConfig_def
  stepContractTypedConfig_def auditProtoPkg_def empty_message_def

text \<open>Every factory has the only contract of its type, with the messages of its handler, which are those it was
  built with; and the registry's files declare every message that a contract names.\<close>

lemma contracts_agree:
  "list_all (\<lambda>f. map (\<lambda>c. (cd_ConfigMessage c, cd_InputMessage c, cd_OutputMessage c)) (filter (\<lambda>c. cd_StepType c = sf_type f) auditContracts)
     = [handler_messages (sf_handler f)] \<and> handler_messages (sf_handler f) = (sf_config f, sf_input f, snd (snd (handler_messages (sf_handler f)))))
   stepFactories"
  by (simp add: plugin_tables)

lemma audit_proto_resolves: "m \<in> set (pf_messages audit_proto) \<or> m = ''google.protobuf.Empty'' \<Longrightarrow> resolves ContractRegistry m"
  by (auto simp: resolves_def ContractRegistry_def auditContractRegistry_def empty_proto_def)

lemma contracts_resolve:
  "list_all (\<lambda>c. resolves ContractRegistry (cd_ConfigMessage c) \<and> (cd_Kind c = StepKind \<longrightarrow>
     resolves ContractRegistry (cd_InputMessage c) \<and> resolves ContractRegistry (cd_OutputMessage c))) auditContracts"
  by (simp add: plugin_tables audit_proto_resolves audit_proto_def)

lemma factory_types: "map sf_type stepFactories = StepTypes" "distinct StepTypes"
  by (simp_all add: plugin_tables)

lemma distinct_key_filter: "distinct (map g xs) \<Longrightarrow> x \<in> set xs \<Longrightarrow> filter (\<lambda>y. g y = g x) xs = [x]"
  by (induction xs) (auto simp: filter_empty_conv rev_image_eqI)

text \<open>C38. A typed step is created by the one factory of its type and never by another, whatever order
  they are tried in; the engine's contract of that type is unique and names the very configuration, input
  and output messages of the factory's handler, all of which the contract registry's files declare; a type that is not advertised
  is refused.\<close>

theorem CreateTypedStep_dispatch:
  assumes "sdk_ok sdk"
  shows "if t \<in> set TypedStepTypes
    then \<exists>f c. filter (\<lambda>f. sf_type f = t) stepFactories = [f] \<and> filter (\<lambda>c. cd_StepType c = t) (cr_Contracts ContractRegistry) = [c]
      \<and> (cd_ConfigMessage c, cd_InputMessage c, cd_OutputMessage c) = handler_messages (sf_handler f)
      \<and> cd_ConfigMessage c = sf_config f \<and> cd_InputMessage c = sf_input f
      \<and> list_all (resolves ContractRegistry) [cd_ConfigMessage c, cd_InputMessage c, cd_OutputMessage c]
      \<and> CreateTypedStep sdk t name config = sdk_create sdk f t name config
    else CreateTypedStep sdk t name config = Inl (Errorf ''audit-chain: unknown step type %q'' [ArgS t])"
proof (cases "find (\<lambda>f. sf_type f = t) stepFactories")
  case None
  then have "t \<notin> set StepTypes" unfolding factory_types(1) [symmetric] by (auto simp: find_None_iff)
  with None show ?thesis by (simp add: CreateTypedStep_def TypedStepTypes_def try_factories_find [OF assms])
next
  case (Some f)
  then have f: "f \<in> set stepFactories" "sf_type f = t" by (auto simp: find_Some_iff)
  then have t: "t \<in> set TypedStepTypes" unfolding TypedStepTypes_def factory_types(1) [symmetric] by auto
  have "distinct (map sf_type stepFactories)" by (simp add: factory_types)
  then have "filter (\<lambda>f. sf_type f = t) stepFactories = [f]"
    using f distinct_key_filter [of sf_type stepFactories f] by simp
  moreover obtain c where c: "filter (\<lambda>c. cd_StepType c = t) auditContracts = [c]"
    "(cd_ConfigMessage c, cd_InputMessage c, cd_OutputMessage c) = handler_messages (sf_handler f)"
    "cd_ConfigMessage c = sf_config f" "cd_InputMessage c = sf_input f"
  proof -
    from contracts_agree f have
      one: "map (\<lambda>c. (cd_ConfigMessage c, cd_InputMessage c, cd_OutputMessage c)) (filter (\<lambda>c. cd_StepType c = t) auditContracts)
        = [handler_messages (sf_handler f)]"
      and sig: "handler_messages (sf_handler f) = (sf_config f, sf_input f, snd (snd (handler_messages (sf_handler f))))"
      unfolding list_all_iff by blast+
    from one obtain c where "filter (\<lambda>c. cd_StepType c = t) auditContracts = [c]"
      "(cd_ConfigMessage c, cd_InputMessage c, cd_OutputMessage c) = handler_messages (sf_handler f)" by auto
    with that [of c] sig show thesis by (metis prod.inject)
  qed
  have "c \<in> set (filter (\<lambda>c. cd_StepType c = t) auditContracts)" using c(1) by simp
  then have "c \<in> set auditContracts" "cd_StepType c = t" by simp_all
  moreover have "cd_Kind c = StepKind" if "c \<in> set auditContracts" "cd_StepType c \<noteq> []"
    using that by (auto simp: plugin_tables)
  moreover have "t \<noteq> []" using t by (auto simp: TypedStepTypes_def StepTypes_def)
  ultimately have "resolves ContractRegistry (cd_ConfigMessage c) \<and> resolves ContractRegistry (cd_InputMessage c)
      \<and> resolves ContractRegistry (cd_OutputMessage c)"
    using contracts_resolve unfolding list_all_iff by blast
  with \<open>filter (\<lambda>f. sf_type f = t) stepFactories = [f]\<close> c t Some show ?thesis
    by (simp add: CreateTypedStep_def ContractRegistry_def auditContractRegistry_def try_factories_find [OF assms])
qed

definition sample_sdk :: "(unit, step_handler) step_sdk" where
  "sample_sdk = \<lparr>sdk_create = (\<lambda>f t n c. if sf_type f = t then Inr (sf_handler f) else Inl (Sentinel ''not handled'')),
     sdk_not_handled = Sentinel ''not handled''\<rparr>"

theorem CreateTypedStep_dispatch_witness:
  "CreateTypedStep sample_sdk ''step.audit.proof'' ''p'' None = Inr ProofStep"
proof -
  have "sdk_ok sample_sdk" by (simp add: sdk_ok_def sample_sdk_def)
  moreover have "''step.audit.proof'' \<in> set TypedStepTypes" by (simp add: TypedStepTypes_def StepTypes_def)
  ultimately obtain f where f: "filter (\<lambda>f. sf_type f = ''step.audit.proof'') stepFactories = [f]"
    "CreateTypedStep sample_sdk ''step.audit.proof'' ''p'' None = sdk_create sample_sdk f ''step.audit.proof'' ''p'' None"
    using CreateTypedStep_dispatch [of sample_sdk "''step.audit.proof''" "''p''" None] by auto
  have "f = step_factory ''step.audit.proof'' empty_message (auditProtoPkg @ ''ProofRequest'') ProofStep"
    using f(1) by (simp add: stepFactories_def step_factory_def)
  with f(2) show ?thesis by (simp add: sample_sdk_def step_factory_def)
qed

text \<open>Two advertised module types cannot be created and have no contract, the others have one contract
  each; the advertised trigger and the legacy paths always fail.\<close>

lemma deferred_modules:
  "t = ''audit.anchor_provider.ethereum'' \<or> t = ''audit.anchor_provider.aws_qldb'' \<Longrightarrow>
     t \<in> set TypedModuleTypes \<and> (\<exists>e. CreateTypedModule out pb t name config = Inl e)
     \<and> filter (\<lambda>c. cd_ModuleType c = t) auditContracts = []"
  by (auto simp: TypedModuleTypes_def knownModuleTypes_def CreateTypedModule_def plugin_tables)

lemma trigger_unavailable: "t \<in> set TriggerTypes \<Longrightarrow> \<exists>e. CreateTrigger t = Inl e"
  by (simp add: TriggerTypes_def CreateTrigger_def)

lemma map_sum_id_Inr: "map_sum id g r = Inr y \<longleftrightarrow> (\<exists>x. r = Inr x \<and> y = g x)"
  by (cases r) auto

text \<open>A provider module the plugin creates comes from one of the factories and bears the given name; so
  its provider keeps the contract.\<close>

lemma CreateTypedModule_provider:
  assumes "CreateTypedModule out pb t name config = Inr (ProviderInstance m)"
  shows "pm_instanceName m = name \<and> from_factory out m \<and> contract_ok (pm_provider m)"
proof -
  consider oc where "NewOpenTimestampsProviderModule out name oc = Inr m"
    | gc where "NewGitAnchorProviderModule out name gc = Inr m"
    | sc where "NewSigstoreProviderModule out name sc = Inr m"
    using assms by (auto simp: CreateTypedModule_def and_then_def map_sum_id_Inr split: if_splits sum.splits)
  moreover then have "pm_instanceName m = name"
    by cases (auto simp: NewOpenTimestampsProviderModule_def NewGitAnchorProviderModule_def NewSigstoreProviderModule_def
        split: if_splits sum.splits)
  ultimately show ?thesis using factory_contract [of out m] unfolding from_factory_def by cases blast+
qed

lemma CreateTypedModule_ledger:
  assumes "CreateTypedModule out pb t name config = Inr (LedgerInstance m)"
  shows "\<exists>cfg. NewLedgerModule name cfg = Inr m"
  using assms by (auto simp: CreateTypedModule_def and_then_def map_sum_id_Inr split: if_splits sum.splits)

end
