(* ===== verification/Sha256.thy ===== *)
theory Sha256
  imports Prelude
begin

section \<open>SHA-256\<close>

text \<open>
  The hash of Go's \<open>crypto/sha256\<close>, the standard library function every hash of the program is
  built from, over 32-bit words: padding, the sixteen-word sliding window of the message schedule,
  the sixty-four rounds and the digest's bytes. The program relies on the digest having 32 bytes,
  which \<open>length_sha256\<close> gives; no proof below unfolds the rounds.
\<close>

unbundle bit_operations_syntax

type_synonym w32 = "32 word"

definition rotate_right :: "nat \<Rightarrow> w32 \<Rightarrow> w32" where
  "rotate_right n x = (drop_bit n x) OR (push_bit (32 - n) x)"

definition schedule0 :: "w32 \<Rightarrow> w32" where
  "schedule0 x = rotate_right 7 x XOR rotate_right 18 x XOR drop_bit 3 x"

definition schedule1 :: "w32 \<Rightarrow> w32" where
  "schedule1 x = rotate_right 17 x XOR rotate_right 19 x XOR drop_bit 10 x"

definition mix0 :: "w32 \<Rightarrow> w32" where
  "mix0 x = rotate_right 2 x XOR rotate_right 13 x XOR rotate_right 22 x"

definition mix1 :: "w32 \<Rightarrow> w32" where
  "mix1 x = rotate_right 6 x XOR rotate_right 11 x XOR rotate_right 25 x"

definition select_bits :: "w32 \<Rightarrow> w32 \<Rightarrow> w32 \<Rightarrow> w32" where
  "select_bits e f g = (e AND f) XOR ((NOT e) AND g)"

definition majority_bits :: "w32 \<Rightarrow> w32 \<Rightarrow> w32 \<Rightarrow> w32" where
  "majority_bits a b c = (a AND b) XOR (a AND c) XOR (b AND c)"

text \<open>The first 32 bits of the fractional parts of the cube roots (square roots) of the first 64
  (8) primes.\<close>

definition round_constants :: "w32 list" where
  "round_constants =
    [1116352408, 1899447441, 3049323471, 3921009573, 961987163, 1508970993,
     2453635748, 2870763221, 3624381080, 310598401, 607225278, 1426881987,
     1925078388, 2162078206, 2614888103, 3248222580, 3835390401, 4022224774,
     264347078, 604807628, 770255983, 1249150122, 1555081692, 1996064986,
     2554220882, 2821834349, 2952996808, 3210313671, 3336571891, 3584528711,
     113926993, 338241895, 666307205, 773529912, 1294757372, 1396182291,
     1695183700, 1986661051, 2177026350, 2456956037, 2730485921, 2820302411,
     3259730800, 3345764771, 3516065817, 3600352804, 4094571909, 275423344,
     430227734, 506948616, 659060556, 883997877, 958139571, 1322822218,
     1537002063, 1747873779, 1955562222, 2024104815, 2227730452, 2361852424,
     2428436474, 2756734187, 3204031479, 3329325298]"

definition initial_hash :: "w32 list" where
  "initial_hash =
    [1779033703, 3144134277, 1013904242, 2773480762, 1359893119, 2600822924,
     528734635, 1541459225]"

fun round_step :: "w32 \<Rightarrow> w32 \<Rightarrow> w32 list \<Rightarrow> w32 list" where
  "round_step k w [a, b, c, d, e, f, g, h] =
     (let t1 = h + mix1 e + select_bits e f g + k + w
      in [t1 + (mix0 a + majority_bits a b c), a, b, c, d + t1, e, f, g])"
| "round_step k w st = st"

text \<open>The window holds the schedule words \<open>t\<close> to \<open>t + 15\<close>; a round consumes the first and appends
  word \<open>t + 16\<close>.\<close>

definition next_window :: "w32 list \<Rightarrow> w32 list" where
  "next_window ws = tl ws @ [schedule1 (ws ! 14) + ws ! 9 + schedule0 (ws ! 1) + ws ! 0]"

fun rounds :: "w32 list \<Rightarrow> w32 list \<Rightarrow> w32 list \<Rightarrow> w32 list" where
  "rounds [] win st = st"
| "rounds (k # ks) win st = rounds ks (next_window win) (round_step k (hd win) st)"

definition compress :: "w32 list \<Rightarrow> w32 list \<Rightarrow> w32 list" where
  "compress st block = map2 (+) st (rounds round_constants block st)"

subsection \<open>Bytes and words\<close>

fun words_of_bytes :: "bytes \<Rightarrow> w32 list" where
  "words_of_bytes (a # b # c # d # cs) =
     (16777216 * of_char a + 65536 * of_char b + 256 * of_char c + of_char d) # words_of_bytes cs"
| "words_of_bytes _ = []"

definition bytes_of_word :: "w32 \<Rightarrow> bytes" where
  "bytes_of_word w =
     (let n = unat w
      in [char_of (n div 16777216), char_of (n div 65536), char_of (n div 256), char_of n])"

definition length_field :: "bytes \<Rightarrow> bytes" where
  "length_field msg =
     (let n = (8 * length msg) mod 2 ^ 64
      in bytes_of_word (of_nat (n div 2 ^ 32)) @ bytes_of_word (of_nat n))"

definition pad :: "bytes \<Rightarrow> bytes" where
  "pad msg = msg @ char_of (128 :: nat) # replicate ((119 - length msg mod 64) mod 64) (char_of (0 :: nat))
               @ length_field msg"

fun absorb :: "w32 list \<Rightarrow> bytes \<Rightarrow> w32 list" where
  "absorb st s =
     (if length s < 64 then st else absorb (compress st (words_of_bytes (take 64 s))) (drop 64 s))"

declare absorb.simps [simp del]

text \<open>\<open>sha256.Sum256\<close>.\<close>

definition sha256 :: "bytes \<Rightarrow> bytes" where
  "sha256 msg = concat (map bytes_of_word (absorb initial_hash (pad msg)))"

subsection \<open>The digest has 32 bytes\<close>

lemma length_bytes_of_word [simp]: "length (bytes_of_word w) = 4"
  by (simp add: bytes_of_word_def Let_def)

lemma length_round_step [simp]: "length (round_step k w st) = length st"
  by (induction k w st rule: round_step.induct) (simp_all add: Let_def)

lemma length_rounds [simp]: "length (rounds ks win st) = length st"
  by (induction ks win st rule: rounds.induct) simp_all

lemma length_compress [simp]: "length (compress st block) = length st"
  by (simp add: compress_def)

lemma length_absorb [simp]: "length (absorb st s) = length st"
proof (induction st s rule: absorb.induct)
  case (1 st s)
  then show ?case by (subst absorb.simps) simp
qed

lemma length_sha256 [simp, len_simps]: "length (sha256 msg) = 32"
  by (simp add: sha256_def length_concat comp_def sum_list_triv initial_hash_def)

interpretation sha: digest sha256 32
  by unfold_locales simp

text \<open>Every padded message is a whole number of 64-byte blocks, so no byte of it is left out.\<close>

lemma length_length_field [simp]: "length (length_field msg) = 8"
  by (simp add: length_field_def Let_def)

lemma pad_whole_blocks: "length (pad msg) mod 64 = 0"
proof -
  define r where "r = length msg mod 64"
  have r: "r < 64" by (simp add: r_def)
  have "(119 - r) mod 64 = (if r \<le> 55 then 55 - r else 119 - r)"
  proof (cases "r \<le> 55")
    case True
    then have "119 - r = (55 - r) + 64" by simp
    with True show ?thesis by (simp only: mod_add_self2) simp
  next
    case False
    then have "119 - r < 64" by simp
    with False show ?thesis by simp
  qed
  with r have "(r + 9 + (119 - r) mod 64) mod 64 = 0" by simp
  moreover have "length (pad msg) = length msg + (9 + (119 - r) mod 64)"
    by (simp add: pad_def r_def)
  ultimately show ?thesis by (simp add: r_def mod_add_left_eq add.assoc)
qed

subsection \<open>Collisions\<close>

text \<open>Two message sets collide when different messages, one of each, have the same hash: what an
  adversary has to find to break the chain or a tree. The sets are the messages the code hashes, so the
  theorems name the collision they reduce to.\<close>

definition collides :: "bytes set \<Rightarrow> bytes set \<Rightarrow> bool" where
  "collides M N \<longleftrightarrow> (\<exists>a \<in> M. \<exists>b \<in> N. a \<noteq> b \<and> sha256 a = sha256 b)"

lemma collidesI: "sha256 a = sha256 b \<Longrightarrow> a \<noteq> b \<Longrightarrow> a \<in> M \<Longrightarrow> b \<in> N \<Longrightarrow> collides M N"
  by (auto simp: collides_def)

lemma collides_mono: "collides M N \<Longrightarrow> M \<subseteq> M' \<Longrightarrow> N \<subseteq> N' \<Longrightarrow> collides M' N'"
  by (auto simp: collides_def)

end
