(* ===== verification/Canonical.thy ===== *)
theory Canonical
  imports Json_Roundtrip Sha256
begin

section \<open>Canonical JSON and the hashes of the chain\<close>

text \<open>
  The package functions of \<^verbatim>\<open>chain/canonical.go\<close> and \<^verbatim>\<open>chain/hash.go\<close>: \<open>Canonicalize\<close>, \<open>payload_hash\<close> (\<open>PayloadHash\<close>), \<open>entry_hash\<close> (\<open>EntryHash\<close>) and
  \<open>sha256Hex\<close>. The lemmas show that canonicalisation is a normal form of the decoded value, that
  the preimage of an entry hash determines all five of its fields, and where the code departs from
  RFC 8785 and from its own comments.
\<close>

definition Canonicalize :: "bytes \<Rightarrow> bytes result" where
  "Canonicalize data =
     (case json_decode data of
        Inl err \<Rightarrow> Inl (Errorf ''canonical: unmarshal: %w'' [ArgE err])
      | Inr v \<Rightarrow>
          (case json_marshal v of
             Inl err \<Rightarrow> Inl (Errorf ''canonical: marshal: %w'' [ArgE err])
           | Inr out \<Rightarrow> Inr out))"

definition sha256Hex :: "bytes \<Rightarrow> string" where
  "sha256Hex data = hex_encode (sha256 data)"

definition PayloadHash :: "bytes \<Rightarrow> string result" where
  "PayloadHash data =
     (case Canonicalize data of
        Inl err \<Rightarrow> Inl (Errorf ''chain.PayloadHash: %w'' [ArgE err])
      | Inr canonical \<Rightarrow> Inr (hex_encode (sha256 canonical)))"

text \<open>The map literal that \<open>EntryHash\<close> marshals.\<close>

definition entry_object :: "int64 \<Rightarrow> string \<Rightarrow> string \<Rightarrow> string \<Rightarrow> string \<Rightarrow> json" where
  "entry_object seq ledger event_type payload_hash prev_entry_hash =
     JObj (map_of_members
       [(''event_type'', JStr event_type),
        (''ledger'', JStr ledger),
        (''payload_hash'', JStr payload_hash),
        (''prev_entry_hash'', JStr prev_entry_hash),
        (''sequence'', JNum (format_int (sint seq)))])"

definition entry_preimage :: "int64 \<Rightarrow> string \<Rightarrow> string \<Rightarrow> string \<Rightarrow> string \<Rightarrow> bytes" where
  "entry_preimage seq ledger event_type payload_hash prev_entry_hash =
     marshal (entry_object seq ledger event_type payload_hash prev_entry_hash)"

definition EntryHash :: "int64 \<Rightarrow> string \<Rightarrow> string \<Rightarrow> string \<Rightarrow> string \<Rightarrow> string" where
  "EntryHash seq ledger event_type payload_hash prev_entry_hash =
     hex_encode (sha256 (entry_preimage seq ledger event_type payload_hash prev_entry_hash))"

subsection \<open>Canonicalisation is a normal form\<close>

text \<open>The marshal error of \<open>Canonicalize\<close> cannot occur: a decoded value marshals.\<close>

lemma Canonicalize_eq:
  "Canonicalize data =
     (case json_decode data of
        Inl err \<Rightarrow> Inl (Errorf ''canonical: unmarshal: %w'' [ArgE err])
      | Inr v \<Rightarrow> Inr (marshal v))"
  by (simp add: Canonicalize_def json_marshal_wf [OF json_decode_wf] split: sum.split)

lemma Canonicalize_Inr: "Canonicalize data = Inr c \<longleftrightarrow> (\<exists>v. json_decode data = Inr v \<and> c = marshal v)"
  by (auto simp: Canonicalize_eq split: sum.splits)

lemma Canonicalize_ok_iff: "is_ok (Canonicalize data) \<longleftrightarrow> is_ok (json_decode data)"
  by (auto simp: Canonicalize_eq split: sum.split)

lemma json_decode_canonical: "Canonicalize data = Inr c \<Longrightarrow> json_decode c = json_decode data"
  by (auto simp: Canonicalize_Inr json_decode_marshal json_decode_wf)

lemma Canonicalize_members:
  assumes "\<forall>p \<in> set ms. json_wf (snd p) 1 \<and> valid_utf8 (fst p)"
  shows "Canonicalize (CHR ''{'' # commas (map member_text ms) @ CHR ''}'' # t) =
    Inr (marshal (JObj (map_of_members ms)))"
proof -
  let ?ps = "map (\<lambda>p. (fst p, marshal (snd p), snd p)) ms"
  let ?s = "CHR ''{'' # commas (map member_text ms) @ ''}''"
  have "reads_as 0 (CHR ''{'' # commas (map entry_string ?ps) @ ''}'') (JObj (map_of_members (map entry_value ?ps)))"
    using assms reads_back_all by (intro reads_as_object) (auto simp: entry_reads_def reads_back_def max_depth_def)
  then have "reads_as 0 ?s (JObj (map_of_members ms))" by (simp add: comp_def)
  then have "pval (Suc (2 * length (?s @ t))) 0 (?s @ t) = Some (JObj (map_of_members ms), t)"
    by (rule reads_asD) (simp_all add: follows_def)
  then show ?thesis by (simp add: Canonicalize_eq json_decode_def del: pval.simps)
qed

subsection \<open>Hash lengths and preimages\<close>

lemma length_EntryHash [simp, len_simps]: "length (EntryHash s l e p q) = 64"
  by (simp add: EntryHash_def)

lemma length_PayloadHash: "PayloadHash data = Inr h \<Longrightarrow> length h = 64"
  by (auto simp: PayloadHash_def split: sum.splits)

lemma entry_object_eq:
  "entry_object s l e p q =
     JObj [(''event_type'', JStr e), (''ledger'', JStr l), (''payload_hash'', JStr p),
           (''prev_entry_hash'', JStr q), (''sequence'', JNum (format_int (sint s)))]"
proof -
  have "sorted_keys
     [(''event_type'', JStr e), (''ledger'', JStr l), (''payload_hash'', JStr p),
      (''prev_entry_hash'', JStr q), (''sequence'', JNum (format_int (sint s)))]"
    by (simp add: sorted_keys_def less_list_code)
  then show ?thesis by (simp add: entry_object_def map_of_members_sorted)
qed

text \<open>The panic of \<open>EntryHash\<close> cannot occur.\<close>

lemma entry_object_marshals: "json_marshal (entry_object s l e p q) = Inr (entry_preimage s l e p q)"
  by (simp add: json_marshal_def entry_preimage_def entry_object_eq read_number_format_int)

subsection \<open>Evaluating the reader on literals\<close>

lemmas pval_numeral =
  pval.simps(2) [of "pred_numeral k", folded numeral_eq_Suc]
  pelems.simps(2) [of "pred_numeral k", folded numeral_eq_Suc]
  pmembers.simps(2) [of "pred_numeral k", folded numeral_eq_Suc] for k

lemmas json_eval =
  Canonicalize_eq json_decode_def pval_numeral max_depth_def map_of_members_def
  skip_ws_def is_space_def read_string.simps utf8_width.simps(2) lead_width_def prepend_def utf8_encode_def
  is_digit_def read_number_def read_minus_def read_int_def read_frac_def read_exp_def read_digits_def
  quoted_def escape_rune_def escape_ascii_def u_escape_def hex_digit_def char_of_eq_char

text \<open>What a standard reader finds in a preimage.\<close>

lemma entry_preimage_reads:
  "json_decode (entry_preimage s l e p q) = Inr (entry_object s (coerce_utf8 l) (coerce_utf8 e) (coerce_utf8 p) (coerce_utf8 q))"
proof -
  let ?ps = "[(''event_type'', quoted e, JStr (coerce_utf8 e)), (''ledger'', quoted l, JStr (coerce_utf8 l)),
     (''payload_hash'', quoted p, JStr (coerce_utf8 p)), (''prev_entry_hash'', quoted q, JStr (coerce_utf8 q)),
     (''sequence'', marshal (JNum (format_int (sint s))), JNum (format_int (sint s)))]"
  have "json_wf (JNum (format_int (sint s))) 1" by (simp add: read_number_format_int)
  then have "reads_as 1 (marshal (JNum (format_int (sint s)))) (JNum (format_int (sint s)))"
    using reads_back_all [of "JNum (format_int (sint s))"] unfolding reads_back_def by blast
  moreover have "valid_utf8 ''event_type''" "valid_utf8 ''ledger''" "valid_utf8 ''payload_hash''"
    "valid_utf8 ''prev_entry_hash''" "valid_utf8 ''sequence''" by (rule ascii_valid; simp)+
  ultimately have "\<forall>x \<in> set ?ps. entry_reads (Suc 0) x"
    by (simp add: entry_reads_def reads_as_coerced del: valid_utf8.simps(2) marshal.simps)
  then have "reads_as 0 (CHR ''{'' # commas (map entry_string ?ps) @ ''}'') (JObj (map_of_members (map entry_value ?ps)))"
    by (rule reads_as_object) (simp add: max_depth_def)
  moreover have "CHR ''{'' # commas (map entry_string ?ps) @ ''}'' = entry_preimage s l e p q"
    unfolding entry_preimage_def entry_object_eq marshal_JObj by simp
  ultimately have "reads_as 0 (entry_preimage s l e p q) (entry_object s (coerce_utf8 l) (coerce_utf8 e) (coerce_utf8 p) (coerce_utf8 q))"
    by (simp add: entry_object_def)
  from reads_asD [OF this, of "[]" "Suc (2 * length (entry_preimage s l e p q))"] show ?thesis
    by (simp add: json_decode_def follows_def entry_object_eq del: pval.simps)
qed

lemma entry_preimage_coerced:
  assumes "entry_preimage s l e p q = entry_preimage s' l' e' p' q'"
  shows "s = s' \<and> map coerce_utf8 [l, e, p, q] = map coerce_utf8 [l', e', p', q']"
proof -
  have "entry_object s (coerce_utf8 l) (coerce_utf8 e) (coerce_utf8 p) (coerce_utf8 q)
      = entry_object s' (coerce_utf8 l') (coerce_utf8 e') (coerce_utf8 p') (coerce_utf8 q')"
    using arg_cong [OF assms, of json_decode] by (simp add: entry_preimage_reads)
  then show ?thesis using decimal64.enc_inj [OF TrueI TrueI, of s s'] by (simp add: entry_object_eq)
qed

lemma entry_preimage_eqD:
  assumes "valid_utf8 l" "valid_utf8 e" "valid_utf8 p" "valid_utf8 q"
    and "valid_utf8 l'" "valid_utf8 e'" "valid_utf8 p'" "valid_utf8 q'"
    and "entry_preimage s l e p q = entry_preimage s' l' e' p' q'"
  shows "s = s' \<and> l = l' \<and> e = e' \<and> p = p' \<and> q = q'"
  using entry_preimage_coerced [OF assms(9)] assms(1-8) by (simp add: coerce_utf8_valid)

subsection \<open>Properties\<close>

text \<open>C27. Canonicalisation is a normal form of the decoded value: a canonical text is its own
  canonical form and decodes to what the input decodes to, and two inputs have the same canonical
  text exactly when they decode to the same value, whatever their key order and white space.\<close>

theorem Canonicalize_normal_form:
  assumes "Canonicalize a = Inr c" and "Canonicalize b = Inr d"
  shows "Canonicalize c = Inr c \<and> json_decode c = json_decode a \<and> (c = d \<longleftrightarrow> json_decode a = json_decode b)"
proof -
  obtain v w where v: "json_decode a = Inr v" "c = marshal v" and w: "json_decode b = Inr w" "d = marshal w"
    using assms by (auto simp: Canonicalize_Inr)
  have "json_decode c = Inr v" using v json_decode_marshal json_decode_wf by blast
  moreover have "c = d \<longleftrightarrow> v = w"
    using v w json_text.normal_eq_iff [of a v b w] by simp
  ultimately show ?thesis using v w by (simp add: Canonicalize_Inr)
qed

theorem Canonicalize_normal_form_witness:
  "Canonicalize '' [1, 2]'' = Inr ''[1,2]'' \<and> Canonicalize ''[1,2] '' = Inr ''[1,2]''
   \<and> Canonicalize ''[1,2]'' = Inr ''[1,2]'' \<and> json_decode '' [1, 2]'' = json_decode ''[1,2] ''"
proof -
  have a: "Canonicalize '' [1, 2]'' = Inr ''[1,2]''" by (simp add: json_eval)
  have b: "Canonicalize ''[1,2] '' = Inr ''[1,2]''" by (simp add: json_eval)
  from Canonicalize_normal_form [OF a b] a b show ?thesis by simp
qed

text \<open>C28. The order of an object's members does not matter: any two texts that list the same
  members with distinct keys in any order, followed by any bytes, have the same canonical text.\<close>

theorem Canonicalize_key_order:
  assumes "mset ms = mset ms'" and "distinct (map fst ms)"
    and "\<forall>p \<in> set ms. json_wf (snd p) 1 \<and> valid_utf8 (fst p)"
  shows "Canonicalize (CHR ''{'' # commas (map member_text ms) @ CHR ''}'' # t) =
         Canonicalize (CHR ''{'' # commas (map member_text ms') @ CHR ''}'' # t')"
  using assms map_of_members_perm [OF assms(1,2)] mset_eq_setD [OF assms(1)]
  by (simp add: Canonicalize_members)

theorem Canonicalize_key_order_witness:
  "Canonicalize (CHR ''{'' # commas (map member_text [(''b'', JNum ''1''), (''a'', JBool True)]) @ CHR ''}'' # '' '') =
   Canonicalize (CHR ''{'' # commas (map member_text [(''a'', JBool True), (''b'', JNum ''1'')]) @ CHR ''}'' # [])"
proof (rule Canonicalize_key_order)
  show "\<forall>p \<in> set [(''b'', JNum ''1''), (''a'', JBool True)]. json_wf (snd p) 1 \<and> valid_utf8 (fst p)"
    by (simp add: json_eval)
qed simp_all

text \<open>\<open>Canonicalize\<close>, and with it \<open>PayloadHash\<close>, accepts every text that starts with a JSON
  object and ignores the rest, so input that is not valid JSON is hashed without an error.\<close>

theorem Canonicalize_ignores_trailing_bytes:
  assumes "json_wf v 0" and "\<forall>n. v \<noteq> JNum n"
  shows "Canonicalize (marshal v @ t) = Canonicalize (marshal v)
       \<and> PayloadHash (marshal v @ t) = Inr (sha256Hex (marshal v))"
proof -
  have "json_decode (marshal v @ t) = Inr v"
    using reads_backD [OF reads_back_all assms(1), of t "Suc (2 * length (marshal v @ t))"] assms(2)
    by (simp add: json_decode_def follows_def)
  then show ?thesis
    using json_decode_marshal [OF assms(1)] by (simp add: Canonicalize_eq PayloadHash_def sha256Hex_def)
qed

theorem Canonicalize_ignores_trailing_bytes_witness:
  "PayloadHash ''[1]garbage'' = Inr (sha256Hex ''[1]'')"
  using Canonicalize_ignores_trailing_bytes [of "JArr [JNum ''1'']" "''garbage''"] by (simp add: json_eval)

text \<open>C29. \<open>PayloadHash\<close> separates logical payloads: unless the two canonical texts collide under
  SHA-256, equal hashes mean that the payloads decode to the same JSON value.\<close>

theorem PayloadHash_separates:
  assumes "PayloadHash a = Inr h" and "PayloadHash b = Inr h"
    and "inj_on sha256 {c. Canonicalize a = Inr c \<or> Canonicalize b = Inr c}"
  shows "json_decode a = json_decode b"
proof -
  obtain c d where c: "Canonicalize a = Inr c" and d: "Canonicalize b = Inr d"
    and "sha256 c = sha256 d"
    using assms(1,2) by (auto simp: PayloadHash_def split: sum.splits)
  then have "c = d" using assms(3) by (auto dest: inj_onD)
  then show ?thesis using json_decode_canonical [OF c] json_decode_canonical [OF d] by simp
qed

theorem PayloadHash_separates_witness:
  "json_decode '' [1, 2]'' = json_decode ''[1,2] ''"
proof (rule PayloadHash_separates)
  have a: "Canonicalize '' [1, 2]'' = Inr ''[1,2]''" by (simp add: json_eval)
  have b: "Canonicalize ''[1,2] '' = Inr ''[1,2]''" by (simp add: json_eval)
  show "PayloadHash '' [1, 2]'' = Inr (sha256Hex ''[1,2]'')" by (simp add: PayloadHash_def sha256Hex_def a)
  show "PayloadHash ''[1,2] '' = Inr (sha256Hex ''[1,2]'')" by (simp add: PayloadHash_def sha256Hex_def b)
  show "inj_on sha256 {c. Canonicalize '' [1, 2]'' = Inr c \<or> Canonicalize ''[1,2] '' = Inr c}"
    unfolding a b by (auto simp: inj_on_def)
qed

text \<open>C22. The preimage of an entry hash determines the sequence number, and the four text fields up to bytes that
  are not UTF-8, which \<open>json.Marshal\<close> replaces by U+FFFD: \<open>coerce_utf8\<close> of each field can be recovered. So two entries
  whose fields are valid UTF-8, as those of a protobuf message are, have the same preimage only if
  they agree in all five fields, whatever else these contain (quotes, commas, another field's name).\<close>

theorem entry_preimage_injective:
  shows "(entry_preimage s l e p q = entry_preimage s' l' e' p' q' \<longrightarrow>
      s = s' \<and> map coerce_utf8 [l, e, p, q] = map coerce_utf8 [l', e', p', q'])
    \<and> (list_all valid_utf8 [l, e, p, q, l', e', p', q'] \<longrightarrow>
        (entry_preimage s l e p q = entry_preimage s' l' e' p' q' \<longleftrightarrow> s = s' \<and> l = l' \<and> e = e' \<and> p = p' \<and> q = q'))"
  using entry_preimage_coerced [of s l e p q s' l' e' p' q'] by (auto simp: coerce_utf8_valid)

text \<open>Quotes and commas in a field do not make it run into the next one; the first part at two entries that differ in
  an invalid byte.\<close>

theorem entry_preimage_injective_witness:
  "entry_preimage 1 ''a'' [CHR 0x22, CHR 0x2C] [] [] \<noteq> entry_preimage 1 [CHR ''a'', CHR 0x22] [CHR 0x2C] [] []
    \<and> entry_preimage 1 ''a'' [CHR 0xFF] [] [] = entry_preimage 1 ''a'' [CHR 0xFE] [] []
    \<and> coerce_utf8 [CHR 0xFF] = coerce_utf8 [CHR 0xFE]"
proof (intro conjI)
  show "entry_preimage 1 ''a'' [CHR 0x22, CHR 0x2C] [] [] \<noteq> entry_preimage 1 [CHR ''a'', CHR 0x22] [CHR 0x2C] [] []"
    using entry_preimage_injective [where l = "''a''" and e = "[CHR 0x22, CHR 0x2C]" and p = "[]" and q = "[]"
        and l' = "[CHR ''a'', CHR 0x22]" and e' = "[CHR 0x2C]" and p' = "[]" and q' = "[]" and s = 1 and s' = 1]
    by (simp add: json_eval)
  show same: "entry_preimage 1 ''a'' [CHR 0xFF] [] [] = entry_preimage 1 ''a'' [CHR 0xFE] [] []"
    by (simp add: entry_preimage_def entry_object_eq json_eval)
  show "coerce_utf8 [CHR 0xFF] = coerce_utf8 [CHR 0xFE]"
    using entry_preimage_injective [where l = "''a''" and e = "[CHR 0xFF]" and p = "[]" and q = "[]"
        and l' = "''a''" and e' = "[CHR 0xFE]" and p' = "[]" and q' = "[]" and s = 1 and s' = 1] same
    by simp
qed

text \<open>Number literals are not normalised, and \<open><\<close> is escaped: the output is not the RFC 8785
  form the comments promise, and equal numbers in two spellings give two canonical texts.\<close>

theorem Canonicalize_not_RFC8785:
  "Canonicalize ''1'' = Inr ''1'' \<and> Canonicalize ''1.0'' = Inr ''1.0''
   \<and> Canonicalize [CHR 0x22, CHR ''<'', CHR 0x22] = Inr (CHR 0x22 # CHR 0x5C # ''u003c'' @ [CHR 0x22])"
proof (intro conjI)
  show "Canonicalize ''1'' = Inr ''1''" by (simp add: json_eval)
  show "Canonicalize ''1.0'' = Inr ''1.0''" by (simp add: json_eval)
  show "Canonicalize [CHR 0x22, CHR ''<'', CHR 0x22] = Inr (CHR 0x22 # CHR 0x5C # ''u003c'' @ [CHR 0x22])"
    by (simp add: json_eval)
qed

end
