(* ===== verification/Database.thy ===== *)
theory Database
  imports Canonical Raw_Json Go_Time
begin

section \<open>The Postgres tables and the statements on them\<close>

text \<open>
  The three tables of \<^verbatim>\<open>migrations/\<close> as lists of records and a map on the primary key of
  \<^verbatim>\<open>audit_ledgers\<close>, and the SQL statements of the steps as functions on them. The server itself is a
  parameter: a record \<open>pg\<close> says which statement fails and how (a lost connection, a lock timeout, a
  string too long for its column), how many rows of a result arrive before an iteration breaks off,
  what \<^verbatim>\<open>NOW()\<close> and \<^verbatim>\<open>nextval\<close> return, which texts the type JSONB refuses, and how it normalises the others.
  The \<^verbatim>\<open>PRIMARY KEY\<close>, \<^verbatim>\<open>UNIQUE\<close> and nullability constraints are checked by the statements. Strings are stored as they are
  sent: that Postgres cuts off the spaces by which a value exceeds its \<^verbatim>\<open>VARCHAR\<close> is not modelled.
\<close>

record log_row =
  log_id :: int64
  log_sequence :: int64
  log_ledger :: string
  log_event_type :: string
  log_payload :: bytes
  log_payload_hash :: string
  log_prev_entry_hash :: string
  log_entry_hash :: string
  log_created_at :: go_time
  log_actor :: "string option"
  log_metadata :: "bytes option"

record ledger_row =
  last_sequence :: int64
  last_entry_hash :: string
  ledger_description :: "string option"
  anchor_provider_names :: "string list option"
  anchor_schedule :: "string option"

record anchor_row =
  anchor_id :: int64
  anchor_ledger :: string
  range_start :: int64
  range_end :: int64
  anchor_merkle_root :: string
  anchor_provider :: string
  anchor_external_id :: "string option"
  anchor_proof_data :: "bytes option"
  anchor_confirmation :: string
  anchor_anchored_at :: go_time
  confirmed_at :: "go_time option"
  finalized_at :: "go_time option"

record database =
  audit_log :: "log_row list"
  audit_ledgers :: "string \<Rightarrow> ledger_row option"
  audit_anchors :: "anchor_row list"

text \<open>The statements the code sends, by the place that sends them; a loop numbers its statements.\<close>

datatype stmt =
    BeginTx | SetLockTimeout | LockLedger | InsertLog | UpdateLedger | CommitTx
  | SelectChain | SelectRange | SelectLast | SelectAnchored | InsertAnchor nat
  | SelectEntry | SelectCovering | SelectHashes
  | SelectConfirmation | UpdateConfirmation

record pg =
  pg_fault :: "stmt \<Rightarrow> go_error option"
  pg_rows_fault :: "stmt \<Rightarrow> (nat \<times> go_error) option"
  pg_scan_fault :: "stmt \<Rightarrow> nat \<Rightarrow> go_error option"
  pg_commit_lost :: bool
  pg_now :: go_time
  pg_nextval :: "stmt \<Rightarrow> int64"
  pg_json_error :: "bytes \<Rightarrow> go_error option"
  pg_jsonb :: "bytes \<Rightarrow> bytes"

text \<open>A server that answers every statement.\<close>

definition healthy :: "pg \<Rightarrow> bool" where
  "healthy pg \<longleftrightarrow> (\<forall>s. pg_fault pg s = None) \<and> (\<forall>s. pg_rows_fault pg s = None)
     \<and> (\<forall>s i. pg_scan_fault pg s i = None)"

text \<open>JSONB takes the texts of a JSON value only (what else it refuses, as \<^verbatim>\<open>\u0000\<close>, is left open).\<close>

definition jsonb_strict :: "pg \<Rightarrow> bool" where
  "jsonb_strict pg \<longleftrightarrow> (\<forall>d. pg_json_error pg d = None \<longrightarrow> whole_value d \<noteq> None)"

definition steady_pg :: pg where
  "steady_pg =
     \<lparr>pg_fault = \<lambda>s. None, pg_rows_fault = \<lambda>s. None, pg_scan_fault = \<lambda>s i. None, pg_commit_lost = False,
      pg_now = 0, pg_nextval = (\<lambda>s. 1),
      pg_json_error = (\<lambda>d. if whole_value d = None then Some (Sentinel ''invalid input syntax for type json'') else None),
      pg_jsonb = (\<lambda>d. d)\<rparr>"

lemma healthy_steady [simp]: "healthy steady_pg"
  by (simp add: healthy_def steady_pg_def)

lemma steady_pg_simps [simp]:
  "pg_fault steady_pg s = None" "pg_rows_fault steady_pg s = None" "pg_scan_fault steady_pg s i = None"
  "pg_nextval steady_pg s = 1" "pg_now steady_pg = 0" "pg_jsonb steady_pg x = x" "\<not> pg_commit_lost steady_pg"
  "pg_json_error steady_pg x = (if whole_value x = None then Some (Sentinel ''invalid input syntax for type json'') else None)"
  by (simp_all add: steady_pg_def)

lemma jsonb_strict_steady [simp]: "jsonb_strict steady_pg"
  by (simp add: jsonb_strict_def)

lemma healthyD:
  "healthy pg \<Longrightarrow> pg_fault pg s = None" "healthy pg \<Longrightarrow> pg_rows_fault pg s = None"
  "healthy pg \<Longrightarrow> pg_scan_fault pg s i = None"
  by (simp_all add: healthy_def)

subsection \<open>Go values and columns\<close>

text \<open>Scanning a nullable column into a Go \<open>string\<close> fails on NULL; into a \<open>[]byte\<close> it does not.\<close>

definition null_scan :: go_error where
  "null_scan = Sentinel ''sql: Scan error: converting NULL to string is unsupported''"

definition scan_string :: "string option \<Rightarrow> string result" where
  "scan_string c = (case c of None \<Rightarrow> Inl null_scan | Some s \<Rightarrow> Inr s)"

definition no_rows :: go_error where
  "no_rows = Sentinel ''sql: no rows in result set''"

definition unique_violation :: "string \<Rightarrow> go_error" where
  "unique_violation index = Sentinel (''duplicate key value violates unique constraint '' @ index)"

subsection \<open>Queries\<close>

text \<open>\<open>SELECT \<dots> FROM audit_log WHERE ledger = l AND P sequence ORDER BY sequence\<close>.\<close>

definition seq_of :: "log_row \<Rightarrow> int" where
  "seq_of r = sint (log_sequence r)"

definition ledger_rows :: "database \<Rightarrow> string \<Rightarrow> log_row list" where
  "ledger_rows db l = filter (\<lambda>r. log_ledger r = l) (audit_log db)"

definition select_log :: "database \<Rightarrow> string \<Rightarrow> (int \<Rightarrow> bool) \<Rightarrow> log_row list" where
  "select_log db l P = sort_key seq_of (filter (\<lambda>r. P (seq_of r)) (ledger_rows db l))"

text \<open>The rows of a \<open>Query\<close> as the driver delivers them: all of them, or some and then an error that
  \<open>rows.Err\<close> reports.\<close>

definition query_rows :: "pg \<Rightarrow> stmt \<Rightarrow> 'r list \<Rightarrow> ('r list \<times> go_error option) result" where
  "query_rows pg s rows =
     (case pg_fault pg s of
        Some e \<Rightarrow> Inl e
      | None \<Rightarrow> Inr (case pg_rows_fault pg s of
                       None \<Rightarrow> (rows, None)
                     | Some (k, e) \<Rightarrow> (take k rows, Some e)))"

text \<open>\<open>QueryRow\<close> with \<open>Scan\<close>: the first row, or \<open>sql.ErrNoRows\<close>.\<close>

definition query_row :: "pg \<Rightarrow> stmt \<Rightarrow> 'r list \<Rightarrow> 'r result" where
  "query_row pg s rows =
     (case pg_fault pg s of
        Some e \<Rightarrow> Inl e
      | None \<Rightarrow> (case rows of [] \<Rightarrow> Inl no_rows | r # rs \<Rightarrow>
          (case pg_scan_fault pg s 0 of Some e \<Rightarrow> Inl e | None \<Rightarrow> Inr r)))"

text \<open>The loop \<open>for rows.Next() { \<dots> }\<close>: each row is scanned and handled, until the handler
  returns or the rows end.\<close>

datatype ('s, 'o) flow = Next 's | Return 'o

fun for_rows :: "(nat \<Rightarrow> 's \<Rightarrow> 'r \<Rightarrow> ('s, 'o) flow) \<Rightarrow> nat \<Rightarrow> 's \<Rightarrow> 'r list \<Rightarrow> ('s, 'o) flow" where
  "for_rows body i s [] = Next s"
| "for_rows body i s (r # rs) =
     (case body i s r of Return out \<Rightarrow> Return out | Next s' \<Rightarrow> for_rows body (Suc i) s' rs)"

lemma for_rows_append:
  "for_rows body i s (rs @ ts) =
     (case for_rows body i s rs of Return out \<Rightarrow> Return out | Next s' \<Rightarrow> for_rows body (i + length rs) s' ts)"
  by (induction rs arbitrary: i s) (simp_all split: flow.split)

text \<open>A loop whose body collects what it scans.\<close>

lemma for_rows_collect:
  assumes "\<And>i s r. body i s r = Next (s @ [f r])"
  shows "for_rows body i s rs = Next (s @ map f rs)"
  using assms by (induction rs arbitrary: i s) simp_all

lemma query_rows_healthy: "healthy pg \<Longrightarrow> query_rows pg s rows = Inr (rows, None)"
  by (simp add: query_rows_def healthyD)

lemma query_row_healthy: "healthy pg \<Longrightarrow> query_row pg s (r # rs) = Inr r"
  by (simp add: query_row_def healthyD)

lemma query_rows_InrD:
  "query_rows pg s rows = Inr (delivered, e) \<Longrightarrow> (\<exists>k. delivered = take k rows) \<and> (e = None \<longrightarrow> delivered = rows)"
  by (auto simp: query_rows_def split: option.splits) (metis take_all_iff nle_le)

lemma query_row_InrD: "query_row pg s rows = Inr r \<Longrightarrow> \<exists>rs. rows = r # rs"
  by (auto simp: query_row_def split: option.splits list.splits)

text \<open>A loop that appends what it scans to a slice and gives up at the first row it cannot scan.\<close>

definition scan_body ::
  "pg \<Rightarrow> stmt \<Rightarrow> ('r \<Rightarrow> 'a result) \<Rightarrow> nat \<Rightarrow> 'a list \<Rightarrow> 'r \<Rightarrow> ('a list, go_error) flow" where
  "scan_body pg s scan i acc r =
     (case pg_scan_fault pg s i of
        Some e \<Rightarrow> Return e
      | None \<Rightarrow> (case scan r of Inl e \<Rightarrow> Return e | Inr x \<Rightarrow> Next (acc @ [x])))"

definition scan_all :: "pg \<Rightarrow> stmt \<Rightarrow> ('r \<Rightarrow> 'a result) \<Rightarrow> 'r list \<Rightarrow> 'a list result" where
  "scan_all pg s scan rows =
     (case for_rows (scan_body pg s scan) 0 [] rows of Return e \<Rightarrow> Inl e | Next xs \<Rightarrow> Inr xs)"

lemma scan_loop:
  "for_rows (scan_body pg s scan) i acc rows = Next xs \<Longrightarrow>
     \<exists>ys. xs = acc @ ys \<and> map scan rows = map Inr ys"
proof (induction rows arbitrary: i acc)
  case (Cons r rs)
  then obtain st where st: "scan_body pg s scan i acc r = Next st" "for_rows (scan_body pg s scan) (Suc i) st rs = Next xs"
    by (auto split: flow.splits)
  then obtain x where "scan r = Inr x" "st = acc @ [x]"
    by (auto simp: scan_body_def split: option.splits sum.splits)
  with Cons.IH [OF st(2)] show ?case by auto
qed simp

lemma scan_all_InrD: "scan_all pg s scan rows = Inr xs \<Longrightarrow> map scan rows = map Inr xs"
  using scan_loop [of pg s scan 0 "[]" rows xs] by (auto simp: scan_all_def split: flow.splits)

lemma scan_all_healthy:
  assumes "healthy pg" and "\<forall>r \<in> set rows. scan r = Inr (f r)"
  shows "scan_all pg s scan rows = Inr (map f rows)"
proof -
  have "for_rows (scan_body pg s scan) i acc rows = Next (acc @ map f rows)" for i acc
    using assms(2) by (induction rows arbitrary: i acc) (simp_all add: scan_body_def healthyD [OF assms(1)])
  then show ?thesis by (simp add: scan_all_def)
qed

lemma scan_all_total: "scan_all pg s (\<lambda>r. Inr (f r)) rows = Inr xs \<Longrightarrow> xs = map f rows"
proof -
  assume "scan_all pg s (\<lambda>r. Inr (f r)) rows = Inr xs"
  from scan_all_InrD [OF this] have "map Inr (map f rows) = (map Inr xs :: (go_error + 'a) list)"
    by (simp add: comp_def)
  then have "map f rows = xs" by (simp only: inj_map_eq_map inj_Inr)
  then show "xs = map f rows" ..
qed

subsection \<open>Statements that write\<close>

text \<open>The first of the JSONB arguments of a statement that the server refuses.\<close>

fun jsonb_refusal :: "pg \<Rightarrow> bytes list \<Rightarrow> go_error option" where
  "jsonb_refusal pg [] = None"
| "jsonb_refusal pg (d # ds) = (case pg_json_error pg d of Some e \<Rightarrow> Some e | None \<Rightarrow> jsonb_refusal pg ds)"

lemma jsonb_refusal_None: "jsonb_refusal pg docs = None \<longleftrightarrow> (\<forall>d \<in> set docs. pg_json_error pg d = None)"
  by (induction docs) (simp_all split: option.split)

text \<open>The row \<open>r\<close> is what the statement would store; \<open>docs\<close> are its JSONB arguments as they are sent.\<close>

definition insert_log :: "pg \<Rightarrow> database \<Rightarrow> bytes list \<Rightarrow> log_row \<Rightarrow> database result" where
  "insert_log pg db docs r =
     (case pg_fault pg InsertLog of
        Some e \<Rightarrow> Inl e
      | None \<Rightarrow>
     (case jsonb_refusal pg docs of
        Some e \<Rightarrow> Inl e
      | None \<Rightarrow>
          if log_id r \<in> log_id ` set (audit_log db) then Inl (unique_violation ''audit_log_pkey'')
          else if (log_ledger r, log_sequence r) \<in> (\<lambda>q. (log_ledger q, log_sequence q)) ` set (audit_log db)
          then Inl (unique_violation ''idx_audit_log_ledger_seq'')
          else Inr (db\<lparr>audit_log := audit_log db @ [r]\<rparr>)))"

definition update_ledger :: "pg \<Rightarrow> database \<Rightarrow> string \<Rightarrow> int64 \<Rightarrow> string \<Rightarrow> database result" where
  "update_ledger pg db l seq hash =
     (case pg_fault pg UpdateLedger of
        Some e \<Rightarrow> Inl e
      | None \<Rightarrow> Inr (db\<lparr>audit_ledgers :=
          (\<lambda>k. if k = l then map_option (\<lambda>c. c\<lparr>last_sequence := seq, last_entry_hash := hash\<rparr>) (audit_ledgers db l)
               else audit_ledgers db k)\<rparr>))"

end
