(* ===== verification/Append.thy ===== *)
theory Append
  imports Database
begin

section \<open>Appending to a ledger\<close>

text \<open>
  \<^verbatim>\<open>chain/append.go\<close>: \<open>AppendTx\<close> inside a caller's transaction and \<open>Append\<close> with a transaction of its
  own. \<open>chain_ok\<close> is what the module promises of a ledger: its rows are numbered from 1 without gaps,
  each carries the hash of the one before and a hash derived from its own fields, and the cursor in
  \<^verbatim>\<open>audit_ledgers\<close> names the last one. The properties say that every outcome of an append keeps it,
  what an append that returns has done, when it returns, and that two ledgers which end in the same
  hash have the same history unless SHA-256 collides on messages the code hashed.
\<close>

subsection \<open>The code\<close>

definition cursor_rows :: "database \<Rightarrow> string \<Rightarrow> ledger_row list" where
  "cursor_rows db ledger = (case audit_ledgers db ledger of None \<Rightarrow> [] | Some c \<Rightarrow> [c])"

text \<open>The row of the INSERT statement.\<close>

definition new_row ::
  "pg \<Rightarrow> ledger_row \<Rightarrow> string \<Rightarrow> string \<Rightarrow> bytes \<Rightarrow> string \<Rightarrow> bytes option \<Rightarrow> string \<Rightarrow> log_row" where
  "new_row pg c ledger event_type payload payload_hash metadata actor =
     (let seq = last_sequence c + 1
      in \<lparr>log_id = pg_nextval pg InsertLog, log_sequence = seq, log_ledger = ledger,
          log_event_type = event_type, log_payload = pg_jsonb pg payload, log_payload_hash = payload_hash,
          log_prev_entry_hash = last_entry_hash c,
          log_entry_hash = EntryHash seq ledger event_type payload_hash (last_entry_hash c),
          log_created_at = pg_now pg, log_actor = Some actor,
          log_metadata = map_option (pg_jsonb pg) metadata\<rparr>)"

definition jsonb_args :: "bytes \<Rightarrow> bytes option \<Rightarrow> bytes list" where
  "jsonb_args payload metadata = payload # (case metadata of None \<Rightarrow> [] | Some d \<Rightarrow> [d])"

definition AppendTx ::
  "pg \<Rightarrow> database \<Rightarrow> string \<Rightarrow> string \<Rightarrow> bytes \<Rightarrow> bytes option \<Rightarrow> string
    \<Rightarrow> database \<times> (int64 \<times> string \<times> go_time) result" where
  "AppendTx pg db ledger event_type payload metadata actor =
     (case pg_fault pg SetLockTimeout of
        Some e \<Rightarrow> (db, Inl (Errorf ''chain.AppendTx: set lock_timeout: %w'' [ArgE e]))
      | None \<Rightarrow>
     (case query_row pg LockLedger (cursor_rows db ledger) of
        Inl e \<Rightarrow>
          (db, Inl (if e = no_rows then Errorf ''chain.AppendTx: unknown ledger %q'' [ArgS ledger]
                    else Errorf ''chain.AppendTx: lock ledger: %w'' [ArgE e]))
      | Inr c \<Rightarrow>
     (case PayloadHash payload of
        Inl e \<Rightarrow> (db, Inl (Errorf ''chain.AppendTx: %w'' [ArgE e]))
      | Inr payload_hash \<Rightarrow>
          let r = new_row pg c ledger event_type payload payload_hash metadata actor in
     (case insert_log pg db (jsonb_args payload metadata) r of
        Inl e \<Rightarrow> (db, Inl (Errorf ''chain.AppendTx: insert audit_log: %w'' [ArgE e]))
      | Inr db1 \<Rightarrow>
     (case pg_scan_fault pg InsertLog 0 of
        Some e \<Rightarrow> (db1, Inl (Errorf ''chain.AppendTx: insert audit_log: %w'' [ArgE e]))
      | None \<Rightarrow>
     (case update_ledger pg db1 ledger (log_sequence r) (log_entry_hash r) of
        Inl e \<Rightarrow> (db1, Inl (Errorf ''chain.AppendTx: update audit_ledgers: %w'' [ArgE e]))
      | Inr db2 \<Rightarrow> (db2, Inr (log_sequence r, log_entry_hash r, log_created_at r))))))))"

text \<open>A rollback gives the database of the transaction's start. When a commit fails, the server may
  nevertheless have applied it (\<open>pg_commit_lost\<close>).\<close>

definition Append ::
  "pg \<Rightarrow> database \<Rightarrow> string \<Rightarrow> string \<Rightarrow> bytes \<Rightarrow> bytes option \<Rightarrow> string
    \<Rightarrow> database \<times> (int64 \<times> string \<times> go_time) result" where
  "Append pg db ledger event_type payload metadata actor =
     (case pg_fault pg BeginTx of
        Some e \<Rightarrow> (db, Inl (Errorf ''chain.Append: begin tx: %w'' [ArgE e]))
      | None \<Rightarrow>
     (case AppendTx pg db ledger event_type payload metadata actor of
        (db', Inl e) \<Rightarrow> (db, Inl e)
      | (db', Inr v) \<Rightarrow>
     (case pg_fault pg CommitTx of
        Some e \<Rightarrow> (if pg_commit_lost pg then db' else db, Inl (Errorf ''chain.Append: commit: %w'' [ArgE e]))
      | None \<Rightarrow> (db', Inr v))))"

subsection \<open>What a ledger promises\<close>

definition linked :: "string \<Rightarrow> string \<Rightarrow> log_row \<Rightarrow> bool" where
  "linked l prev r \<longleftrightarrow> log_prev_entry_hash r = prev
     \<and> log_entry_hash r = EntryHash (log_sequence r) l (log_event_type r) (log_payload_hash r) prev"

fun chain_from :: "string \<Rightarrow> int \<Rightarrow> string \<Rightarrow> log_row list \<Rightarrow> bool" where
  "chain_from l n prev [] = True"
| "chain_from l n prev (r # rs) =
     (seq_of r = n + 1 \<and> linked l prev r \<and> chain_from l (n + 1) (log_entry_hash r) rs)"

definition head_hash :: "string \<Rightarrow> log_row list \<Rightarrow> string" where
  "head_hash prev rs = (if rs = [] then prev else log_entry_hash (last rs))"

definition chain_ok :: "database \<Rightarrow> string \<Rightarrow> bool" where
  "chain_ok db l \<longleftrightarrow> chain_from l 0 [] (ledger_rows db l) \<and>
     (case audit_ledgers db l of
        None \<Rightarrow> ledger_rows db l = []
      | Some c \<Rightarrow> sint (last_sequence c) = int (length (ledger_rows db l))
                 \<and> last_entry_hash c = head_hash [] (ledger_rows db l))"

lemma chain_from_append:
  "chain_from l n prev (rs @ ts) \<longleftrightarrow> chain_from l n prev rs
     \<and> chain_from l (n + int (length rs)) (head_hash prev rs) ts"
  by (induction rs arbitrary: n prev) (auto simp: head_hash_def algebra_simps)

lemma chain_from_nth: "chain_from l n prev rs \<Longrightarrow> i < length rs \<Longrightarrow> seq_of (rs ! i) = n + 1 + int i"
proof (induction rs arbitrary: n prev i)
  case (Cons r rs)
  then show ?case by (cases i) auto
qed simp

lemma chain_from_seqs: "chain_from l n prev rs \<Longrightarrow> map seq_of rs = [n + 1 .. n + int (length rs)]"
  by (rule nth_equalityI) (simp_all add: chain_from_nth)

lemma chain_from_sorted: "chain_from l n prev rs \<Longrightarrow> sorted_wrt (<) (map seq_of rs)"
  by (simp add: chain_from_seqs)

text \<open>Under the invariant, the order by sequence is the order of insertion.\<close>

lemma select_log_chain:
  assumes "chain_from l n prev (ledger_rows db l)"
  shows "select_log db l P = filter (\<lambda>r. P (seq_of r)) (ledger_rows db l)"
proof -
  have "sorted (map seq_of (ledger_rows db l))"
    using chain_from_sorted [OF assms] by (rule strict_sorted_imp_sorted)
  then have "sorted (map seq_of (filter (\<lambda>r. P (seq_of r)) (ledger_rows db l)))"
    by (rule sorted_filter)
  then show ?thesis by (simp add: select_log_def sort_key_id_if_sorted)
qed

lemma chain_ok_select: "chain_ok db l \<Longrightarrow> select_log db l P = filter (\<lambda>r. P (seq_of r)) (ledger_rows db l)"
  using select_log_chain by (auto simp: chain_ok_def)

subsection \<open>The effect of an append\<close>

definition add_entry :: "database \<Rightarrow> ledger_row \<Rightarrow> log_row \<Rightarrow> database" where
  "add_entry db c r = db\<lparr>audit_log := audit_log db @ [r],
     audit_ledgers := (audit_ledgers db)(log_ledger r \<mapsto> c\<lparr>last_sequence := log_sequence r, last_entry_hash := log_entry_hash r\<rparr>)\<rparr>"

lemma cursor_rows_Cons [simp]: "cursor_rows db l = c # cs \<longleftrightarrow> audit_ledgers db l = Some c \<and> cs = []"
  by (auto simp: cursor_rows_def split: option.split)

lemma new_row_simps [simp]:
  "log_ledger (new_row pg c l e p ph m a) = l"
  "log_sequence (new_row pg c l e p ph m a) = last_sequence c + 1"
  "log_event_type (new_row pg c l e p ph m a) = e"
  "log_payload_hash (new_row pg c l e p ph m a) = ph"
  "log_prev_entry_hash (new_row pg c l e p ph m a) = last_entry_hash c"
  "log_entry_hash (new_row pg c l e p ph m a) = EntryHash (last_sequence c + 1) l e ph (last_entry_hash c)"
  "log_created_at (new_row pg c l e p ph m a) = pg_now pg"
  "log_actor (new_row pg c l e p ph m a) = Some a"
  "log_payload (new_row pg c l e p ph m a) = pg_jsonb pg p"
  "log_id (new_row pg c l e p ph m a) = pg_nextval pg InsertLog"
  "log_metadata (new_row pg c l e p ph m a) = map_option (pg_jsonb pg) m"
  by (simp_all add: new_row_def Let_def)

lemma AppendTx_InrD:
  assumes "AppendTx pg db l e p m a = (db', Inr (seq, h, t))"
  obtains c ph where "audit_ledgers db l = Some c" "PayloadHash p = Inr ph"
    "db' = add_entry db c (new_row pg c l e p ph m a)"
    "(l, last_sequence c + 1) \<notin> (\<lambda>q. (log_ledger q, log_sequence q)) ` set (audit_log db)"
    "seq = last_sequence c + 1" "h = EntryHash seq l e ph (last_entry_hash c)" "t = pg_now pg"
    "jsonb_refusal pg (jsonb_args p m) = None"
  using assms
  by (auto simp: AppendTx_def insert_log_def update_ledger_def add_entry_def Let_def fun_eq_iff
      dest!: query_row_InrD split: option.splits sum.splits if_splits intro!: database.equality)

lemma Append_cases:
  assumes "Append pg db l e p m a = (db', res)"
  obtains (unchanged) err where "db' = db" "res = Inl err"
  | (lost) err v where "pg_commit_lost pg" "AppendTx pg db l e p m a = (db', Inr v)"
      "res = Inl (Errorf ''chain.Append: commit: %w'' [ArgE err])"
  | (committed) v where "AppendTx pg db l e p m a = (db', Inr v)" "res = Inr v"
  using assms by (auto simp: Append_def split: option.splits prod.splits sum.splits if_splits)

lemma ledger_rows_add_entry:
  "ledger_rows (add_entry db c r) k = ledger_rows db k @ (if log_ledger r = k then [r] else [])"
  by (simp add: ledger_rows_def add_entry_def)

lemma audit_ledgers_add_entry [simp]:
  "audit_ledgers (add_entry db c r) = (audit_ledgers db)(log_ledger r \<mapsto>
     c\<lparr>last_sequence := log_sequence r, last_entry_hash := log_entry_hash r\<rparr>)"
  "audit_anchors (add_entry db c r) = audit_anchors db"
  "audit_log (add_entry db c r) = audit_log db @ [r]"
  by (simp_all add: add_entry_def)

lemma head_hash_simps [simp]: "head_hash prev [] = prev" "head_hash prev (rs @ [r]) = log_entry_hash r"
  by (simp_all add: head_hash_def)

lemma sint_succ: "sint (w :: int64) < int64_max \<Longrightarrow> sint (w + 1) = sint w + 1"
proof -
  assume a: "sint w < int64_max"
  have "sint (w + 1) = signed_take_bit 63 (sint w + 1)" by (simp add: sint_word_ariths)
  also have "\<dots> = sint w + 1"
    using a sint_range64 [of w] by (intro signed_take_bit_int_eq_self) (simp_all add: int64_max_def)
  finally show ?thesis .
qed

lemma chain_ok_add_entry:
  assumes "chain_ok db k" and "audit_ledgers db l = Some c" and "sint (last_sequence c) < int64_max"
  shows "chain_ok (add_entry db c (new_row pg c l e p ph m a)) k"
proof (cases "k = l")
  case True
  with assms show ?thesis
    by (simp add: chain_ok_def ledger_rows_add_entry chain_from_append linked_def seq_of_def sint_succ)
next
  case False
  with assms(1) show ?thesis by (cases "audit_ledgers db k") (simp_all add: chain_ok_def ledger_rows_add_entry)
qed

lemma chain_ok_cursor:
  assumes "chain_ok db l" and "audit_ledgers db l = Some c"
  shows "sint (last_sequence c) = int (length (ledger_rows db l))"
    and "last_entry_hash c = head_hash [] (ledger_rows db l)"
  using assms by (simp_all add: chain_ok_def)

lemma next_sequence_fresh:
  assumes "chain_ok db l" and "audit_ledgers db l = Some c" and "int (length (ledger_rows db l)) < int64_max"
  shows "(l, last_sequence c + 1) \<notin> (\<lambda>q. (log_ledger q, log_sequence q)) ` set (audit_log db)"
proof
  assume "(l, last_sequence c + 1) \<in> (\<lambda>q. (log_ledger q, log_sequence q)) ` set (audit_log db)"
  then obtain q where q: "q \<in> set (ledger_rows db l)" "log_sequence q = last_sequence c + 1"
    by (auto simp: ledger_rows_def)
  have "seq_of q \<in> set (map seq_of (ledger_rows db l))" using q(1) by simp
  moreover have "map seq_of (ledger_rows db l) = [1 .. int (length (ledger_rows db l))]"
    using chain_from_seqs [of l 0 "[]" "ledger_rows db l"] assms(1) by (simp add: chain_ok_def)
  ultimately have "seq_of q \<le> int (length (ledger_rows db l))" by simp
  moreover have "seq_of q = sint (last_sequence c) + 1"
    using q(2) assms(3) chain_ok_cursor [OF assms(1,2)] by (simp add: seq_of_def sint_succ)
  ultimately show False using chain_ok_cursor [OF assms(1,2)] by simp
qed

text \<open>The hash of a row's fields, and the messages hashed for a list of rows.\<close>

definition row_preimage :: "string \<Rightarrow> log_row \<Rightarrow> bytes" where
  "row_preimage l r =
     entry_preimage (log_sequence r) l (log_event_type r) (log_payload_hash r) (log_prev_entry_hash r)"

definition chain_messages :: "string \<Rightarrow> log_row list \<Rightarrow> bytes set" where
  "chain_messages l rs = row_preimage l ` set rs"

text \<open>What an entry hash covers; the payload is covered through its hash.\<close>

definition entry_fields :: "log_row \<Rightarrow> int64 \<times> string \<times> string \<times> string \<times> string" where
  "entry_fields r =
     (log_sequence r, log_event_type r, log_payload_hash r, log_prev_entry_hash r, log_entry_hash r)"

definition text_ok :: "log_row \<Rightarrow> bool" where
  "text_ok r \<longleftrightarrow> valid_utf8 (log_event_type r) \<and> valid_utf8 (log_payload_hash r)
     \<and> valid_utf8 (log_prev_entry_hash r)"

text \<open>A stretch of a ledger: every entry hash is derived from its row, and every row but the first
  carries the hash of the row before it.\<close>

definition row_hash_ok :: "string \<Rightarrow> log_row \<Rightarrow> bool" where
  "row_hash_ok l r \<longleftrightarrow> log_entry_hash r =
     EntryHash (log_sequence r) l (log_event_type r) (log_payload_hash r) (log_prev_entry_hash r)"

definition segment_ok :: "string \<Rightarrow> log_row list \<Rightarrow> bool" where
  "segment_ok l rs \<longleftrightarrow> (\<forall>r \<in> set rs. row_hash_ok l r)
     \<and> successively (\<lambda>r t. log_prev_entry_hash t = log_entry_hash r) rs"

lemma segment_ok_Nil [simp]: "segment_ok l []"
  by (simp add: segment_ok_def)

lemma segment_ok_snoc:
  "segment_ok l (rs @ [r]) \<longleftrightarrow>
     segment_ok l rs \<and> row_hash_ok l r \<and> (rs \<noteq> [] \<longrightarrow> log_prev_entry_hash r = log_entry_hash (last rs))"
  by (auto simp: segment_ok_def successively_append_iff)

lemma segment_ok_append: "segment_ok l (rs @ ts) \<Longrightarrow> segment_ok l rs \<and> segment_ok l ts"
  by (auto simp: segment_ok_def successively_append_iff)

lemma segment_ok_take: "segment_ok l rs \<Longrightarrow> segment_ok l (take k rs)"
  using segment_ok_append [of l "take k rs" "drop k rs"] by simp

lemma chain_from_segment: "chain_from l n prev rs \<Longrightarrow> segment_ok l rs"
proof (induction rs rule: rev_induct)
  case (snoc r rs)
  then show ?case
    by (auto simp: segment_ok_snoc chain_from_append linked_def row_hash_ok_def head_hash_def)
qed simp

lemma row_binding:
  assumes "row_hash_ok l r" and "row_hash_ok l t" and "log_entry_hash r = log_entry_hash t"
    and "valid_utf8 l" and "text_ok r" and "text_ok t"
  shows "entry_fields r = entry_fields t \<or> collides {row_preimage l r} {row_preimage l t}"
proof (cases "row_preimage l r = row_preimage l t")
  case True
  from entry_preimage_eqD [OF _ _ _ _ _ _ _ _ True [unfolded row_preimage_def]] assms show ?thesis
    by (simp add: entry_fields_def text_ok_def)
next
  case False
  have "sha256 (row_preimage l r) = sha256 (row_preimage l t)"
    using assms(1-3) by (simp add: row_hash_ok_def row_preimage_def EntryHash_def hex_encode_eq_iff)
  with False show ?thesis by (auto simp: collides_def)
qed

lemma segment_binding:
  assumes "segment_ok l rs" and "segment_ok l ts" and "length rs = length ts"
    and "head_hash [] rs = head_hash [] ts" and "valid_utf8 l" and "\<forall>r \<in> set rs \<union> set ts. text_ok r"
  shows "map entry_fields rs = map entry_fields ts \<or> collides (chain_messages l rs) (chain_messages l ts)"
  using assms(1-4,6)
proof (induction rs arbitrary: ts rule: rev_induct)
  case (snoc r rs)
  then obtain us t where ts: "ts = us @ [t]" by (cases ts rule: rev_cases) auto
  have ok: "row_hash_ok l r" "row_hash_ok l t" "segment_ok l rs" "segment_ok l us"
    using snoc.prems ts by (simp_all add: segment_ok_snoc)
  have "entry_fields r = entry_fields t \<or> collides {row_preimage l r} {row_preimage l t}"
    using snoc.prems ts ok assms(5) by (intro row_binding) simp_all
  then show ?case
  proof
    assume "collides {row_preimage l r} {row_preimage l t}"
    then have "collides (chain_messages l (rs @ [r])) (chain_messages l ts)"
      by (rule collides_mono) (simp_all add: chain_messages_def ts)
    then show ?thesis ..
  next
    assume same: "entry_fields r = entry_fields t"
    have "map entry_fields rs = map entry_fields us \<or> collides (chain_messages l rs) (chain_messages l us)"
    proof (rule snoc.IH)
      have "length rs = length us" using snoc.prems(3) ts by simp
      then show "head_hash [] rs = head_hash [] us"
        using same snoc.prems ts by (auto simp: segment_ok_snoc entry_fields_def head_hash_def)
    qed (use snoc.prems ts ok in auto)
    moreover have "collides (chain_messages l (rs @ [r])) (chain_messages l ts)"
      if "collides (chain_messages l rs) (chain_messages l us)"
      by (rule collides_mono [OF that]) (auto simp: chain_messages_def ts)
    ultimately show ?thesis using same ts by auto
  qed
qed simp

lemma chain_head_length: "chain_from l n [] rs \<Longrightarrow> length (head_hash [] rs) = (if rs = [] then 0 else 64)"
  by (induction rs rule: rev_induct) (auto simp: chain_from_append linked_def)

lemma chain_binding:
  assumes "chain_from l n [] rs" and "chain_from l n [] ts" and "head_hash [] rs = head_hash [] ts"
    and "valid_utf8 l" and "\<forall>r \<in> set rs \<union> set ts. text_ok r"
  shows "map entry_fields rs = map entry_fields ts \<or> collides (chain_messages l rs) (chain_messages l ts)"
proof (cases "rs = []")
  case True
  then show ?thesis using chain_head_length [OF assms(2)] assms(3) by (auto split: if_splits)
next
  case False
  then have ne: "ts \<noteq> []"
    using chain_head_length [OF assms(1)] chain_head_length [OF assms(2)] assms(3) by auto
  have segs: "segment_ok l rs" "segment_ok l ts" using chain_from_segment assms(1,2) by blast+
  then have "entry_fields (last rs) = entry_fields (last ts)
      \<or> collides {row_preimage l (last rs)} {row_preimage l (last ts)}"
    using False ne assms(3-5) by (intro row_binding) (simp_all add: segment_ok_def head_hash_def)
  then show ?thesis
  proof
    assume "entry_fields (last rs) = entry_fields (last ts)"
    then have "seq_of (last rs) = seq_of (last ts)" by (simp add: entry_fields_def seq_of_def)
    then have "length rs = length ts"
      using chain_from_nth [OF assms(1), of "length rs - 1"] chain_from_nth [OF assms(2), of "length ts - 1"] False ne
      by (simp add: last_conv_nth of_nat_diff Suc_le_eq)
    then show ?thesis using segment_binding segs assms by blast
  next
    assume "collides {row_preimage l (last rs)} {row_preimage l (last ts)}"
    then have "collides (chain_messages l rs) (chain_messages l ts)"
      by (rule collides_mono) (use False ne in \<open>auto simp: chain_messages_def\<close>)
    then show ?thesis ..
  qed
qed

subsection \<open>Properties\<close>


definition new_ledger :: ledger_row where
  "new_ledger = \<lparr>last_sequence = 0, last_entry_hash = [], ledger_description = None,
                 anchor_provider_names = None, anchor_schedule = None\<rparr>"

definition one_ledger :: database where
  "one_ledger = \<lparr>audit_log = [], audit_ledgers = [''l'' \<mapsto> new_ledger], audit_anchors = []\<rparr>"

lemma one_ledger_simps [simp]:
  "ledger_rows one_ledger k = []" "audit_ledgers one_ledger ''l'' = Some new_ledger" "chain_ok one_ledger k"
  "audit_log one_ledger = []"
  by (simp_all add: one_ledger_def ledger_rows_def chain_ok_def new_ledger_def)

lemma sample_payload: "PayloadHash ''[1]'' = Inr (sha256Hex ''[1]'')"
  by (simp add: PayloadHash_def sha256Hex_def json_eval)

text \<open>The ledger after its first entry.\<close>

definition sample_hash :: string where
  "sample_hash = EntryHash 1 ''l'' ''created'' (sha256Hex ''[1]'') []"

definition sample_row :: log_row where
  "sample_row = \<lparr>log_id = 1, log_sequence = 1, log_ledger = ''l'', log_event_type = ''created'', log_payload = ''[1]'',
     log_payload_hash = sha256Hex ''[1]'', log_prev_entry_hash = [], log_entry_hash = sample_hash,
     log_created_at = 0, log_actor = Some ''alice'', log_metadata = None\<rparr>"

definition sample_db :: database where
  "sample_db = \<lparr>audit_log = [sample_row],
     audit_ledgers = [''l'' \<mapsto> new_ledger\<lparr>last_sequence := 1, last_entry_hash := sample_hash\<rparr>], audit_anchors = []\<rparr>"

lemma sample_whole [simp]: "whole_value ''[1]'' = Some (JArr [JNum ''1''])"
  by (simp add: whole_value_def json_eval)

lemma sample_append:
  "Append steady_pg one_ledger ''l'' ''created'' ''[1]'' None ''alice'' = (sample_db, Inr (1, sample_hash, 0))"
  by (simp add: Append_def AppendTx_def steady_pg_def query_row_def cursor_rows_def sample_payload insert_log_def jsonb_args_def
      update_ledger_def new_row_def new_ledger_def one_ledger_def sample_db_def sample_row_def sample_hash_def
      Let_def fun_eq_iff)

lemma sample_db_simps [simp]:
  "audit_log sample_db = [sample_row]" "audit_anchors sample_db = []" "ledger_rows sample_db ''l'' = [sample_row]"
  "log_ledger sample_row = ''l''" "log_sequence sample_row = 1" "log_entry_hash sample_row = sample_hash"
  "seq_of sample_row = 1"
  by (simp_all add: sample_db_def sample_row_def ledger_rows_def seq_of_def)


text \<open>C18. An append that returns has added exactly one row to the log: the next sequence number of
  its ledger, the hash of the ledger's last entry as \<open>prev_entry_hash\<close>, the payload's hash, and an
  entry hash over those fields, all of which it reports; the cursor moves to it, and neither another
  ledger nor an anchor changes.\<close>

theorem Append_effect:
  assumes "chain_ok db l" and "int (length (ledger_rows db l)) < int64_max"
    and "Append pg db l e p m a = (db', Inr (seq, h, t))"
  shows "\<exists>r ph. PayloadHash p = Inr ph \<and> audit_log db' = audit_log db @ [r]
    \<and> log_ledger r = l \<and> log_sequence r = seq \<and> sint seq = int (length (ledger_rows db l)) + 1
    \<and> log_event_type r = e \<and> log_payload r = pg_jsonb pg p \<and> log_payload_hash r = ph
    \<and> log_prev_entry_hash r = head_hash [] (ledger_rows db l)
    \<and> log_entry_hash r = h \<and> h = EntryHash seq l e ph (head_hash [] (ledger_rows db l))
    \<and> log_created_at r = t \<and> log_actor r = Some a
    \<and> map_option last_sequence (audit_ledgers db' l) = Some seq
    \<and> map_option last_entry_hash (audit_ledgers db' l) = Some h
    \<and> (\<forall>k. k \<noteq> l \<longrightarrow> audit_ledgers db' k = audit_ledgers db k) \<and> audit_anchors db' = audit_anchors db"
proof -
  have "AppendTx pg db l e p m a = (db', Inr (seq, h, t))"
    using assms(3) by (cases rule: Append_cases) auto
  then obtain c ph where c: "audit_ledgers db l = Some c" and ph: "PayloadHash p = Inr ph"
    and db': "db' = add_entry db c (new_row pg c l e p ph m a)"
    and rest: "seq = last_sequence c + 1" "h = EntryHash seq l e ph (last_entry_hash c)" "t = pg_now pg"
    by (rule AppendTx_InrD)
  have "sint (last_sequence c + 1) = int (length (ledger_rows db l)) + 1"
    using chain_ok_cursor(1) [OF assms(1) c] assms(2) by (simp add: sint_succ)
  then show ?thesis
    using ph rest chain_ok_cursor(2) [OF assms(1) c]
    by (intro exI [of _ "new_row pg c l e p ph m a"] exI [of _ ph]) (simp add: db')
qed

theorem Append_effect_witness:
  "Append steady_pg one_ledger ''l'' ''created'' ''[1]'' None ''alice'' = (sample_db, Inr (1, sample_hash, 0))
     \<and> length (audit_log sample_db) = 1 \<and> sample_hash = EntryHash 1 ''l'' ''created'' (sha256Hex ''[1]'') []"
  using Append_effect [OF _ _ sample_append] sample_append sample_payload by (auto simp: int64_max_def)

text \<open>C23. A failing append leaves the database as it was, unless the server applied a commit whose
  answer was lost: then the entry is in the ledger although the caller gets an error, exactly as the
  append that returns would have left it (a retry adds a second entry).\<close>

theorem Append_error_atomic:
  assumes "Append pg db l e p m a = (db', Inl err)"
  shows "db' = db \<or> (pg_commit_lost pg \<and> pg_fault pg CommitTx \<noteq> None
    \<and> (\<exists>v. Append (pg\<lparr>pg_fault := (pg_fault pg)(CommitTx := None)\<rparr>) db l e p m a = (db', Inr v)))"
proof (cases "db' = db")
  case False
  let ?pg = "pg\<lparr>pg_fault := (pg_fault pg)(CommitTx := None)\<rparr>"
  have scan: "pg_scan_fault ?pg = pg_scan_fault pg" by simp
  have same_json: "jsonb_refusal ?pg docs = jsonb_refusal pg docs" for docs by (induction docs) (simp_all split: option.split)
  have same: "query_row ?pg LockLedger = query_row pg LockLedger" "insert_log ?pg = insert_log pg"
    "update_ledger ?pg = update_ledger pg" "new_row ?pg = new_row pg"
    "pg_fault ?pg SetLockTimeout = pg_fault pg SetLockTimeout"
    by (simp_all add: fun_eq_iff query_row_def insert_log_def same_json update_ledger_def new_row_def
        split: list.split option.split)
  have tx: "AppendTx ?pg db l e p m a = AppendTx pg db l e p m a"
    unfolding AppendTx_def same scan ..
  show ?thesis
    using False assms by (auto simp: Append_def tx split: option.splits prod.splits sum.splits if_splits)
qed simp

theorem Append_error_atomic_witness:
  "Append steady_pg one_ledger ''x'' ''created'' ''[1]'' None ''alice''
     = (one_ledger, Inl (Errorf ''chain.AppendTx: unknown ledger %q'' [ArgS ''x'']))
   \<and> fst (Append steady_pg one_ledger ''x'' ''created'' ''[1]'' None ''alice'') = one_ledger"
proof -
  have run: "Append steady_pg one_ledger ''x'' ''created'' ''[1]'' None ''alice''
     = (one_ledger, Inl (Errorf ''chain.AppendTx: unknown ledger %q'' [ArgS ''x'']))"
    by (simp add: Append_def AppendTx_def steady_pg_def query_row_def cursor_rows_def one_ledger_def)
  with Append_error_atomic [OF this] show ?thesis by (simp add: steady_pg_def)
qed

text \<open>What a server that answers does with the payload's hash.\<close>

lemma Append_healthy:
  assumes "healthy pg" and "pg_nextval pg InsertLog \<notin> log_id ` set (audit_log db)"
    and "chain_ok db l" and "int (length (ledger_rows db l)) < int64_max"
    and "audit_ledgers db l = Some c" and "PayloadHash p = Inr ph" and "r = new_row pg c l e p ph m a"
    and "jsonb_refusal pg (jsonb_args p m) = None"
  shows "Append pg db l e p m a = (add_entry db c r, Inr (log_sequence r, log_entry_hash r, pg_now pg))"
  using next_sequence_fresh [OF assms(3,5,4)] assms(2,5,6,8)
  by (simp add: assms(7) Append_def AppendTx_def healthyD [OF assms(1)] query_row_def cursor_rows_def Let_def
      insert_log_def update_ledger_def add_entry_def fun_eq_iff)

text \<open>C35. When the server answers and picks a fresh row id, an append to a sound ledger that has room returns
  exactly if the ledger exists, the payload begins with a JSON value (which is all that \<open>PayloadHash\<close> checks), and
  the type JSONB takes the payload and the metadata. On a server that takes the texts of JSON values only, as
  Postgres does, a payload that is not the text of one JSON value, such as one with trailing bytes, is always refused.\<close>

theorem Append_succeeds_iff:
  assumes "healthy pg" and "pg_nextval pg InsertLog \<notin> log_id ` set (audit_log db)"
    and "chain_ok db l" and "int (length (ledger_rows db l)) < int64_max"
  shows "(is_ok (snd (Append pg db l e p m a)) \<longleftrightarrow>
      audit_ledgers db l \<noteq> None \<and> is_ok (json_decode p) \<and> jsonb_refusal pg (jsonb_args p m) = None)
    \<and> (jsonb_strict pg \<longrightarrow> whole_value p = None \<longrightarrow> \<not> is_ok (snd (Append pg db l e p m a)))"
proof -
  have "is_ok (snd (Append pg db l e p m a)) \<longleftrightarrow>
      audit_ledgers db l \<noteq> None \<and> is_ok (json_decode p) \<and> jsonb_refusal pg (jsonb_args p m) = None"
  proof (cases "audit_ledgers db l")
    case None
    then show ?thesis
      by (simp add: Append_def AppendTx_def healthyD [OF assms(1)] query_row_def cursor_rows_def)
  next
    case (Some c)
    have "is_ok (PayloadHash p) \<longleftrightarrow> is_ok (json_decode p)"
      by (simp add: PayloadHash_def Canonicalize_ok_iff [symmetric] split: sum.split)
    moreover have "is_ok (snd (Append pg db l e p m a)) \<longleftrightarrow>
        is_ok (PayloadHash p) \<and> jsonb_refusal pg (jsonb_args p m) = None"
    proof (cases "jsonb_refusal pg (jsonb_args p m)")
      case None
      with Append_healthy [OF assms Some _ refl] Some show ?thesis
        by (cases "PayloadHash p") (simp_all add: Append_def AppendTx_def healthyD [OF assms(1)] query_row_def cursor_rows_def)
    next
      case refused: (Some err)
      have "\<not> is_ok (snd (Append pg db l e p m a))"
        using Some by (cases "PayloadHash p")
          (simp_all add: Append_def AppendTx_def insert_log_def refused Let_def healthyD [OF assms(1)] query_row_def cursor_rows_def)
      with refused show ?thesis by simp
    qed
    ultimately show ?thesis using Some by simp
  qed
  moreover have "\<exists>d \<in> set (jsonb_args p m). pg_json_error pg d \<noteq> None" if "jsonb_strict pg" "whole_value p = None"
    using that by (auto simp: jsonb_strict_def jsonb_args_def)
  ultimately show ?thesis by (auto simp: jsonb_refusal_None)
qed

theorem Append_succeeds_iff_witness:
  "is_ok (snd (Append steady_pg one_ledger ''l'' ''created'' ''[1]'' None ''alice''))
    \<and> is_ok (json_decode ''[1]x'') \<and> \<not> is_ok (snd (Append steady_pg one_ledger ''l'' ''created'' ''[1]x'' None ''alice''))"
  using Append_succeeds_iff [of steady_pg one_ledger "''l''" "''created''" "''[1]''" None "''alice''"]
    Append_succeeds_iff [of steady_pg one_ledger "''l''" "''created''" "''[1]x''" None "''alice''"]
  by (simp add: int64_max_def json_eval jsonb_args_def whole_value_def)

text \<open>C12. Tamper evidence: two sound states of a ledger whose cursors hold the same hash, and whose texts are valid
  UTF-8 (the ledger's name, and the event types and hashes of the entries), agree on the
  sequence number, event type, payload hash and both chain hashes of every entry, or the code hashed
  two different messages to the same SHA-256 value, one in each history.\<close>

theorem chain_history_binding:
  assumes "chain_ok db l" and "chain_ok db' l"
    and "audit_ledgers db l = Some c" and "audit_ledgers db' l = Some c'"
    and "last_entry_hash c = last_entry_hash c'"
    and "valid_utf8 l" and "\<forall>r \<in> set (ledger_rows db l) \<union> set (ledger_rows db' l). text_ok r"
  shows "map entry_fields (ledger_rows db l) = map entry_fields (ledger_rows db' l)
    \<or> collides (chain_messages l (ledger_rows db l)) (chain_messages l (ledger_rows db' l))"
proof (rule chain_binding [of _ 0])
  show "head_hash [] (ledger_rows db l) = head_hash [] (ledger_rows db' l)"
    using chain_ok_cursor(2) assms(1-5) by metis
qed (use assms in \<open>simp_all add: chain_ok_def\<close>)

text \<open>Two databases whose ledgers end in the same hash; row id, actor, time and payload text differ.\<close>

definition other_row :: log_row where
  "other_row = sample_row\<lparr>log_id := 9, log_payload := '' [1]'', log_actor := Some ''mallory'', log_created_at := 5\<rparr>"

definition other_db :: database where
  "other_db = sample_db\<lparr>audit_log := [other_row]\<rparr>"

lemma sample_chain_ok [simp]: "chain_ok sample_db k"
proof (cases "k = ''l''")
  case True
  then show ?thesis
    by (simp add: chain_ok_def sample_db_def ledger_rows_def linked_def sample_row_def sample_hash_def seq_of_def head_hash_def)
qed (simp add: chain_ok_def sample_db_def ledger_rows_def sample_row_def)

lemma other_db_ok: "chain_ok other_db ''l''" "ledger_rows other_db ''l'' = [other_row]"
  using sample_chain_ok [of "''l''"]
  by (simp_all add: chain_ok_def other_db_def ledger_rows_def linked_def other_row_def seq_of_def head_hash_def sample_db_def)

lemma sample_text_ok: "text_ok sample_row" "text_ok other_row" "valid_utf8 ''l''"
  by (simp_all add: text_ok_def other_row_def sample_row_def sha256Hex_def utf8_width.simps(2) lead_width_def)

theorem chain_history_binding_witness:
  "sample_db \<noteq> other_db \<and> (map entry_fields (ledger_rows sample_db ''l'') = map entry_fields (ledger_rows other_db ''l'')
    \<or> collides (chain_messages ''l'' (ledger_rows sample_db ''l'')) (chain_messages ''l'' (ledger_rows other_db ''l'')))"
proof
  show "sample_db \<noteq> other_db" by (simp add: sample_db_def other_db_def other_row_def sample_row_def)
  show "map entry_fields (ledger_rows sample_db ''l'') = map entry_fields (ledger_rows other_db ''l'')
    \<or> collides (chain_messages ''l'' (ledger_rows sample_db ''l'')) (chain_messages ''l'' (ledger_rows other_db ''l''))"
  proof (rule chain_history_binding [OF sample_chain_ok other_db_ok(1)])
    let ?c = "new_ledger\<lparr>last_sequence := 1, last_entry_hash := sample_hash\<rparr>"
    show "audit_ledgers sample_db ''l'' = Some ?c" "audit_ledgers other_db ''l'' = Some ?c"
      by (simp_all add: other_db_def sample_db_def)
    show "\<forall>r \<in> set (ledger_rows sample_db ''l'') \<union> set (ledger_rows other_db ''l''). text_ok r"
      using sample_text_ok by (simp add: other_db_ok(2))
  qed (simp_all add: sample_text_ok(3) del: valid_utf8.simps(2))
qed

end
