(* ===== verification/Machine.thy ===== *)
theory Machine
  imports Main
begin

section \<open>Machines and their runs\<close>

text \<open>
  The concurrent parts of the program are machines: a state, actions, and a partial function that says what an
  action makes of a state (\<open>None\<close> where it is not enabled). The two locales are the contracts under
  which runs keep an invariant, and under which they end; \<open>Concurrency\<close>, \<open>Progress\<close>, \<open>Poll_Overlap\<close>
  and \<open>Module_Overlap\<close> interpret them.
\<close>

fun runs :: "('s \<Rightarrow> 'a \<Rightarrow> 's option) \<Rightarrow> 's \<Rightarrow> 'a list \<Rightarrow> 's option" where
  "runs step s [] = Some s"
| "runs step s (a # as) = (case step s a of None \<Rightarrow> None | Some t \<Rightarrow> runs step t as)"

text \<open>The machine with some of its actions only.\<close>

definition only :: "('a \<Rightarrow> bool) \<Rightarrow> ('s \<Rightarrow> 'a \<Rightarrow> 's option) \<Rightarrow> 's \<Rightarrow> 'a \<Rightarrow> 's option" where
  "only P step s a = (if P a then step s a else None)"

lemma only_Some [simp]: "only P step s a = Some t \<longleftrightarrow> P a \<and> step s a = Some t"
  by (simp add: only_def)

lemma runs_only: "runs (only P step) s as = Some t \<longleftrightarrow> list_all P as \<and> runs step s as = Some t"
  by (induction as arbitrary: s) (auto simp: only_def split: option.splits)

lemma runs_append: "runs step s (as @ bs) = (case runs step s as of None \<Rightarrow> None | Some t \<Rightarrow> runs step t bs)"
  by (induction as arbitrary: s) (simp_all split: option.split)

locale machine =
  fixes step :: "'s \<Rightarrow> 'a \<Rightarrow> 's option" and inv :: "'s \<Rightarrow> bool"
  assumes keeps: "inv s \<Longrightarrow> step s a = Some t \<Longrightarrow> inv t"
begin

lemma runs_keep: "runs step s as = Some t \<Longrightarrow> inv s \<Longrightarrow> inv t"
  by (induction as arbitrary: s) (auto dest: keeps split: option.splits)

end

text \<open>Every action costs, and a state that is not final has one: runs are short, and can be completed.\<close>

locale terminating_machine = machine step inv
  for step :: "'s \<Rightarrow> 'a \<Rightarrow> 's option" and inv :: "'s \<Rightarrow> bool" +
  fixes cost :: "'s \<Rightarrow> nat" and final :: "'s \<Rightarrow> bool"
  assumes costs: "inv s \<Longrightarrow> step s a = Some t \<Longrightarrow> cost t < cost s"
    and goes_on: "inv s \<Longrightarrow> \<not> final s \<Longrightarrow> \<exists>a t. step s a = Some t"
begin

lemma runs_bounded: "runs step s as = Some t \<Longrightarrow> inv s \<Longrightarrow> length as + cost t \<le> cost s"
proof (induction as arbitrary: s)
  case (Cons a as)
  then obtain u where u: "step s a = Some u" "runs step u as = Some t" by (auto split: option.splits)
  with Cons.IH [OF u(2) keeps [OF Cons.prems(2) u(1)]] costs [OF Cons.prems(2) u(1)] show ?case by simp
qed simp

lemma completes: "inv s \<Longrightarrow> \<exists>as t. runs step s as = Some t \<and> final t"
proof (induction "cost s" arbitrary: s rule: less_induct)
  case less
  show ?case
  proof (cases "final s")
    case True
    then show ?thesis by (intro exI [of _ "[]"] exI [of _ s]) simp
  next
    case False
    then obtain a u where u: "step s a = Some u" using goes_on less.prems by blast
    with less.hyps [OF costs keeps] less.prems obtain as t where "runs step u as = Some t" "final t" by blast
    with u show ?thesis by (intro exI [of _ "a # as"] exI [of _ t]) simp
  qed
qed

end

end
