(* ===== verification/Concurrency.thy ===== *)
theory Concurrency
  imports Append Machine
begin

section \<open>Concurrent appends\<close>

text \<open>
  \<^verbatim>\<open>chain/append.go\<close> promises that appends from any number of callers are serialised by the row lock of
  \<^verbatim>\<open>SELECT \<dots> FOR UPDATE\<close>. Here the statements of \<open>AppendTx\<close> are single actions and those of different
  transactions interleave in any order; a list of actions is one schedule. The server is Postgres at its
  default isolation level: a statement sees the committed state and the transaction's own writes, a row
  that another transaction has locked cannot be locked, a key that another transaction has inserted
  cannot be inserted until that transaction ends (the action is not enabled, so the caller waits), and a commit
  publishes the transaction's writes at once. The property says that every schedule has the
  effect of calling \<open>Append\<close> one after the other, in the order of the commits.
\<close>

subsection \<open>Transactions\<close>

text \<open>One call of \<open>Append\<close> with the server's answers to its statements.\<close>

record append_call =
  call_pg :: pg
  call_ledger :: string
  call_event :: string
  call_payload :: bytes
  call_metadata :: "bytes option"
  call_actor :: string

type_synonym append_result = "(int64 \<times> string \<times> go_time) result"

definition run_call :: "database \<Rightarrow> append_call \<Rightarrow> database \<times> append_result" where
  "run_call db q = Append (call_pg q) db (call_ledger q) (call_event q) (call_payload q) (call_metadata q) (call_actor q)"

text \<open>How far a transaction is: the cursor it read under the lock, the row it inserted.\<close>

datatype phase = Begun | Locked ledger_row | Inserted ledger_row log_row | Updated ledger_row log_row

fun locked_cursor :: "phase \<Rightarrow> ledger_row option" where
  "locked_cursor Begun = None"
| "locked_cursor (Locked c) = Some c"
| "locked_cursor (Inserted c r) = Some c"
| "locked_cursor (Updated c r) = Some c"

fun inserted_row :: "phase \<Rightarrow> log_row option" where
  "inserted_row Begun = None"
| "inserted_row (Locked c) = None"
| "inserted_row (Inserted c r) = Some r"
| "inserted_row (Updated c r) = Some r"

text \<open>The committed tables, the open transactions by session number, and the calls whose commit the
  server applied, in that order, with what their callers got.\<close>

record server =
  committed :: database
  sessions :: "(nat \<times> append_call \<times> phase) list"
  history :: "(append_call \<times> append_result) list"

definition session :: "server \<Rightarrow> nat \<Rightarrow> (append_call \<times> phase) option" where
  "session s i = map_of (sessions s) i"

definition others :: "server \<Rightarrow> nat \<Rightarrow> (append_call \<times> phase) list" where
  "others s i = map snd (filter (\<lambda>x. fst x \<noteq> i) (sessions s))"

definition set_phase :: "server \<Rightarrow> nat \<Rightarrow> append_call \<Rightarrow> phase \<Rightarrow> server" where
  "set_phase s i q ph = s\<lparr>sessions := (i, q, ph) # filter (\<lambda>x. fst x \<noteq> i) (sessions s)\<rparr>"

definition end_session :: "server \<Rightarrow> nat \<Rightarrow> server" where
  "end_session s i = s\<lparr>sessions := filter (\<lambda>x. fst x \<noteq> i) (sessions s)\<rparr>"

definition row_locked :: "server \<Rightarrow> nat \<Rightarrow> string \<Rightarrow> bool" where
  "row_locked s i l \<longleftrightarrow> (\<exists>(q, ph) \<in> set (others s i). call_ledger q = l \<and> locked_cursor ph \<noteq> None)"

definition key_pending :: "server \<Rightarrow> nat \<Rightarrow> log_row \<Rightarrow> bool" where
  "key_pending s i r \<longleftrightarrow> (\<exists>(q, ph) \<in> set (others s i). case inserted_row ph of None \<Rightarrow> False
     | Some t \<Rightarrow> log_id t = log_id r \<or> (log_ledger t, log_sequence t) = (log_ledger r, log_sequence r))"

text \<open>The caller's view of a commit: the values, or an error when the answer is lost.\<close>

definition commit_result :: "append_call \<Rightarrow> log_row \<Rightarrow> append_result" where
  "commit_result q r =
     (case pg_fault (call_pg q) CommitTx of
        None \<Rightarrow> Inr (log_sequence r, log_entry_hash r, log_created_at r)
      | Some e \<Rightarrow> Inl (Errorf ''chain.Append: commit: %w'' [ArgE e]))"

subsection \<open>The actions\<close>

datatype action = Begin nat append_call | Lock nat | Insert nat | Update nat | Commit nat | Abort nat

text \<open>\<open>None\<close> where the action is not enabled. \<open>Abort\<close> is every way of rolling back: an error of a
  statement, the lock timeout, a cancelled context, a lost connection.\<close>

fun act :: "server \<Rightarrow> action \<Rightarrow> server option" where
  "act s (Begin i q) =
     (if session s i = None \<and> pg_fault (call_pg q) BeginTx = None \<and> pg_fault (call_pg q) SetLockTimeout = None
      then Some (set_phase s i q Begun) else None)"
| "act s (Lock i) =
     (case session s i of
        Some (q, Begun) \<Rightarrow>
          if row_locked s i (call_ledger q) then None
          else (case query_row (call_pg q) LockLedger (cursor_rows (committed s) (call_ledger q)) of
                  Inl e \<Rightarrow> None
                | Inr c \<Rightarrow> Some (set_phase s i q (Locked c)))
      | _ \<Rightarrow> None)"
| "act s (Insert i) =
     (case session s i of
        Some (q, Locked c) \<Rightarrow>
          (case PayloadHash (call_payload q) of
             Inl e \<Rightarrow> None
           | Inr ph \<Rightarrow>
               let r = new_row (call_pg q) c (call_ledger q) (call_event q) (call_payload q) ph (call_metadata q) (call_actor q)
               in if key_pending s i r \<or> pg_scan_fault (call_pg q) InsertLog 0 \<noteq> None then None
                  else (case insert_log (call_pg q) (committed s) (jsonb_args (call_payload q) (call_metadata q)) r of
                          Inl e \<Rightarrow> None
                        | Inr db \<Rightarrow> Some (set_phase s i q (Inserted c r))))
      | _ \<Rightarrow> None)"
| "act s (Update i) =
     (case session s i of
        Some (q, Inserted c r) \<Rightarrow>
          if pg_fault (call_pg q) UpdateLedger = None then Some (set_phase s i q (Updated c r)) else None
      | _ \<Rightarrow> None)"
| "act s (Commit i) =
     (case session s i of
        Some (q, Updated c r) \<Rightarrow>
          if pg_fault (call_pg q) CommitTx = None \<or> pg_commit_lost (call_pg q)
          then Some ((end_session s i)\<lparr>committed := add_entry (committed s) c r,
                       history := history s @ [(q, commit_result q r)]\<rparr>)
          else None
      | _ \<Rightarrow> None)"
| "act s (Abort i) = (case session s i of None \<Rightarrow> None | Some x \<Rightarrow> Some (end_session s i))"

abbreviation schedule :: "server \<Rightarrow> action list \<Rightarrow> server option" where
  "schedule \<equiv> runs act"

definition idle_server :: "database \<Rightarrow> server" where
  "idle_server db = \<lparr>committed = db, sessions = [], history = []\<rparr>"

text \<open>The specification: one call at a time.\<close>

fun serial :: "database \<Rightarrow> append_call list \<Rightarrow> database \<times> append_result list" where
  "serial db [] = (db, [])"
| "serial db (q # qs) = (let (db1, r) = run_call db q; (db2, rs) = serial db1 qs in (db2, r # rs))"

lemma serial_snoc:
  "serial db qs = (db1, rs) \<Longrightarrow> run_call db1 q = (db2, r) \<Longrightarrow> serial db (qs @ [q]) = (db2, rs @ [r])"
  by (induction qs arbitrary: db rs) (auto split: prod.splits)

subsection \<open>The invariant\<close>

text \<open>A transaction holds what it has read and written: the locked cursor is still the committed one,
  and its row is the one \<open>AppendTx\<close> makes of it and still fresh.\<close>

definition cursor_held :: "database \<Rightarrow> append_call \<Rightarrow> ledger_row \<Rightarrow> bool" where
  "cursor_held db q c \<longleftrightarrow> query_row (call_pg q) LockLedger (cursor_rows db (call_ledger q)) = Inr c"

definition row_held :: "database \<Rightarrow> append_call \<Rightarrow> ledger_row \<Rightarrow> log_row \<Rightarrow> bool" where
  "row_held db q c r \<longleftrightarrow> pg_scan_fault (call_pg q) InsertLog 0 = None \<and> (\<exists>db'. insert_log (call_pg q) db (jsonb_args (call_payload q) (call_metadata q)) r = Inr db')
     \<and> (\<exists>ph. PayloadHash (call_payload q) = Inr ph
          \<and> r = new_row (call_pg q) c (call_ledger q) (call_event q) (call_payload q) ph (call_metadata q) (call_actor q))"

fun phase_ok :: "database \<Rightarrow> append_call \<Rightarrow> phase \<Rightarrow> bool" where
  "phase_ok db q Begun = True"
| "phase_ok db q (Locked c) = cursor_held db q c"
| "phase_ok db q (Inserted c r) = (cursor_held db q c \<and> row_held db q c r)"
| "phase_ok db q (Updated c r) = (cursor_held db q c \<and> row_held db q c r \<and> pg_fault (call_pg q) UpdateLedger = None)"

definition session_ok :: "database \<Rightarrow> append_call \<times> phase \<Rightarrow> bool" where
  "session_ok db x \<longleftrightarrow> pg_fault (call_pg (fst x)) BeginTx = None \<and> pg_fault (call_pg (fst x)) SetLockTimeout = None
     \<and> phase_ok db (fst x) (snd x)"

text \<open>Two transactions do not hold one lock, nor rows with one key.\<close>

definition compatible :: "append_call \<times> phase \<Rightarrow> append_call \<times> phase \<Rightarrow> bool" where
  "compatible x y \<longleftrightarrow>
     (locked_cursor (snd x) \<noteq> None \<longrightarrow> locked_cursor (snd y) \<noteq> None \<longrightarrow> call_ledger (fst x) \<noteq> call_ledger (fst y))
   \<and> (\<forall>r t. inserted_row (snd x) = Some r \<longrightarrow> inserted_row (snd y) = Some t \<longrightarrow> log_id r \<noteq> log_id t)"

definition sessions_ok :: "server \<Rightarrow> bool" where
  "sessions_ok s \<longleftrightarrow> distinct (map fst (sessions s)) \<and> (\<forall>x \<in> set (sessions s). session_ok (committed s) (snd x))
     \<and> (\<forall>x \<in> set (sessions s). \<forall>y \<in> set (sessions s). fst x \<noteq> fst y \<longrightarrow> compatible (snd x) (snd y))"

lemma compatible_sym: "compatible x y \<Longrightarrow> compatible y x"
  by (auto simp: compatible_def)

lemma session_SomeD: "session s i = Some x \<Longrightarrow> (i, x) \<in> set (sessions s)"
  by (auto simp: session_def dest: map_of_SomeD)

lemma in_others: "x \<in> set (others s i) \<longleftrightarrow> (\<exists>j. j \<noteq> i \<and> (j, x) \<in> set (sessions s))"
  by (force simp: others_def)

lemma sessions_ok_end: "sessions_ok s \<Longrightarrow> sessions_ok (end_session s i)"
  by (auto simp: sessions_ok_def end_session_def distinct_map_filter)

lemma sessions_ok_set:
  assumes "sessions_ok s" and "session_ok (committed s) (q, ph)" and "\<forall>y \<in> set (others s i). compatible (q, ph) y"
  shows "sessions_ok (set_phase s i q ph)"
proof -
  have old: "compatible (snd x) (snd y)" if "x \<in> set (sessions s)" "y \<in> set (sessions s)" "fst x \<noteq> fst y" for x y
    using assms(1) that by (simp add: sessions_ok_def)
  have new: "compatible (q, ph) (snd y)" if "y \<in> set (sessions s)" "fst y \<noteq> i" for y
    using assms(3) that in_others [of "snd y" s i] by (cases y) auto
  have "compatible (snd x) (snd y)"
    if "x \<in> set (sessions (set_phase s i q ph))" "y \<in> set (sessions (set_phase s i q ph))" "fst x \<noteq> fst y" for x y
  proof -
    have in_new: "z = (i, q, ph) \<or> z \<in> set (sessions s) \<and> fst z \<noteq> i" if "z \<in> set (sessions (set_phase s i q ph))" for z
      using that by (auto simp: set_phase_def)
    from in_new [OF that(1)] in_new [OF that(2)] that(3) show ?thesis
      using new [of x] new [of y] old [of x y] compatible_sym [of "(q, ph)" "snd x"] by auto
  qed
  with assms(1,2) show ?thesis by (auto simp: sessions_ok_def set_phase_def distinct_map_filter)
qed

lemma insert_log_ok_iff:
  "(\<exists>db'. insert_log pg db docs r = Inr db') \<longleftrightarrow>
     pg_fault pg InsertLog = None \<and> jsonb_refusal pg docs = None \<and> log_id r \<notin> log_id ` set (audit_log db)
     \<and> (log_ledger r, log_sequence r) \<notin> (\<lambda>q. (log_ledger q, log_sequence q)) ` set (audit_log db)"
  by (simp add: insert_log_def split: option.splits)

lemma insert_log_InrD: "insert_log pg db docs r = Inr db' \<Longrightarrow> db' = db\<lparr>audit_log := audit_log db @ [r]\<rparr>"
  by (auto simp: insert_log_def split: option.splits if_splits)

lemma row_held_ledger: "row_held db q c r \<Longrightarrow> log_ledger r = call_ledger q"
  by (auto simp: row_held_def)

text \<open>A transaction that has made its last write would return what \<open>Append\<close> returns on the state that
  is committed now, whatever was committed since it began.\<close>

lemma run_updated:
  assumes "session_ok db (q, Updated c r)" and "pg_fault (call_pg q) CommitTx = None \<or> pg_commit_lost (call_pg q)"
  shows "run_call db q = (add_entry db c r, commit_result q r)"
proof -
  obtain ph db' where ok: "query_row (call_pg q) LockLedger (cursor_rows db (call_ledger q)) = Inr c"
    "pg_scan_fault (call_pg q) InsertLog 0 = None" "insert_log (call_pg q) db (jsonb_args (call_payload q) (call_metadata q)) r = Inr db'"
    "PayloadHash (call_payload q) = Inr ph" "pg_fault (call_pg q) UpdateLedger = None"
    "pg_fault (call_pg q) BeginTx = None" "pg_fault (call_pg q) SetLockTimeout = None"
    "r = new_row (call_pg q) c (call_ledger q) (call_event q) (call_payload q) ph (call_metadata q) (call_actor q)"
    using assms(1) by (auto simp: session_ok_def cursor_held_def row_held_def split: sum.splits)
  have c: "audit_ledgers db (call_ledger q) = Some c" using query_row_InrD [OF ok(1)] by auto
  have upd: "update_ledger (call_pg q) db' (call_ledger q) (log_sequence r) (log_entry_hash r) = Inr (add_entry db c r)"
    using ok(5) c insert_log_InrD [OF ok(3)] ok(8)
    by (auto simp: update_ledger_def add_entry_def fun_eq_iff intro!: database.equality)
  have "AppendTx (call_pg q) db (call_ledger q) (call_event q) (call_payload q) (call_metadata q) (call_actor q)
      = (add_entry db c r, Inr (log_sequence r, log_entry_hash r, log_created_at r))"
    using ok(1-4,7) upd by (simp add: AppendTx_def ok(8) Let_def del: new_row_simps)
  with ok(6) assms(2) show ?thesis
    by (auto simp: run_call_def Append_def commit_result_def split: option.split)
qed

text \<open>A commit does not disturb the other transactions.\<close>

lemma session_ok_commit:
  assumes "session_ok db (q, Updated c r)" and "session_ok db y" and "compatible (q, Updated c r) y"
  shows "session_ok (add_entry db c r) y"
proof -
  have l: "log_ledger r = call_ledger q" using assms(1) by (auto simp: session_ok_def row_held_ledger)
  obtain q' ph' where y: "y = (q', ph')" by (cases y)
  have cursor: "cursor_held (add_entry db c r) q' c'" if "cursor_held db q' c'" "locked_cursor ph' = Some c'" for c'
    using that assms(3) not_sym [of "call_ledger q'" "call_ledger q"]
    by (auto simp: y l compatible_def cursor_held_def cursor_rows_def)
  have row: "row_held (add_entry db c r) q' c' r'"
    if "row_held db q' c' r'" "locked_cursor ph' = Some c'" "inserted_row ph' = Some r'" for c' r'
    using that assms(3) l row_held_ledger [OF that(1)]
    by (simp add: y compatible_def row_held_def insert_log_ok_iff del: new_row_simps) metis
  show ?thesis using assms(2) cursor row by (cases ph') (auto simp: y session_ok_def)
qed

definition server_ok :: "database \<Rightarrow> server \<Rightarrow> bool" where
  "server_ok db s \<longleftrightarrow> sessions_ok s \<and> serial db (map fst (history s)) = (committed s, map snd (history s))"

lemma server_ok_commit:
  assumes "server_ok db s" and "session s i = Some (q, Updated c r)"
    and "pg_fault (call_pg q) CommitTx = None \<or> pg_commit_lost (call_pg q)"
  shows "server_ok db ((end_session s i)\<lparr>committed := add_entry (committed s) c r,
                         history := history s @ [(q, commit_result q r)]\<rparr>)"
proof -
  note mem = session_SomeD [OF assms(2)]
  have ok: "sessions_ok s" "serial db (map fst (history s)) = (committed s, map snd (history s))"
    using assms(1) by (simp_all add: server_ok_def)
  have q: "session_ok (committed s) (q, Updated c r)" using ok(1) mem by (force simp: sessions_ok_def)
  have "session_ok (add_entry (committed s) c r) (snd y)" if "y \<in> set (sessions s)" "fst y \<noteq> i" for y
  proof (rule session_ok_commit [OF q])
    show "session_ok (committed s) (snd y)" using ok(1) that(1) by (simp add: sessions_ok_def)
    have "fst (i, q, Updated c r) \<noteq> fst y" using that(2) by simp
    then show "compatible (q, Updated c r) (snd y)" using ok(1) mem that(1) unfolding sessions_ok_def by fastforce
  qed
  with sessions_ok_end [OF ok(1), of i] have "sessions_ok ((end_session s i)\<lparr>committed := add_entry (committed s) c r,
      history := history s @ [(q, commit_result q r)]\<rparr>)"
    by (auto simp: sessions_ok_def end_session_def)
  then show ?thesis using serial_snoc [OF ok(2) run_updated [OF q assms(3)]] by (simp add: server_ok_def)
qed

lemma server_ok_set:
  assumes "server_ok db s" and "session_ok (committed s) (q, ph)" and "\<forall>y \<in> set (others s i). compatible (q, ph) y"
  shows "server_ok db (set_phase s i q ph)"
  using assms sessions_ok_set by (auto simp: server_ok_def set_phase_def)

lemma server_ok_session:
  assumes "server_ok db s" and "session s i = Some x"
  shows "session_ok (committed s) x" and "\<forall>y \<in> set (others s i). compatible x y"
  using assms session_SomeD [OF assms(2)] by (force simp: server_ok_def sessions_ok_def in_others)+

lemma server_ok_act:
  assumes "act s a = Some t" and "server_ok db s"
  shows "server_ok db t"
proof (cases a)
  case (Begin i q)
  then show ?thesis using assms
    by (auto simp: session_ok_def compatible_def split: if_splits intro!: server_ok_set)
next
  case (Lock i)
  then obtain q c where st: "session s i = Some (q, Begun)" "\<not> row_locked s i (call_ledger q)"
    "cursor_held (committed s) q c" "t = set_phase s i q (Locked c)"
    using assms(1) by (auto simp: cursor_held_def split: option.splits prod.splits phase.splits if_splits sum.splits)
  have "compatible (q, Locked c) y" if "y \<in> set (others s i)" for y
    using st(2) that by (auto simp: row_locked_def compatible_def)
  moreover have "session_ok (committed s) (q, Locked c)"
    using server_ok_session(1) [OF assms(2) st(1)] st(3) by (simp add: session_ok_def)
  ultimately show ?thesis unfolding st(4) by (intro server_ok_set assms(2)) auto
next
  case (Insert i)
  then obtain q c r where st: "session s i = Some (q, Locked c)" "\<not> key_pending s i r"
    "row_held (committed s) q c r" "t = set_phase s i q (Inserted c r)"
    using assms(1)
    by (auto simp: row_held_def Let_def simp del: new_row_simps
        split: option.splits prod.splits phase.splits if_splits sum.splits)
  have "compatible (q, Inserted c r) y" if "y \<in> set (others s i)" for y
    using st(2) that server_ok_session(2) [OF assms(2) st(1)]
    by (force simp: key_pending_def compatible_def split: option.splits)
  moreover have "session_ok (committed s) (q, Inserted c r)"
    using server_ok_session(1) [OF assms(2) st(1)] st(3) by (simp add: session_ok_def)
  ultimately show ?thesis unfolding st(4) by (intro server_ok_set assms(2)) auto
next
  case (Update i)
  then obtain q c r where st: "session s i = Some (q, Inserted c r)" "pg_fault (call_pg q) UpdateLedger = None"
    "t = set_phase s i q (Updated c r)"
    using assms(1) by (auto split: option.splits prod.splits phase.splits if_splits)
  then show ?thesis
    unfolding st(3) using server_ok_session [OF assms(2) st(1)] st(2)
    by (intro server_ok_set assms(2)) (simp_all add: session_ok_def compatible_def)
next
  case (Commit i)
  then obtain q c r where "session s i = Some (q, Updated c r)" "pg_fault (call_pg q) CommitTx = None \<or> pg_commit_lost (call_pg q)"
    "t = (end_session s i)\<lparr>committed := add_entry (committed s) c r, history := history s @ [(q, commit_result q r)]\<rparr>"
    using assms(1) by (auto split: option.splits prod.splits phase.splits if_splits)
  then show ?thesis using server_ok_commit [OF assms(2)] by blast
next
  case (Abort i)
  then show ?thesis using assms sessions_ok_end [of s i]
    by (auto simp: server_ok_def end_session_def split: option.splits)
qed

interpretation transactions: machine act "server_ok db" for db
  by unfold_locales (rule server_ok_act)

lemma server_ok_idle: "server_ok db (idle_server db)"
  by (simp add: server_ok_def sessions_ok_def idle_server_def)

text \<open>One call at a time keeps every chain, while the log stays short of \<open>2 ^ 63\<close> rows.\<close>

lemma run_call_cases:
  assumes "run_call db q = (db', r)"
  obtains "db' = db"
  | c ph where "audit_ledgers db (call_ledger q) = Some c" "db' = add_entry db c
      (new_row (call_pg q) c (call_ledger q) (call_event q) (call_payload q) ph (call_metadata q) (call_actor q))"
  using assms unfolding run_call_def by (cases rule: Append_cases) (auto elim: AppendTx_InrD)

lemma run_call_grows: "run_call db q = (db', r) \<Longrightarrow> length (audit_log db) \<le> length (audit_log db')"
  by (erule run_call_cases) simp_all

lemma serial_grows: "serial db qs = (db', rs) \<Longrightarrow> length (audit_log db) \<le> length (audit_log db')"
proof (induction qs arbitrary: db rs)
  case (Cons q qs)
  then obtain db1 r rs1 where "run_call db q = (db1, r)" "serial db1 qs = (db', rs1)" by (auto split: prod.splits)
  with Cons.IH run_call_grows show ?case by (meson le_trans)
qed simp

lemma run_call_chain:
  assumes "run_call db q = (db', r)" and "\<forall>k. chain_ok db k" and "int (length (audit_log db')) \<le> int64_max"
  shows "\<forall>k. chain_ok db' k"
  using assms(1)
proof (cases rule: run_call_cases)
  case (2 c ph)
  have "length (ledger_rows db (call_ledger q)) \<le> length (audit_log db)" by (simp add: ledger_rows_def)
  then have "sint (last_sequence c) < int64_max"
    using chain_ok_cursor(1) [OF _ 2(1)] assms(2,3) 2(2) by simp
  then show ?thesis using chain_ok_add_entry [OF _ 2(1)] assms(2) 2(2) by blast
qed (use assms(2) in simp)

lemma serial_chain:
  "serial db qs = (db', rs) \<Longrightarrow> \<forall>k. chain_ok db k \<Longrightarrow> int (length (audit_log db')) \<le> int64_max \<Longrightarrow> \<forall>k. chain_ok db' k"
proof (induction qs arbitrary: db rs)
  case (Cons q qs)
  then obtain db1 r rs1 where run: "run_call db q = (db1, r)" "serial db1 qs = (db', rs1)" by (auto split: prod.splits)
  have "int (length (audit_log db1)) \<le> int64_max" using serial_grows [OF run(2)] Cons.prems(3) by simp
  with run_call_chain [OF run(1) Cons.prems(2)] show ?case using Cons.IH [OF run(2) _ Cons.prems(3)] by blast
qed simp

subsection \<open>Properties\<close>


text \<open>Two sessions on one ledger: the second begins before the first commits, and can only lock the
  cursor after that.\<close>

definition sample_call :: "nat \<Rightarrow> append_call" where
  "sample_call n = \<lparr>call_pg = steady_pg\<lparr>pg_nextval := (\<lambda>s. of_nat n)\<rparr>, call_ledger = ''l'', call_event = ''created'',
     call_payload = ''[1]'', call_metadata = None, call_actor = ''alice''\<rparr>"

definition sample_schedule :: "action list" where
  "sample_schedule = [Begin 0 (sample_call 1), Begin 1 (sample_call 2), Lock 0, Insert 0, Update 0, Commit 0, Lock 1, Abort 1]"

lemma sample_new_row:
  "new_row (steady_pg\<lparr>pg_nextval := (\<lambda>s. 1)\<rparr>) new_ledger ''l'' ''created'' ''[1]'' (sha256Hex ''[1]'') None ''alice'' = sample_row"
  by (simp add: new_row_def new_ledger_def sample_row_def sample_hash_def Let_def)

lemma sample_add_entry: "add_entry one_ledger new_ledger sample_row = sample_db"
  by (simp add: add_entry_def one_ledger_def sample_db_def sample_row_def new_ledger_def fun_eq_iff)

lemma sample_cursor:
  "audit_ledgers sample_db ''l'' = Some (new_ledger\<lparr>last_sequence := 1, last_entry_hash := sample_hash\<rparr>)"
  "log_created_at sample_row = 0" "log_id sample_row = 1"
  by (simp_all add: sample_db_def sample_row_def)

lemma sample_schedule_runs:
  "schedule (idle_server one_ledger) sample_schedule =
     Some \<lparr>committed = sample_db, sessions = [], history = [(sample_call 1, Inr (1, sample_hash, 0))]\<rparr>"
  "schedule (idle_server one_ledger) (take 3 sample_schedule @ [Lock 1]) = None"
  by (simp_all add: sample_schedule_def idle_server_def session_def set_phase_def end_session_def row_locked_def
      key_pending_def others_def sample_call_def cursor_rows_def query_row_def sample_payload sample_new_row
      insert_log_def jsonb_args_def sample_add_entry commit_result_def sample_cursor)


end
