(* ===== verification/World.thy ===== *)
theory World
  imports Append Registry
begin

section \<open>What a step runs in\<close>

text \<open>
  A step handler sees the registries of \<^verbatim>\<open>modules/\<close> and, through the pool it finds there, a database.
  Pools opened with one data source name share their database. Every handler gets the \<open>pg\<close> record of
  the server for its statements and returns the new world with its response or error.
\<close>

record world =
  w_registry :: registry
  w_dbs :: "string \<Rightarrow> database"

definition pool_db :: "world \<Rightarrow> sql_db \<Rightarrow> database" where
  "pool_db w d = w_dbs w (pool_dsn d)"

definition put_db :: "world \<Rightarrow> sql_db \<Rightarrow> database \<Rightarrow> world" where
  "put_db w d db = w\<lparr>w_dbs := (w_dbs w)(pool_dsn d := db)\<rparr>"

lemma pool_db_put_db [simp]:
  "pool_db (put_db w d db) d' = (if pool_dsn d' = pool_dsn d then db else pool_db w d')"
  "w_registry (put_db w d db) = w_registry w"
  by (simp_all add: pool_db_def put_db_def)

lemma put_db_same [simp]: "put_db w d (pool_db w d) = w"
  by (simp add: pool_db_def put_db_def)

text \<open>The database of a registered ledger name.\<close>

definition ledger_db :: "world \<Rightarrow> string \<Rightarrow> database option" where
  "ledger_db w l = map_option (pool_db w) (GetDB (w_registry w) l)"

subsection \<open>A sample world\<close>

text \<open>One ledger \<open>l\<close> with a registered pool, for the witnesses.\<close>

definition sample_registry :: registry where
  "sample_registry = \<lparr>ledgerRegistry = [(''l'', Appender (Pool 0 ''d''))], dbRegistry = [(''l'', Pool 0 ''d'')],
     anchorProviderRegistry = []\<rparr>"

definition sample_world :: "database \<Rightarrow> world" where
  "sample_world db = \<lparr>w_registry = sample_registry, w_dbs = (\<lambda>dsn. db)\<rparr>"

lemma sample_world_simps [simp]:
  "GetDB (w_registry (sample_world db)) ''l'' = Some (Pool 0 ''d'')"
  "GetLedger (w_registry (sample_world db)) ''l'' = Some (Appender (Pool 0 ''d''))"
  "pool_db (sample_world db) d = db" "w_dbs (sample_world db) dsn = db"
  by (simp_all add: sample_world_def sample_registry_def GetDB_def GetLedger_def map_get_def pool_db_def)

end
