(* ===== verification/Step_Append.thy ===== *)
theory Step_Append
  imports World
begin

section \<open>step.audit.append\<close>

text \<open>
  \<^verbatim>\<open>steps/append.go\<close>: the handler checks its input, finds the ledger's appender and reports what
  \<open>Append\<close> returned. Its property is the contract of the whole step over the world.
\<close>

definition AppendHandler :: "pg \<Rightarrow> world \<Rightarrow> AppendRequest \<Rightarrow> world \<times> AppendResponse result" where
  "AppendHandler pg w input =
     (if aq_Ledger input = [] then (w, Inl (Errorf ''step.audit.append: ledger is required'' []))
      else if aq_EventType input = [] then (w, Inl (Errorf ''step.audit.append: event_type is required'' []))
      else case GetLedger (w_registry w) (aq_Ledger input) of
             None \<Rightarrow>
               (w, Inl (Errorf ''step.audit.append: ledger %q not registered; ensure the audit.ledger module is initialised''
                          [ArgS (aq_Ledger input)]))
           | Some appender \<Rightarrow>
               (case Append pg (pool_db w (appender_db appender)) (aq_Ledger input) (aq_EventType input)
                       (aq_Payload input) (aq_Metadata input) (aq_Actor input) of
                  (db', Inl e) \<Rightarrow> (put_db w (appender_db appender) db', Inl (Errorf ''step.audit.append: %w'' [ArgE e]))
                | (db', Inr (seq, entryHash, createdAt)) \<Rightarrow>
                    (put_db w (appender_db appender) db',
                     Inr \<lparr>ar_Sequence = seq, ar_EntryHash = entryHash, ar_CreatedAt = format_rfc3339 createdAt\<rparr>)))"

text \<open>C34. When the step answers, the request named a ledger and an event type, the ledger is
  registered, its database has gained one row of that ledger, the last one, whose sequence number and
  entry hash are the reported ones, and no other database and no registry has changed. When it fails,
  no ledger's log has changed unless the server lost a commit's answer.\<close>

theorem AppendHandler_contract:
  assumes "AppendHandler pg w q = (w', res)"
  shows "w_registry w' = w_registry w
    \<and> (\<forall>resp. res = Inr resp \<longrightarrow> aq_Ledger q \<noteq> [] \<and> aq_EventType q \<noteq> []
        \<and> (\<exists>a r. GetLedger (w_registry w) (aq_Ledger q) = Some a
            \<and> audit_log (pool_db w' (appender_db a)) = audit_log (pool_db w (appender_db a)) @ [r]
            \<and> log_ledger r = aq_Ledger q \<and> log_event_type r = aq_EventType q
            \<and> log_sequence r = ar_Sequence resp \<and> log_entry_hash r = ar_EntryHash resp
            \<and> row_hash_ok (aq_Ledger q) r
            \<and> (\<forall>dsn. dsn \<noteq> pool_dsn (appender_db a) \<longrightarrow> w_dbs w' dsn = w_dbs w dsn)))
    \<and> (\<forall>err. res = Inl err \<longrightarrow> w' = w \<or> pg_commit_lost pg)"
proof (cases "aq_Ledger q \<noteq> [] \<and> aq_EventType q \<noteq> []")
  case False
  with assms show ?thesis by (auto simp: AppendHandler_def split: if_splits)
next
  case True
  show ?thesis
  proof (cases "GetLedger (w_registry w) (aq_Ledger q)")
    case None
    with True assms show ?thesis by (auto simp: AppendHandler_def)
  next
    case (Some a)
    obtain db' r where run: "Append pg (pool_db w (appender_db a)) (aq_Ledger q) (aq_EventType q)
        (aq_Payload q) (aq_Metadata q) (aq_Actor q) = (db', r)" by (meson surj_pair)
    show ?thesis
    proof (cases r)
      case (Inl e)
      have "db' = pool_db w (appender_db a) \<or> pg_commit_lost pg"
        using run Inl by (cases rule: Append_cases) auto
      with Inl run Some True assms show ?thesis by (auto simp: AppendHandler_def)
    next
      case (Inr v)
      obtain seq h t where v: "v = (seq, h, t)" by (cases v)
      have "AppendTx pg (pool_db w (appender_db a)) (aq_Ledger q) (aq_EventType q)
          (aq_Payload q) (aq_Metadata q) (aq_Actor q) = (db', Inr (seq, h, t))"
        using run Inr v by (cases rule: Append_cases) auto
      then obtain c ph where "db' = add_entry (pool_db w (appender_db a)) c
          (new_row pg c (aq_Ledger q) (aq_EventType q) (aq_Payload q) ph (aq_Metadata q) (aq_Actor q))"
        "seq = last_sequence c + 1" "h = EntryHash seq (aq_Ledger q) (aq_EventType q) ph (last_entry_hash c)"
        by (rule AppendTx_InrD)
      with run Inr v Some True assms show ?thesis
        by (auto simp: AppendHandler_def row_hash_ok_def put_db_def pool_db_def)
    qed
  qed
qed

theorem AppendHandler_contract_witness:
  "\<exists>w' resp. AppendHandler steady_pg (sample_world one_ledger)
     \<lparr>aq_Ledger = ''l'', aq_EventType = ''created'', aq_Payload = ''[1]'', aq_Actor = ''alice'', aq_Metadata = None\<rparr>
   = (w', Inr resp) \<and> ar_Sequence resp = 1
   \<and> (\<exists>r. audit_log (w_dbs w' ''d'') = [r] \<and> log_entry_hash r = ar_EntryHash resp)"
proof -
  let ?q = "\<lparr>aq_Ledger = ''l'', aq_EventType = ''created'', aq_Payload = ''[1]'', aq_Actor = ''alice'', aq_Metadata = None\<rparr>"
  let ?w' = "put_db (sample_world one_ledger) (Pool 0 ''d'') sample_db"
  let ?resp = "\<lparr>ar_Sequence = 1, ar_EntryHash = sample_hash, ar_CreatedAt = format_rfc3339 0\<rparr>"
  have run: "AppendHandler steady_pg (sample_world one_ledger) ?q = (?w', Inr ?resp)"
    by (simp add: AppendHandler_def sample_append)
  from AppendHandler_contract [OF run] show ?thesis
    by (intro exI [of _ ?w'] exI [of _ ?resp]) (auto simp: run pool_db_def)
qed

end
