(* ===== verification/Merkle.thy ===== *)
theory Merkle
  imports Strconv Sha256
begin

section \<open>Merkle trees\<close>

text \<open>
  \<^verbatim>\<open>chain/merkle.go\<close>: leaf and node hashing with domain bytes, the levels of the tree, the root, the
  sibling path of a leaf and its verification. A node (\<open>[32]byte\<close>) is a byte string of length 32.
  \<open>mtree\<close> is the abstract tree the levels implement: \<open>buildLevels_refines\<close> relates the two,
  \<open>VerifyInclusion_complete\<close> says that every path the code builds verifies, and
  \<open>VerifyInclusion_sound\<close> that nothing but a leaf of the tree verifies against its root.
\<close>

subsection \<open>The code\<close>

definition leafPrefix :: char where
  "leafPrefix = CHR 0x00"

definition internalPrefix :: char where
  "internalPrefix = CHR 0x01"

definition leafNode :: "string \<Rightarrow> bytes" where
  "leafNode s = sha256 (leafPrefix # s)"

definition combineNodes :: "bytes \<Rightarrow> bytes \<Rightarrow> bytes" where
  "combineNodes left right = sha256 (internalPrefix # left @ right)"

text \<open>The inner loop of \<open>buildLevels\<close>: a level's nodes in pairs, the last one with itself when it has
  no partner; and its outer loop, until one node (or none) is left.\<close>

fun next_level :: "bytes list \<Rightarrow> bytes list" where
  "next_level [] = []"
| "next_level [a] = [combineNodes a a]"
| "next_level (a # b # cs) = combineNodes a b # next_level cs"

lemma length_next_level [simp]: "length (next_level xs) = (length xs + 1) div 2"
  by (induction xs rule: next_level.induct) simp_all

function levels_from :: "bytes list \<Rightarrow> bytes list list" where
  "levels_from current =
     (if 1 < length current then current # levels_from (next_level current) else [current])"
  by pat_completeness auto
termination
  by (relation "measure length") auto

declare levels_from.simps [simp del]

definition buildLevels :: "string list \<Rightarrow> bytes list list" where
  "buildLevels leaves = levels_from (map leafNode leaves)"

definition MerkleRoot :: "string list \<Rightarrow> string result" where
  "MerkleRoot leaves =
     (if leaves = [] then Inl (Errorf ''chain: MerkleRoot requires at least one leaf'' [])
      else Inr (hex_encode (hd (last (buildLevels leaves)))))"

text \<open>One step of the proof loop: the direction byte and the sibling of position \<open>pos\<close>.\<close>

definition sibling_at :: "bytes list \<Rightarrow> nat \<Rightarrow> string" where
  "sibling_at nodes pos =
     (if pos mod 2 = 0
      then CHR ''R'' # hex_encode (if pos + 1 < length nodes then nodes ! (pos + 1) else nodes ! pos)
      else CHR ''L'' # hex_encode (nodes ! (pos - 1)))"

fun sibling_path :: "bytes list list \<Rightarrow> nat \<Rightarrow> string list" where
  "sibling_path [] pos = []"
| "sibling_path (nodes # levels) pos = sibling_at nodes pos # sibling_path levels (pos div 2)"

definition InclusionProof :: "string list \<Rightarrow> int \<Rightarrow> string list result" where
  "InclusionProof leaves idx =
     (if idx < 0 \<or> int (length leaves) \<le> idx
      then Inl (Errorf ''chain: index %d out of range [0, %d)'' [ArgI idx, ArgI (int (length leaves))])
      else if length leaves = 1 then Inr []
      else Inr (sibling_path (butlast (buildLevels leaves)) (nat idx)))"

text \<open>The loop of \<open>VerifyInclusion\<close>: \<open>None\<close> is an early \<open>return false\<close>.\<close>

fun walk_path :: "bytes \<Rightarrow> string list \<Rightarrow> bytes option" where
  "walk_path current [] = Some current"
| "walk_path current (p # ps) =
     (if length p \<noteq> 65 then None
      else case hex_decode (tl p) of
             Inl err \<Rightarrow> None
           | Inr sibling \<Rightarrow>
               if length sibling \<noteq> 32 then None
               else if hd p = CHR ''L'' then walk_path (combineNodes sibling current) ps
               else if hd p = CHR ''R'' then walk_path (combineNodes current sibling) ps
               else None)"

definition VerifyInclusion :: "string \<Rightarrow> string list \<Rightarrow> string \<Rightarrow> bool" where
  "VerifyInclusion leaf path root =
     (case hex_decode root of
        Inl err \<Rightarrow> False
      | Inr rootBytes \<Rightarrow>
          if length rootBytes \<noteq> 32 then False
          else case walk_path (leafNode leaf) path of
                 None \<Rightarrow> False
               | Some current \<Rightarrow> current = rootBytes)"

text \<open>The table of lower-case nibbles used to corrupt a proof.\<close>

definition flipHex :: "char \<Rightarrow> char option" where
  "flipHex = map_of
     [(CHR ''0'', CHR ''1''), (CHR ''1'', CHR ''0''), (CHR ''2'', CHR ''3''), (CHR ''3'', CHR ''2''),
      (CHR ''4'', CHR ''5''), (CHR ''5'', CHR ''4''), (CHR ''6'', CHR ''7''), (CHR ''7'', CHR ''6''),
      (CHR ''8'', CHR ''9''), (CHR ''9'', CHR ''8''), (CHR ''a'', CHR ''b''), (CHR ''b'', CHR ''a''),
      (CHR ''c'', CHR ''d''), (CHR ''d'', CHR ''c''), (CHR ''e'', CHR ''f''), (CHR ''f'', CHR ''e'')]"

subsection \<open>Levels\<close>

lemma length_leafNode [simp, len_simps]: "length (leafNode s) = 32"
  by (simp add: leafNode_def)

lemma length_combineNodes [simp, len_simps]: "length (combineNodes a b) = 32"
  by (simp add: combineNodes_def)

lemma levels_from_single [simp]: "levels_from [x] = [[x]]"
  by (simp add: levels_from.simps)

lemma levels_from_step: "1 < length xs \<Longrightarrow> levels_from xs = xs # levels_from (next_level xs)"
  by (simp add: levels_from.simps [of xs])

lemma levels_from_not_Nil [simp]: "levels_from xs \<noteq> []"
  by (simp add: levels_from.simps [of xs])

definition level_root :: "bytes list \<Rightarrow> bytes" where
  "level_root xs = hd (last (levels_from xs))"

lemma level_root_single [simp]: "level_root [x] = x"
  by (simp add: level_root_def)

lemma level_root_step: "1 < length xs \<Longrightarrow> level_root xs = level_root (next_level xs)"
  by (simp add: level_root_def levels_from_step)

lemma butlast_levels_step: "1 < length xs \<Longrightarrow> butlast (levels_from xs) = xs # butlast (levels_from (next_level xs))"
  by (simp add: levels_from_step)

text \<open>Induction over the levels: a singleton, or a level above which the claim holds.\<close>

lemma level_induct [consumes 1, case_names single step]:
  assumes "xs \<noteq> []" and "\<And>x. P [x]"
    and "\<And>xs. 1 < length xs \<Longrightarrow> P (next_level xs) \<Longrightarrow> P xs"
  shows "P xs"
  using assms(1)
proof (induction xs rule: levels_from.induct)
  case (1 xs)
  show ?case
  proof (cases "1 < length xs")
    case True
    then have "next_level xs \<noteq> []" by (cases xs rule: next_level.cases) auto
    with True "1.IH" have "P (next_level xs)" by blast
    with True show ?thesis by (rule assms(3))
  next
    case False
    with "1.prems" obtain x where "xs = [x]" by (cases xs) auto
    then show ?thesis by (simp add: assms(2))
  qed
qed

lemma next_level_nth:
  "pos < length xs \<Longrightarrow> next_level xs ! (pos div 2) =
     (if pos mod 2 = 0 then combineNodes (xs ! pos) (if pos + 1 < length xs then xs ! (pos + 1) else xs ! pos)
      else combineNodes (xs ! (pos - 1)) (xs ! pos))"
proof (induction xs arbitrary: pos rule: next_level.induct)
  case (3 a b cs)
  show ?case
  proof (cases "pos < 2")
    case True
    then show ?thesis by (auto simp: less_2_cases_iff)
  next
    case False
    then obtain q where q: "pos = q + 2" by (metis add.commute le_Suc_ex not_less)
    have "pos div 2 = Suc (q div 2)" "pos mod 2 = q mod 2" using q by simp_all
    moreover have "pos = Suc (Suc q)" using q by simp
    moreover have "(a # b # cs) ! (Suc q) = cs ! (q - 1)" if "q mod 2 \<noteq> 0" using that by (cases q) simp_all
    ultimately show ?thesis using "3.prems" "3.IH" [of q] by simp
  qed
qed auto

lemma next_level_32: "\<forall>x \<in> set (next_level xs). length x = 32"
  by (induction xs rule: next_level.induct) simp_all

lemma length_hex_node: "length x = 32 \<Longrightarrow> length (d # hex_encode x) = 65"
  by simp

subsection \<open>Paths\<close>

lemma walk_path_append:
  "walk_path c (ps @ qs) = (case walk_path c ps of None \<Rightarrow> None | Some d \<Rightarrow> walk_path d qs)"
  by (induction c ps rule: walk_path.induct) (auto split: sum.split)

lemma walk_path_32: "walk_path c ps = Some d \<Longrightarrow> length c = 32 \<Longrightarrow> length d = 32"
  by (induction c ps rule: walk_path.induct) (auto split: if_splits sum.splits)

lemma walk_sibling_at:
  assumes "pos < length xs" and "\<forall>x \<in> set xs. length x = 32"
  shows "walk_path (xs ! pos) (sibling_at xs pos # ps) = walk_path (next_level xs ! (pos div 2)) ps"
  using assms next_level_nth [OF assms(1)] by (simp add: sibling_at_def)

lemma walk_sibling_path:
  assumes "xs \<noteq> []" and "\<forall>x \<in> set xs. length x = 32" and "pos < length xs"
  shows "walk_path (xs ! pos) (sibling_path (butlast (levels_from xs)) pos) = Some (level_root xs)"
  using assms
proof (induction xs arbitrary: pos rule: level_induct)
  case (step xs)
  have "pos div 2 < length (next_level xs)" using step.prems by simp
  then have "walk_path (next_level xs ! (pos div 2))
      (sibling_path (butlast (levels_from (next_level xs))) (pos div 2)) = Some (level_root xs)"
    using step.hyps step.IH [of "pos div 2"] by (simp add: next_level_32 level_root_step)
  then show ?case
    unfolding butlast_levels_step [OF step.hyps] sibling_path.simps
    using walk_sibling_at [OF step.prems(2,1)] by metis
qed simp_all

text \<open>What an element of a proof looks like.\<close>

definition proof_element :: "string \<Rightarrow> bool" where
  "proof_element p \<longleftrightarrow> (\<exists>d s. p = d # hex_encode s \<and> (d = CHR ''L'' \<or> d = CHR ''R'') \<and> length s = 32)"

lemma proof_element_sibling_at:
  assumes "\<forall>x \<in> set xs. length x = 32" and "pos < length xs"
  shows "proof_element (sibling_at xs pos)"
proof -
  have "length (xs ! i) = 32" if "i < length xs" for i using assms(1) that by simp
  moreover have "pos - 1 < length xs" using assms(2) by simp
  ultimately show ?thesis using assms(2) unfolding proof_element_def sibling_at_def by auto
qed

lemma sibling_path_elements:
  assumes "xs \<noteq> []" and "\<forall>x \<in> set xs. length x = 32" and "pos < length xs"
  shows "\<forall>p \<in> set (sibling_path (butlast (levels_from xs)) pos). proof_element p"
  using assms
proof (induction xs arbitrary: pos rule: level_induct)
  case (step xs)
  have "pos div 2 < length (next_level xs)" using step.prems by simp
  then have "\<forall>p \<in> set (sibling_path (butlast (levels_from (next_level xs))) (pos div 2)). proof_element p"
    using step.hyps step.IH [of "pos div 2"] by (simp add: next_level_32)
  then show ?case
    unfolding butlast_levels_step [OF step.hyps] sibling_path.simps
    using proof_element_sibling_at [OF step.prems(1,2)] by simp
qed simp_all

lemma sibling_path_length: "length (sibling_path ls pos) = length ls"
  by (induction ls pos rule: sibling_path.induct) simp_all

lemma depth_bounds:
  assumes "xs \<noteq> []"
  shows "length xs \<le> 2 ^ length (butlast (levels_from xs))
    \<and> (1 < length xs \<longrightarrow> 2 ^ length (butlast (levels_from xs)) < 2 * length xs)"
  using assms
proof (induction xs rule: level_induct)
  case (step xs)
  define d where "d = length (butlast (levels_from (next_level xs)))"
  have up: "(length xs + 1) div 2 \<le> 2 ^ d" using step.IH by (simp add: d_def)
  have low: "2 ^ d < 2 * ((length xs + 1) div 2)" if "1 < (length xs + 1) div 2"
    using step.IH that by (simp add: d_def)
  have "2 ^ d < length xs"
  proof (cases "length xs = 2")
    case True
    then have "levels_from (next_level xs) = [next_level xs]"
      by (simp add: levels_from.simps [of "next_level xs"])
    then show ?thesis using True by (simp add: d_def)
  next
    case False
    then have low: "2 ^ d < 2 * ((length xs + 1) div 2)" using step.hyps by (intro low) linarith
    show ?thesis
    proof (cases "even (length xs)")
      case True
      with low show ?thesis by auto
    next
      case odd: False
      then have "2 ^ d < length xs + 1" using low by (auto elim!: oddE)
      moreover have "2 ^ d \<noteq> length xs" if "d \<noteq> 0" using odd that by (metis even_power even_numeral neq0_conv)
      moreover have "1 < length xs" by (rule step.hyps)
      ultimately show ?thesis by (cases "d = 0") auto
    qed
  qed
  moreover have "length (butlast (levels_from xs)) = Suc d"
    using step.hyps by (simp only: butlast_levels_step d_def list.size)
  moreover have "length xs \<le> 2 * 2 ^ d" using up by linarith
  ultimately show ?case by simp
qed simp

lemma InclusionProof_eq:
  "0 \<le> idx \<Longrightarrow> idx < int (length leaves) \<Longrightarrow>
   InclusionProof leaves idx = Inr (sibling_path (butlast (buildLevels leaves)) (nat idx))"
proof -
  assume a: "0 \<le> idx" "idx < int (length leaves)"
  have "butlast (buildLevels leaves) = []" if "length leaves = 1"
    using that by (auto simp: length_Suc_conv buildLevels_def)
  with a show ?thesis by (simp add: InclusionProof_def)
qed

lemma MerkleRoot_eq: "leaves \<noteq> [] \<Longrightarrow> MerkleRoot leaves = Inr (hex_encode (level_root (map leafNode leaves)))"
  by (simp add: MerkleRoot_def buildLevels_def level_root_def)

lemma MerkleRoot_error: "is_ok (MerkleRoot leaves) \<longleftrightarrow> leaves \<noteq> []"
  by (simp add: MerkleRoot_def)

lemma VerifyInclusion_iff:
  "length r = 32 \<Longrightarrow> VerifyInclusion leaf path (hex_encode r) \<longleftrightarrow> walk_path (leafNode leaf) path = Some r"
  by (simp add: VerifyInclusion_def split: option.split)

lemma level_root_32: "xs \<noteq> [] \<Longrightarrow> \<forall>x \<in> set xs. length x = 32 \<Longrightarrow> length (level_root xs) = 32"
  by (induction xs rule: level_induct) (simp_all add: level_root_step next_level_32)

text \<open>Which roots accept a leaf with the path that was built for it.\<close>

lemma VerifyInclusion_of_proof:
  assumes "InclusionProof leaves idx = Inr path"
  shows "VerifyInclusion (leaves ! nat idx) path root \<longleftrightarrow> hex_decode root = Inr (level_root (map leafNode leaves))"
proof -
  let ?ns = "map leafNode leaves"
  have idx: "0 \<le> idx" "idx < int (length leaves)"
    using assms by (auto simp: InclusionProof_def split: if_splits)
  then have ns: "?ns \<noteq> []" "\<forall>x \<in> set ?ns. length x = 32" "nat idx < length ?ns" by auto
  have path: "path = sibling_path (butlast (levels_from ?ns)) (nat idx)"
    using InclusionProof_eq [OF idx] assms by (simp add: buildLevels_def)
  have "walk_path (leafNode (leaves ! nat idx)) path = Some (level_root ?ns)"
    using walk_sibling_path [OF ns] ns(3) path by simp
  moreover have "length (level_root ?ns) = 32" by (rule level_root_32 [OF ns(1,2)])
  ultimately show ?thesis by (auto simp: VerifyInclusion_def split: sum.split)
qed

subsection \<open>The abstract tree\<close>

datatype mtree = MLeaf string | MNode mtree mtree

primrec mhash :: "mtree \<Rightarrow> bytes" where
  "mhash (MLeaf s) = leafNode s"
| "mhash (MNode l r) = combineNodes (mhash l) (mhash r)"

primrec mleaves :: "mtree \<Rightarrow> string list" where
  "mleaves (MLeaf s) = [s]"
| "mleaves (MNode l r) = mleaves l @ mleaves r"

text \<open>The messages that are hashed to compute a tree's root.\<close>

primrec mmessages :: "mtree \<Rightarrow> bytes set" where
  "mmessages (MLeaf s) = {leafPrefix # s}"
| "mmessages (MNode l r) =
     insert (internalPrefix # mhash l @ mhash r) (mmessages l \<union> mmessages r)"

fun pair_trees :: "mtree list \<Rightarrow> mtree list" where
  "pair_trees [] = []"
| "pair_trees [a] = [MNode a a]"
| "pair_trees (a # b # cs) = MNode a b # pair_trees cs"

lemma length_pair_trees [simp]: "length (pair_trees xs) = (length xs + 1) div 2"
  by (induction xs rule: pair_trees.induct) simp_all

function tree_from :: "mtree list \<Rightarrow> mtree" where
  "tree_from ts = (if 1 < length ts then tree_from (pair_trees ts) else hd ts)"
  by pat_completeness auto
termination
  by (relation "measure length") auto

declare tree_from.simps [simp del]

lemma tree_from_single [simp]: "tree_from [t] = t"
  by (simp add: tree_from.simps)

definition merkle_tree :: "string list \<Rightarrow> mtree" where
  "merkle_tree leaves = tree_from (map MLeaf leaves)"

lemma map_mhash_pair_trees: "map mhash (pair_trees ts) = next_level (map mhash ts)"
  by (induction ts rule: pair_trees.induct) simp_all

lemma set_mleaves_pair_trees: "(\<Union>t \<in> set (pair_trees ts). set (mleaves t)) = (\<Union>t \<in> set ts. set (mleaves t))"
  by (induction ts rule: pair_trees.induct) auto

lemma tree_from_refines:
  "ts \<noteq> [] \<Longrightarrow> mhash (tree_from ts) = level_root (map mhash ts)
     \<and> set (mleaves (tree_from ts)) = (\<Union>t \<in> set ts. set (mleaves t))"
proof (induction ts rule: tree_from.induct)
  case (1 ts)
  show ?case
  proof (cases "1 < length ts")
    case True
    then have "pair_trees ts \<noteq> []" by (cases ts rule: pair_trees.cases) auto
    then show ?thesis
      using True "1.IH" by (simp add: tree_from.simps [of ts] map_mhash_pair_trees level_root_step set_mleaves_pair_trees)
  next
    case False
    with "1.prems" obtain t where "ts = [t]" by (cases ts) auto
    then show ?thesis by simp
  qed
qed

lemma pair_trees_inj: "length xs = length ys \<Longrightarrow> pair_trees xs = pair_trees ys \<Longrightarrow> xs = ys"
proof (induction xs arbitrary: ys rule: pair_trees.induct)
  case (3 a b cs)
  then obtain c d es where "ys = c # d # es" by (cases ys rule: pair_trees.cases) auto
  with 3 show ?case by simp
next
  case (2 a)
  then show ?case by (cases ys rule: pair_trees.cases) auto
qed simp

lemma tree_from_inj: "length xs = length ys \<Longrightarrow> tree_from xs = tree_from ys \<Longrightarrow> xs = ys"
proof (induction xs arbitrary: ys rule: tree_from.induct)
  case (1 xs)
  show ?case
  proof (cases "1 < length xs")
    case True
    then have "tree_from (pair_trees xs) = tree_from (pair_trees ys)"
      using "1.prems" by (simp add: tree_from.simps [of xs] tree_from.simps [of ys])
    then have "pair_trees xs = pair_trees ys" using True "1.IH" "1.prems" by simp
    then show ?thesis using pair_trees_inj "1.prems" by blast
  next
    case False
    then show ?thesis
      using "1.prems" by (cases xs; cases ys) auto
  qed
qed

lemma mleaves_pair_trees:
  "\<exists>dups. concat (map mleaves (pair_trees ts)) = concat (map mleaves ts) @ dups"
  by (induction ts rule: pair_trees.induct) auto

lemma mleaves_tree_from:
  "ts \<noteq> [] \<Longrightarrow> \<exists>dups. mleaves (tree_from ts) = concat (map mleaves ts) @ dups"
proof (induction ts rule: tree_from.induct)
  case (1 ts)
  show ?case
  proof (cases "1 < length ts")
    case True
    then have "pair_trees ts \<noteq> []" by (cases ts rule: pair_trees.cases) auto
    then obtain d where "mleaves (tree_from ts) = concat (map mleaves (pair_trees ts)) @ d"
      using True "1.IH" by (auto simp: tree_from.simps [of ts])
    with mleaves_pair_trees [of ts] show ?thesis by auto
  next
    case False
    with "1.prems" obtain t where "ts = [t]" by (cases ts) auto
    then show ?thesis by simp
  qed
qed

lemma concat_map_MLeaf [simp]: "concat (map (mleaves \<circ> MLeaf) xs) = xs"
  by (induction xs) simp_all

lemma merkle_tree_root:
  "leaves \<noteq> [] \<Longrightarrow> MerkleRoot leaves = Inr (hex_encode (mhash (merkle_tree leaves)))"
  using tree_from_refines [of "map MLeaf leaves"]
  by (simp add: merkle_tree_def MerkleRoot_eq comp_def)

lemma set_mleaves_merkle_tree: "leaves \<noteq> [] \<Longrightarrow> set (mleaves (merkle_tree leaves)) = set leaves"
  using tree_from_refines [of "map MLeaf leaves"] by (simp add: merkle_tree_def)

lemma merkle_tree_inj: "length xs = length ys \<Longrightarrow> merkle_tree xs = merkle_tree ys \<Longrightarrow> xs = ys"
  unfolding merkle_tree_def
  by (drule tree_from_inj [rotated]) (auto dest: map_injective simp: inj_def)

lemma length_mhash [simp]: "length (mhash t) = 32"
  by (cases t) simp_all

lemma walk_path_ConsD:
  "walk_path c (p # ps) = Some d \<Longrightarrow>
     length p = 65 \<and> (hd p = CHR ''L'' \<or> hd p = CHR ''R'') \<and> (\<exists>c'. walk_path c' ps = Some d)"
  by (simp split: if_splits sum.splits) blast+

lemma walk_path_shape:
  "walk_path c ps = Some d \<Longrightarrow> p \<in> set ps \<Longrightarrow> length p = 65 \<and> (hd p = CHR ''L'' \<or> hd p = CHR ''R'')"
proof (induction ps arbitrary: c)
  case (Cons q qs)
  with walk_path_ConsD [of c q qs d] show ?case by fastforce
qed simp

subsection \<open>Collisions\<close>

text \<open>The messages \<open>VerifyInclusion\<close> hashes.\<close>

fun path_messages :: "bytes \<Rightarrow> string list \<Rightarrow> bytes set" where
  "path_messages current [] = {}"
| "path_messages current (p # ps) =
     (case hex_decode (tl p) of
        Inl err \<Rightarrow> {}
      | Inr sibling \<Rightarrow>
          if hd p = CHR ''L''
          then insert (internalPrefix # sibling @ current) (path_messages (combineNodes sibling current) ps)
          else insert (internalPrefix # current @ sibling) (path_messages (combineNodes current sibling) ps))"

definition proof_messages :: "string \<Rightarrow> string list \<Rightarrow> bytes set" where
  "proof_messages leaf path = insert (leafPrefix # leaf) (path_messages (leafNode leaf) path)"

lemma path_messages_append:
  "walk_path c ps = Some d \<Longrightarrow> path_messages c (ps @ qs) = path_messages c ps \<union> path_messages d qs"
  by (induction c ps rule: walk_path.induct) (auto split: if_splits sum.splits)

lemma prefixes_differ [simp]: "leafPrefix \<noteq> internalPrefix" "internalPrefix \<noteq> leafPrefix"
  by (simp_all add: leafPrefix_def internalPrefix_def)

lemma mhash_message: "\<exists>m \<in> mmessages t. mhash t = sha256 m \<and> (hd m = leafPrefix \<longleftrightarrow> (\<exists>s. t = MLeaf s))"
  by (cases t) (simp_all add: leafNode_def combineNodes_def)

text \<open>One step back along a path: the last element of the path is an internal message.\<close>

lemma walk_path_snocD:
  assumes "walk_path c (ps @ [p]) = Some d"
  obtains e sibling where "walk_path c ps = Some e" and "length sibling = 32"
    and "d = combineNodes sibling e \<and> internalPrefix # sibling @ e \<in> path_messages c (ps @ [p])
       \<or> d = combineNodes e sibling \<and> internalPrefix # e @ sibling \<in> path_messages c (ps @ [p])"
  using assms
  by (auto simp: walk_path_append path_messages_append split: option.splits if_splits sum.splits)

lemma walk_path_sound:
  assumes "walk_path (leafNode leaf) path = Some (mhash t)"
  shows "leaf \<in> set (mleaves t) \<or> collides (mmessages t) (proof_messages leaf path)"
  using assms
proof (induction path arbitrary: t rule: rev_induct)
  case Nil
  then have same: "mhash t = sha256 (leafPrefix # leaf)" by (simp add: leafNode_def)
  show ?case
  proof (cases t)
    case (MLeaf s)
    with same show ?thesis
      by (auto simp: leafNode_def proof_messages_def collides_def)
  next
    case (MNode l r)
    have "collides (mmessages t) (proof_messages leaf [])"
      by (rule collidesI [of "internalPrefix # mhash l @ mhash r" "leafPrefix # leaf"])
        (use same MNode in \<open>simp_all add: combineNodes_def proof_messages_def\<close>)
    then show ?thesis ..
  qed
next
  case (snoc p ps)
  then obtain e sibling where e: "walk_path (leafNode leaf) ps = Some e" "length sibling = 32"
    and d: "mhash t = combineNodes sibling e \<and> internalPrefix # sibling @ e \<in> path_messages (leafNode leaf) (ps @ [p])
       \<or> mhash t = combineNodes e sibling \<and> internalPrefix # e @ sibling \<in> path_messages (leafNode leaf) (ps @ [p])"
    by (elim walk_path_snocD) auto
  have e32: "length e = 32" using walk_path_32 [OF e(1)] by simp
  obtain m where m: "mhash t = sha256 (internalPrefix # m)" "internalPrefix # m \<in> proof_messages leaf (ps @ [p])"
    "m = sibling @ e \<or> m = e @ sibling"
    using d by (auto simp: combineNodes_def proof_messages_def)
  show ?case
  proof (cases "internalPrefix # m \<in> mmessages t \<and> (\<exists>l r. t = MNode l r \<and> m = mhash l @ mhash r)")
    case True
    then obtain l r where t: "t = MNode l r" "m = mhash l @ mhash r" by blast
    have "e = mhash l \<or> e = mhash r" using m(3) t(2) e32 e(2) by (auto simp: append_eq_append_conv)
    then obtain u where u: "u = l \<or> u = r" "e = mhash u" by blast
    have "leaf \<in> set (mleaves u) \<or> collides (mmessages u) (proof_messages leaf ps)"
      using snoc.IH e(1) u(2) by blast
    moreover have "set (mleaves u) \<subseteq> set (mleaves t)" "mmessages u \<subseteq> mmessages t"
      using u(1) t(1) by auto
    moreover have "proof_messages leaf ps \<subseteq> proof_messages leaf (ps @ [p])"
      using path_messages_append [OF e(1), of "[p]"] by (auto simp: proof_messages_def)
    ultimately show ?thesis using collides_mono by blast
  next
    case False
    then have "collides (mmessages t) (proof_messages leaf (ps @ [p]))"
      using m by (cases t) (auto intro!: collidesI simp: leafNode_def combineNodes_def)
    then show ?thesis ..
  qed
qed

lemma mhash_binding: "mhash t = mhash u \<Longrightarrow> t = u \<or> collides (mmessages t) (mmessages u)"
proof (induction t arbitrary: u)
  case (MLeaf s)
  then show ?case
    by (cases u) (auto simp: leafNode_def combineNodes_def collides_def)
next
  case (MNode l r)
  show ?case
  proof (cases u)
    case (MLeaf s)
    with MNode.prems show ?thesis by (auto simp: leafNode_def combineNodes_def collides_def)
  next
    case (MNode l' r')
    show ?thesis
    proof (cases "mhash l = mhash l' \<and> mhash r = mhash r'")
      case True
      then have "l = l' \<or> collides (mmessages l) (mmessages l')" "r = r' \<or> collides (mmessages r) (mmessages r')"
        using MNode.IH by blast+
      moreover have "mmessages l \<subseteq> mmessages (MNode l r)" "mmessages r \<subseteq> mmessages (MNode l r)"
        "mmessages l' \<subseteq> mmessages u" "mmessages r' \<subseteq> mmessages u"
        using MNode by auto
      ultimately show ?thesis using MNode collides_mono by blast
    next
      case False
      then have "mhash l @ mhash r \<noteq> mhash l' @ mhash r'" by (simp add: append_eq_append_conv)
      then show ?thesis
        using MNode MNode.prems by (auto simp: combineNodes_def collides_def)
    qed
  qed
qed

lemma next_level_duplicate:
  "even (length xs) \<Longrightarrow> next_level (xs @ [x]) = next_level (xs @ [x, x])"
  by (induction xs rule: next_level.induct) simp_all

text \<open>Two lists of one length with one root.\<close>

lemma root_binding:
  assumes "MerkleRoot xs = Inr root" and "MerkleRoot ys = Inr root" and "length xs = length ys"
  shows "xs = ys \<or> collides (mmessages (merkle_tree xs)) (mmessages (merkle_tree ys))"
proof -
  have ne: "xs \<noteq> []" "ys \<noteq> []" using assms(1,2) by (auto simp: MerkleRoot_def)
  then have "hex_encode (mhash (merkle_tree xs)) = hex_encode (mhash (merkle_tree ys))"
    using assms(1,2) by (simp add: merkle_tree_root)
  then have "mhash (merkle_tree xs) = mhash (merkle_tree ys)" by (simp only: hex_encode_eq_iff)
  from mhash_binding [OF this] show ?thesis using merkle_tree_inj [OF assms(3)] by blast
qed

subsection \<open>Properties\<close>

text \<open>C9. Completeness: for every leaf of a list, \<open>InclusionProof\<close> and \<open>MerkleRoot\<close> return, the
  root is 64 characters long, and \<open>VerifyInclusion\<close> accepts the leaf with that path and root.\<close>

theorem VerifyInclusion_complete:
  assumes "0 \<le> idx" and "idx < int (length leaves)"
  shows "\<exists>path root. InclusionProof leaves idx = Inr path \<and> MerkleRoot leaves = Inr root
    \<and> length root = 64 \<and> VerifyInclusion (leaves ! nat idx) path root"
proof -
  let ?ns = "map leafNode leaves"
  have ns: "?ns \<noteq> []" "\<forall>x \<in> set ?ns. length x = 32" "nat idx < length ?ns" using assms by auto
  have "length (level_root ?ns) = 32" by (rule level_root_32 [OF ns(1,2)])
  moreover from this have "VerifyInclusion (leaves ! nat idx) (sibling_path (butlast (buildLevels leaves)) (nat idx))
      (hex_encode (level_root ?ns))"
    using walk_sibling_path [OF ns] ns(3) by (simp add: VerifyInclusion_iff buildLevels_def)
  ultimately show ?thesis
    using InclusionProof_eq [OF assms] MerkleRoot_eq [of leaves] ns(1) by simp
qed

theorem VerifyInclusion_complete_witness:
  "\<exists>path root. InclusionProof [''a'', ''b'', ''c''] 2 = Inr path \<and> MerkleRoot [''a'', ''b'', ''c''] = Inr root
    \<and> length root = 64 \<and> VerifyInclusion ([''a'', ''b'', ''c''] ! nat 2) path root"
  using VerifyInclusion_complete [of 2 "[''a'', ''b'', ''c'']"] by simp

text \<open>C40. The length of an inclusion proof is the base-2 logarithm of the number of leaves, rounded
  up: with \<open>d\<close> elements the tree has at most \<open>2 ^ d\<close> leaves and, unless it is a single leaf, more
  than \<open>2 ^ (d - 1)\<close>. Every element is a direction byte, \<open>L\<close> or \<open>R\<close>, and the hexadecimal form of a 32-byte hash
  (64 lowercase digits).\<close>

theorem InclusionProof_length:
  assumes "InclusionProof leaves idx = Inr path"
  shows "length leaves \<le> 2 ^ length path \<and> (1 < length leaves \<longrightarrow> 2 ^ length path < 2 * length leaves)
    \<and> (\<forall>p \<in> set path. proof_element p)"
proof -
  let ?ns = "map leafNode leaves"
  have idx: "0 \<le> idx" "idx < int (length leaves)"
    using assms by (auto simp: InclusionProof_def split: if_splits)
  then have ns: "?ns \<noteq> []" "\<forall>x \<in> set ?ns. length x = 32" "nat idx < length ?ns" by auto
  have path: "path = sibling_path (butlast (levels_from ?ns)) (nat idx)"
    using InclusionProof_eq [OF idx] assms by (simp add: buildLevels_def)
  have "length path = length (butlast (levels_from ?ns))" by (simp only: path sibling_path_length)
  moreover have "length leaves \<le> 2 ^ length (butlast (levels_from ?ns))
      \<and> (1 < length leaves \<longrightarrow> 2 ^ length (butlast (levels_from ?ns)) < 2 * length leaves)"
    using depth_bounds [OF ns(1)] by simp
  moreover have "\<forall>p \<in> set path. proof_element p"
    using sibling_path_elements [OF ns] path by simp
  ultimately show ?thesis by simp
qed

theorem InclusionProof_length_witness:
  "\<exists>path. InclusionProof [''a'', ''b'', ''c''] 0 = Inr path \<and> 2 ^ length path < (6::nat) \<and> (3::nat) \<le> 2 ^ length path
    \<and> list_all proof_element path"
proof -
  obtain path where "InclusionProof [''a'', ''b'', ''c''] 0 = Inr path"
    using InclusionProof_eq [of 0 "[''a'', ''b'', ''c'']"] by simp
  with InclusionProof_length [OF this] show ?thesis by (auto simp: list_all_iff)
qed

text \<open>C10. The root is the root hash of the abstract binary tree over the leaves, whose leaves from
  left to right are the given ones followed by repetitions only of given ones (an odd level repeats
  its last node).\<close>

theorem MerkleRoot_refines_tree:
  assumes "leaves \<noteq> []"
  shows "MerkleRoot leaves = Inr (hex_encode (mhash (merkle_tree leaves)))
    \<and> take (length leaves) (mleaves (merkle_tree leaves)) = leaves
    \<and> set (mleaves (merkle_tree leaves)) = set leaves"
proof -
  obtain d where "mleaves (merkle_tree leaves) = leaves @ d"
    using mleaves_tree_from [of "map MLeaf leaves"] assms by (auto simp: merkle_tree_def)
  then have "take (length leaves) (mleaves (merkle_tree leaves)) = leaves" by simp
  with assms show ?thesis by (simp only: merkle_tree_root set_mleaves_merkle_tree simp_thms)
qed

theorem MerkleRoot_refines_tree_witness:
  "MerkleRoot [''a'', ''b'', ''c''] = Inr (hex_encode (mhash (merkle_tree [''a'', ''b'', ''c''])))
    \<and> mleaves (merkle_tree [''a'', ''b'', ''c'']) = [''a'', ''b'', ''c'', ''c'']"
  using MerkleRoot_refines_tree [of "[''a'', ''b'', ''c'']"]
  by (simp add: merkle_tree_def tree_from.simps)

text \<open>C8. Soundness: when \<open>VerifyInclusion\<close> accepts a string against the root of a list, the string
  is one of the list, or a message the proof's check hashes collides with one hashed to build the
  tree. In particular an internal node cannot pass for a leaf, whatever the length of the path.\<close>

theorem VerifyInclusion_sound:
  assumes "MerkleRoot leaves = Inr root" and "VerifyInclusion leaf path root"
  shows "leaf \<in> set leaves \<or> collides (mmessages (merkle_tree leaves)) (proof_messages leaf path)"
proof -
  have ne: "leaves \<noteq> []" using assms(1) by (auto simp: MerkleRoot_def)
  then have "root = hex_encode (mhash (merkle_tree leaves))" using assms(1) by (simp add: merkle_tree_root)
  with assms(2) have "walk_path (leafNode leaf) path = Some (mhash (merkle_tree leaves))"
    by (simp add: VerifyInclusion_iff)
  from walk_path_sound [OF this] show ?thesis by (simp add: set_mleaves_merkle_tree [OF ne])
qed

theorem VerifyInclusion_sound_witness:
  "\<exists>root. MerkleRoot [''a''] = Inr root \<and> VerifyInclusion ''a'' [] root
    \<and> (''a'' \<in> set [''a''] \<or> collides (mmessages (merkle_tree [''a''])) (proof_messages ''a'' []))"
proof -
  have root: "MerkleRoot [''a''] = Inr (hex_encode (leafNode ''a''))"
    by (simp add: MerkleRoot_eq)
  moreover have "VerifyInclusion ''a'' [] (hex_encode (leafNode ''a''))"
    by (simp add: VerifyInclusion_iff)
  ultimately show ?thesis using VerifyInclusion_sound by blast
qed

text \<open>Binding: two lists of the same length with the same root are the same list, or the
  messages hashed for the one collide with those hashed for the other.\<close>

theorem MerkleRoot_binding:
  assumes "MerkleRoot xs = Inr root" and "MerkleRoot ys = Inr root" and "length xs = length ys"
  shows "xs = ys \<or> collides (mmessages (merkle_tree xs)) (mmessages (merkle_tree ys))"
  using assms by (rule root_binding)

theorem MerkleRoot_binding_witness:
  "\<exists>root. MerkleRoot [''a'', ''b''] = Inr root
    \<and> ([''a'', ''b''] = [''a'', ''b'']
       \<or> collides (mmessages (merkle_tree [''a'', ''b''])) (mmessages (merkle_tree [''a'', ''b''])))"
proof -
  have "MerkleRoot [''a'', ''b''] = Inr (hex_encode (mhash (merkle_tree [''a'', ''b''])))"
    by (rule merkle_tree_root) simp
  from MerkleRoot_binding [OF this this] show ?thesis using merkle_tree_root [of "[''a'', ''b'']"] by auto
qed

text \<open>The length is needed in \<open>MerkleRoot_binding\<close>: after an even, positive number of leaves, repeating the last
  leaf of an odd list does not change the root, so a root does not determine how many leaves it
  covers, and \<open>VerifyInclusion\<close> cannot tell the two lists apart.\<close>

theorem MerkleRoot_duplicate_last:
  assumes "even (length xs)" and "xs \<noteq> []"
  shows "MerkleRoot (xs @ [x]) = MerkleRoot (xs @ [x, x])"
proof -
  let ?ns = "map leafNode xs" and ?n = "leafNode x"
  have "1 < length (?ns @ [?n])" "1 < length (?ns @ [?n, ?n])" using assms(2) by auto
  then have "level_root (?ns @ [?n]) = level_root (?ns @ [?n, ?n])"
    using next_level_duplicate [of ?ns ?n] assms(1) by (simp only: level_root_step length_map)
  then show ?thesis by (simp add: MerkleRoot_eq)
qed

theorem MerkleRoot_duplicate_last_witness:
  "MerkleRoot [''a'', ''b'', ''c''] = MerkleRoot [''a'', ''b'', ''c'', ''c'']"
  using MerkleRoot_duplicate_last [of "[''a'', ''b'']" "''c''"] by simp

end
