(* ===== verification/Step_Anchor.thy ===== *)
theory Step_Anchor
  imports World Merkle
begin

section \<open>step.audit.anchor\<close>

text \<open>
  \<^verbatim>\<open>steps/anchor.go\<close>: the Merkle root over a range of a ledger is submitted to each provider in turn and
  recorded in \<^verbatim>\<open>audit_anchors\<close>. There is no transaction: every INSERT stands on its own, and \<^verbatim>\<open>ON CONFLICT
  DO NOTHING\<close> skips it when the ledger, provider and range are already recorded. \<open>anchors_ok\<close> is the
  promise that makes inclusion proofs verify: every recorded root is the root over the rows its range
  covers now.
\<close>

subsection \<open>The code\<close>

definition anchored_rows :: "database \<Rightarrow> string \<Rightarrow> int64 \<Rightarrow> int64 \<Rightarrow> log_row list" where
  "anchored_rows db ledger startSeq endSeq = select_log db ledger (\<lambda>s. sint startSeq \<le> s \<and> s \<le> sint endSeq)"

definition anchor_key :: "anchor_row \<Rightarrow> string \<times> string \<times> int64 \<times> int64" where
  "anchor_key a = (anchor_ledger a, anchor_provider a, range_start a, range_end a)"

definition insert_anchor :: "pg \<Rightarrow> nat \<Rightarrow> database \<Rightarrow> anchor_row \<Rightarrow> database result" where
  "insert_anchor pg i db r =
     (case pg_fault pg (InsertAnchor i) of
        Some e \<Rightarrow> Inl e
      | None \<Rightarrow>
          if anchor_key r \<in> anchor_key ` set (audit_anchors db) then Inr db
          else if anchor_id r \<in> anchor_id ` set (audit_anchors db) then Inl (unique_violation ''audit_anchors_pkey'')
          else Inr (db\<lparr>audit_anchors := audit_anchors db @ [r]\<rparr>))"

definition new_anchor :: "pg \<Rightarrow> nat \<Rightarrow> string \<Rightarrow> int64 \<Rightarrow> int64 \<Rightarrow> string \<Rightarrow> Anchor \<Rightarrow> anchor_row" where
  "new_anchor pg i ledger startSeq endSeq root a =
     \<lparr>anchor_id = pg_nextval pg (InsertAnchor i), anchor_ledger = ledger, range_start = startSeq, range_end = endSeq,
      anchor_merkle_root = root, anchor_provider = ProviderName a, anchor_external_id = Some (ExternalID a),
      anchor_proof_data = ProofData a, anchor_confirmation = Confirmation a, anchor_anchored_at = AnchoredAt a,
      confirmed_at = None, finalized_at = None\<rparr>"

definition anchor_record :: "Anchor \<Rightarrow> AnchorRecord" where
  "anchor_record a =
     \<lparr>rec_Provider = ProviderName a, rec_ExternalId = ExternalID a, rec_Confirmation = Confirmation a,
      rec_AnchoredAt = format_rfc3339 (AnchoredAt a)\<rparr>"

text \<open>The loop over the provider names; \<open>i\<close> counts the calls.\<close>

fun anchor_loop ::
  "pg \<Rightarrow> registry \<Rightarrow> string \<Rightarrow> int64 \<Rightarrow> int64 \<Rightarrow> string \<Rightarrow> nat \<Rightarrow> database \<Rightarrow> AnchorRecord list \<Rightarrow> string list
    \<Rightarrow> database \<times> AnchorRecord list result" where
  "anchor_loop pg reg ledger startSeq endSeq root i db recs [] = (db, Inr recs)"
| "anchor_loop pg reg ledger startSeq endSeq root i db recs (name # names) =
     (case GetAnchorProvider reg name of
        None \<Rightarrow> (db, Inl (Errorf ''step.audit.anchor: anchor provider %q not registered'' [ArgS name]))
      | Some p \<Rightarrow>
     (case pAnchor p i root of
        Inl e \<Rightarrow> (db, Inl (Errorf ''step.audit.anchor: provider %q: %w'' [ArgS name, ArgE e]))
      | Inr a \<Rightarrow>
     (case insert_anchor pg i db (new_anchor pg i ledger startSeq endSeq root a) of
        Inl e \<Rightarrow> (db, Inl (Errorf ''step.audit.anchor: insert audit_anchors for provider %q: %w'' [ArgS name, ArgE e]))
      | Inr db' \<Rightarrow>
          anchor_loop pg reg ledger startSeq endSeq root (Suc i) db' (recs @ [anchor_record a]) names)))"

text \<open>The range's end: 0 stands for the ledger's last sequence number.\<close>

definition resolve_end :: "pg \<Rightarrow> database \<Rightarrow> AnchorRequest \<Rightarrow> int64 result" where
  "resolve_end pg db input =
     (if nq_EndSequence input = 0
      then case query_row pg SelectLast (cursor_rows db (nq_Ledger input)) of
             Inl e \<Rightarrow> Inl (Errorf ''step.audit.anchor: resolve last_sequence for %q: %w'' [ArgS (nq_Ledger input), ArgE e])
           | Inr c \<Rightarrow> Inr (last_sequence c)
      else Inr (nq_EndSequence input))"

text \<open>The entry hashes of the range and their root.\<close>

definition anchor_root :: "pg \<Rightarrow> database \<Rightarrow> string \<Rightarrow> int64 \<Rightarrow> int64 \<Rightarrow> string result" where
  "anchor_root pg db ledger startSeq endSeq =
     (case query_rows pg SelectAnchored (anchored_rows db ledger startSeq endSeq) of
        Inl e \<Rightarrow> Inl (Errorf ''step.audit.anchor: query entry hashes: %w'' [ArgE e])
      | Inr (rows, rows_err) \<Rightarrow>
     (case scan_all pg SelectAnchored (\<lambda>r. Inr (log_entry_hash r)) rows of
        Inl e \<Rightarrow> Inl (Errorf ''step.audit.anchor: scan: %w'' [ArgE e])
      | Inr hashes \<Rightarrow>
     (case rows_err of
        Some e \<Rightarrow> Inl (Errorf ''step.audit.anchor: rows: %w'' [ArgE e])
      | None \<Rightarrow>
          if hashes = []
          then Inl (Errorf ''step.audit.anchor: no entries in ledger %q sequence range [%d, %d]''
                      [ArgS ledger, ArgI (sint startSeq), ArgI (sint endSeq)])
          else case MerkleRoot hashes of
                 Inl e \<Rightarrow> Inl (Errorf ''step.audit.anchor: %w'' [ArgE e])
               | Inr root \<Rightarrow> Inr root)))"

definition AnchorHandler ::
  "pg \<Rightarrow> (string list \<Rightarrow> string list) \<Rightarrow> world \<Rightarrow> AnchorRequest \<Rightarrow> world \<times> AnchorResponse result" where
  "AnchorHandler pg order w input =
     (if nq_Ledger input = [] then (w, Inl (Errorf ''step.audit.anchor: ledger is required'' []))
      else case GetDB (w_registry w) (nq_Ledger input) of
             None \<Rightarrow>
               (w, Inl (Errorf ''step.audit.anchor: ledger %q not registered; ensure the audit.ledger module is initialised''
                          [ArgS (nq_Ledger input)]))
           | Some d \<Rightarrow>
     (case resolve_end pg (pool_db w d) input of
        Inl e \<Rightarrow> (w, Inl e)
      | Inr endSeq \<Rightarrow>
     (case anchor_root pg (pool_db w d) (nq_Ledger input) (nq_StartSequence input) endSeq of
        Inl e \<Rightarrow> (w, Inl e)
      | Inr root \<Rightarrow>
          let providerNames = (if nq_Providers input = [] then AnchorProviderNames order (w_registry w)
                               else nq_Providers input)
          in case anchor_loop pg (w_registry w) (nq_Ledger input) (nq_StartSequence input) endSeq root 0
                    (pool_db w d) [] providerNames of
               (db', Inl e) \<Rightarrow> (put_db w d db', Inl e)
             | (db', Inr recs) \<Rightarrow> (put_db w d db', Inr \<lparr>nr_Anchors = recs\<rparr>))))"

subsection \<open>What an anchor row promises\<close>

definition anchor_ok :: "database \<Rightarrow> anchor_row \<Rightarrow> bool" where
  "anchor_ok db a \<longleftrightarrow>
     MerkleRoot (map log_entry_hash (anchored_rows db (anchor_ledger a) (range_start a) (range_end a)))
       = Inr (anchor_merkle_root a)
   \<and> sint (range_end a) \<le> int (length (ledger_rows db (anchor_ledger a)))"

definition anchors_ok :: "database \<Rightarrow> string \<Rightarrow> bool" where
  "anchors_ok db l \<longleftrightarrow> (\<forall>a \<in> set (audit_anchors db). anchor_ledger a = l \<longrightarrow> anchor_ok db a)"

definition anchors_unique :: "database \<Rightarrow> bool" where
  "anchors_unique db \<longleftrightarrow> distinct (map anchor_id (audit_anchors db)) \<and> distinct (map anchor_key (audit_anchors db))"

subsection \<open>The loop\<close>

lemma insert_anchor_InrD:
  "insert_anchor pg i db r = Inr db' \<Longrightarrow>
     \<exists>new. db' = db\<lparr>audit_anchors := audit_anchors db @ new\<rparr> \<and> set new \<subseteq> {r}
       \<and> anchor_key r \<in> anchor_key ` set (audit_anchors db') \<and> (anchors_unique db \<longrightarrow> anchors_unique db')
       \<and> (anchor_key r \<in> anchor_key ` set (audit_anchors db) \<longrightarrow> new = [])"
  by (auto simp: insert_anchor_def anchors_unique_def split: option.splits if_splits
      intro: exI [of _ "[]"] exI [of _ "[r]"])

text \<open>What a row that the loop adds looks like.\<close>

definition anchor_row_for :: "string \<Rightarrow> int64 \<Rightarrow> int64 \<Rightarrow> string \<Rightarrow> anchor_row \<Rightarrow> bool" where
  "anchor_row_for ledger startSeq endSeq root r \<longleftrightarrow> anchor_ledger r = ledger \<and> range_start r = startSeq
     \<and> range_end r = endSeq \<and> anchor_merkle_root r = root \<and> anchor_external_id r \<noteq> None"

lemma anchor_row_for_new [simp]: "anchor_row_for l s e root (new_anchor pg i l s e root a)"
  by (simp add: anchor_row_for_def new_anchor_def)

lemma anchor_key_new [simp]: "anchor_key (new_anchor pg i l s e root a) = (l, ProviderName a, s, e)"
  by (simp add: anchor_key_def new_anchor_def)

lemma anchor_loop_effect:
  "anchor_loop pg reg l s e root i db recs names = (db', res) \<Longrightarrow>
     \<exists>new. db' = db\<lparr>audit_anchors := audit_anchors db @ new\<rparr> \<and> (\<forall>r \<in> set new. anchor_row_for l s e root r)
       \<and> (anchors_unique db \<longrightarrow> anchors_unique db')
       \<and> (\<forall>out. res = Inr out \<longrightarrow> (\<exists>added. out = recs @ added \<and> length added = length names
            \<and> (\<forall>x \<in> set added. (l, rec_Provider x, s, e) \<in> anchor_key ` set (audit_anchors db'))))"
proof (induction pg reg l s e root i db recs names rule: anchor_loop.induct)
  case (1 pg reg l s e root i db recs)
  then show ?case by (auto intro!: exI [of _ "[]"])
next
  case (2 pg reg l s e root i db recs name names)
  show ?case
  proof (cases "\<exists>p a db1. GetAnchorProvider reg name = Some p \<and> pAnchor p i root = Inr a
      \<and> insert_anchor pg i db (new_anchor pg i l s e root a) = Inr db1")
    case False
    then have "db' = db \<and> (\<exists>err. res = Inl err)"
      using "2.prems" by (auto split: option.splits sum.splits)
    then show ?thesis by (auto intro!: exI [of _ "[]"])
  next
    case True
    then obtain p a db1 where p: "GetAnchorProvider reg name = Some p" "pAnchor p i root = Inr a"
      and ins: "insert_anchor pg i db (new_anchor pg i l s e root a) = Inr db1" by blast
    from insert_anchor_InrD [OF ins] obtain new1 where
      db1: "db1 = db\<lparr>audit_anchors := audit_anchors db @ new1\<rparr>" "set new1 \<subseteq> {new_anchor pg i l s e root a}"
        "(l, ProviderName a, s, e) \<in> anchor_key ` set (audit_anchors db1)" "anchors_unique db \<longrightarrow> anchors_unique db1"
      unfolding anchor_key_new by blast
    have "anchor_loop pg reg l s e root (Suc i) db1 (recs @ [anchor_record a]) names = (db', res)"
      using "2.prems" p ins by simp
    from "2.IH" [OF p ins this] obtain new2 where
      db': "db' = db1\<lparr>audit_anchors := audit_anchors db1 @ new2\<rparr>" "\<forall>r \<in> set new2. anchor_row_for l s e root r"
        "anchors_unique db1 \<longrightarrow> anchors_unique db'"
      and out: "\<forall>out. res = Inr out \<longrightarrow> (\<exists>added. out = (recs @ [anchor_record a]) @ added \<and> length added = length names
            \<and> (\<forall>x \<in> set added. (l, rec_Provider x, s, e) \<in> anchor_key ` set (audit_anchors db')))"
      by blast
    have key: "(l, rec_Provider (anchor_record a), s, e) \<in> anchor_key ` set (audit_anchors db')"
      using db1(3) db'(1) by (auto simp: anchor_record_def)
    have "\<exists>added'. out' = recs @ added' \<and> length added' = length (name # names)
        \<and> (\<forall>x \<in> set added'. (l, rec_Provider x, s, e) \<in> anchor_key ` set (audit_anchors db'))"
      if "res = Inr out'" for out'
    proof -
      from out that obtain added where "out' = (recs @ [anchor_record a]) @ added" "length added = length names"
        "\<forall>x \<in> set added. (l, rec_Provider x, s, e) \<in> anchor_key ` set (audit_anchors db')" by blast
      with key show ?thesis by (intro exI [of _ "anchor_record a # added"]) auto
    qed
    moreover have "db' = db\<lparr>audit_anchors := audit_anchors db @ (new1 @ new2)\<rparr>" using db1(1) db'(1) by simp
    moreover have "\<forall>r \<in> set (new1 @ new2). anchor_row_for l s e root r" using db1(2) db'(2) by auto
    moreover have "anchors_unique db \<longrightarrow> anchors_unique db'" using db1(4) db'(3) by blast
    ultimately show ?thesis by blast
  qed
qed

text \<open>Where the rows come from: each one the loop adds records the answer of a registered provider.\<close>

lemma anchor_loop_rows:
  "anchor_loop pg reg l s e root i db recs names = (db', res) \<Longrightarrow> a \<in> set (audit_anchors db') \<Longrightarrow>
   a \<in> set (audit_anchors db) \<or> (\<exists>name p j b. GetAnchorProvider reg name = Some p \<and> pAnchor p j root = Inr b
     \<and> a = new_anchor pg j l s e root b)"
proof (induction pg reg l s e root i db recs names rule: anchor_loop.induct)
  case (2 pg reg l s e root i db recs name names)
  show ?case
  proof (cases "\<exists>p b db1. GetAnchorProvider reg name = Some p \<and> pAnchor p i root = Inr b
      \<and> insert_anchor pg i db (new_anchor pg i l s e root b) = Inr db1")
    case False
    then have "db' = db" using "2.prems"(1) by (auto split: option.splits sum.splits)
    with "2.prems"(2) show ?thesis by simp
  next
    case True
    then obtain p b db1 where p: "GetAnchorProvider reg name = Some p" "pAnchor p i root = Inr b"
      and ins: "insert_anchor pg i db (new_anchor pg i l s e root b) = Inr db1" by blast
    have "anchor_loop pg reg l s e root (Suc i) db1 (recs @ [anchor_record b]) names = (db', res)"
      using "2.prems"(1) p ins by simp
    note later = "2.IH" [OF p ins this "2.prems"(2)]
    obtain new where "db1 = db\<lparr>audit_anchors := audit_anchors db @ new\<rparr>" "set new \<subseteq> {new_anchor pg i l s e root b}"
      using insert_anchor_InrD [OF ins] by blast
    then have "a \<in> set (audit_anchors db1) \<Longrightarrow> a \<in> set (audit_anchors db) \<or> a = new_anchor pg i l s e root b" by auto
    with later p show ?thesis by blast
  qed
qed simp

text \<open>A provider that reports its own name.\<close>

definition stable_names :: "registry \<Rightarrow> bool" where
  "stable_names reg \<longleftrightarrow> (\<forall>name p i root a. GetAnchorProvider reg name = Some p \<longrightarrow> pAnchor p i root = Inr a
     \<longrightarrow> ProviderName a = pName p)"

lemma anchor_loop_keys:
  "anchor_loop pg reg l s e root i db recs names = (db', Inr out) \<Longrightarrow> stable_names reg \<Longrightarrow>
   \<forall>name \<in> set names. \<exists>p. GetAnchorProvider reg name = Some p \<and> (l, pName p, s, e) \<in> anchor_key ` set (audit_anchors db')"
proof (induction pg reg l s e root i db recs names rule: anchor_loop.induct)
  case (2 pg reg l s e root i db recs name names)
  obtain p a db1 where p: "GetAnchorProvider reg name = Some p" "pAnchor p i root = Inr a"
    and ins: "insert_anchor pg i db (new_anchor pg i l s e root a) = Inr db1"
    and rest: "anchor_loop pg reg l s e root (Suc i) db1 (recs @ [anchor_record a]) names = (db', Inr out)"
    using "2.prems"(1) by (auto split: option.splits sum.splits)
  have "ProviderName a = pName p" using p "2.prems"(2) unfolding stable_names_def by blast
  then have "(l, pName p, s, e) \<in> anchor_key ` set (audit_anchors db1)"
    using insert_anchor_InrD [OF ins] by auto
  moreover obtain new where "db' = db1\<lparr>audit_anchors := audit_anchors db1 @ new\<rparr>"
    using anchor_loop_effect [OF rest] by blast
  ultimately have "(l, pName p, s, e) \<in> anchor_key ` set (audit_anchors db')" by auto
  with p "2.IH" [OF p ins rest "2.prems"(2)] show ?case by simp
qed simp

lemma anchor_loop_known:
  "stable_names reg \<Longrightarrow>
   \<forall>name \<in> set names. \<forall>p. GetAnchorProvider reg name = Some p \<longrightarrow> (l, pName p, s, e) \<in> anchor_key ` set (audit_anchors db) \<Longrightarrow>
   fst (anchor_loop pg reg l s e root i db recs names) = db"
proof (induction pg reg l s e root i db recs names rule: anchor_loop.induct)
  case (2 pg reg l s e root i db recs name names)
  show ?case
  proof (cases "\<exists>p a db1. GetAnchorProvider reg name = Some p \<and> pAnchor p i root = Inr a
      \<and> insert_anchor pg i db (new_anchor pg i l s e root a) = Inr db1")
    case False
    then show ?thesis by (auto split: option.split sum.split)
  next
    case True
    then obtain p a db1 where p: "GetAnchorProvider reg name = Some p" "pAnchor p i root = Inr a"
      and ins: "insert_anchor pg i db (new_anchor pg i l s e root a) = Inr db1" by blast
    have "ProviderName a = pName p" using p "2.prems"(1) unfolding stable_names_def by blast
    then have "(l, ProviderName a, s, e) \<in> anchor_key ` set (audit_anchors db)" using p(1) "2.prems"(2) by simp
    then have "db1 = db" using insert_anchor_InrD [OF ins] by auto
    with "2.IH" [OF p ins "2.prems"(1)] "2.prems"(2) p ins show ?thesis by simp
  qed
qed simp

text \<open>The providers of a registry are instances of the backends another one has under their names.\<close>

definition same_backends :: "registry \<Rightarrow> registry \<Rightarrow> bool" where
  "same_backends reg reg2 \<longleftrightarrow> (\<forall>name p2. GetAnchorProvider reg2 name = Some p2 \<longrightarrow>
     (\<exists>p. GetAnchorProvider reg name = Some p \<and> pName p = pName p2))"

subsection \<open>The handler\<close>

lemma anchor_root_InrD:
  assumes "anchor_root pg db l s e = Inr root"
  shows "anchored_rows db l s e \<noteq> [] \<and> MerkleRoot (map log_entry_hash (anchored_rows db l s e)) = Inr root"
proof -
  obtain rows hashes where q: "query_rows pg SelectAnchored (anchored_rows db l s e) = Inr (rows, None)"
    and h: "scan_all pg SelectAnchored (\<lambda>r. Inr (log_entry_hash r)) rows = Inr hashes"
    and root: "hashes \<noteq> []" "MerkleRoot hashes = Inr root"
    using assms by (auto simp: anchor_root_def split: sum.splits option.splits if_splits)
  from q have "rows = anchored_rows db l s e" using query_rows_InrD by blast
  with scan_all_total [OF h] root show ?thesis by auto
qed

definition provider_names :: "(string list \<Rightarrow> string list) \<Rightarrow> world \<Rightarrow> AnchorRequest \<Rightarrow> string list" where
  "provider_names order w q =
     (if nq_Providers q = [] then AnchorProviderNames order (w_registry w) else nq_Providers q)"

text \<open>The step in a world whose pool holds a given database.\<close>

lemma AnchorHandler_at:
  assumes "nq_Ledger q \<noteq> []" and "GetDB (w_registry w) (nq_Ledger q) = Some d"
  shows "AnchorHandler pg order (put_db w d db) q =
     (case resolve_end pg db q of
        Inl e \<Rightarrow> (put_db w d db, Inl e)
      | Inr e \<Rightarrow> (case anchor_root pg db (nq_Ledger q) (nq_StartSequence q) e of
          Inl err \<Rightarrow> (put_db w d db, Inl err)
        | Inr root \<Rightarrow> (case anchor_loop pg (w_registry w) (nq_Ledger q) (nq_StartSequence q) e root 0 db [] (provider_names order w q) of
            (db', r) \<Rightarrow> (put_db w d db', map_sum id (\<lambda>recs. \<lparr>nr_Anchors = recs\<rparr>) r))))"
proof -
  have put: "put_db (put_db w d db) d db' = put_db w d db'" for db' by (simp add: put_db_def)
  show ?thesis using assms
    by (simp add: AnchorHandler_def provider_names_def put Let_def split: sum.split prod.split)
qed

text \<open>With a server and providers that answer, and ids that are fresh, the loop goes through.\<close>

definition anchors_answer :: "registry \<Rightarrow> string \<Rightarrow> string list \<Rightarrow> bool" where
  "anchors_answer reg root names \<longleftrightarrow>
     (\<forall>j < length names. \<exists>p. GetAnchorProvider reg (names ! j) = Some p \<and> is_ok (pAnchor p j root))"

definition fresh_anchor_ids :: "pg \<Rightarrow> database \<Rightarrow> nat \<Rightarrow> bool" where
  "fresh_anchor_ids pg db n \<longleftrightarrow> inj_on (\<lambda>j. pg_nextval pg (InsertAnchor j)) {..<n}
     \<and> (\<forall>j < n. pg_nextval pg (InsertAnchor j) \<notin> anchor_id ` set (audit_anchors db))"

lemma anchor_loop_answers:
  assumes "healthy pg" and "anchors_answer reg root names" and "fresh_anchor_ids pg db (length names)"
  shows "is_ok (snd (anchor_loop pg reg l s e root 0 db recs names))"
proof -
  have "is_ok (snd (anchor_loop pg reg l s e root i db' recs (drop i names)))"
    if "i \<le> length names" and "\<forall>j \<in> {i..<length names}. pg_nextval pg (InsertAnchor j) \<notin> anchor_id ` set (audit_anchors db')" for i db' recs
    using that
  proof (induction "length names - i" arbitrary: i db' recs)
    case (Suc n)
    then have i: "i < length names" by simp
    then obtain p a where p: "GetAnchorProvider reg (names ! i) = Some p" "pAnchor p i root = Inr a"
      using assms(2) by (auto simp: anchors_answer_def is_ok_iff)
    let ?r = "new_anchor pg i l s e root a"
    have id: "anchor_id ?r = pg_nextval pg (InsertAnchor i)" by (simp add: new_anchor_def)
    then obtain db1 where ins: "insert_anchor pg i db' ?r = Inr db1"
      and ids: "anchor_id ` set (audit_anchors db1) \<subseteq> insert (anchor_id ?r) (anchor_id ` set (audit_anchors db'))"
      using Suc.prems i
      by (cases "anchor_key ?r \<in> anchor_key ` set (audit_anchors db')") (auto simp: insert_anchor_def healthyD [OF assms(1)])
    have "pg_nextval pg (InsertAnchor j) \<notin> anchor_id ` set (audit_anchors db1)" if "j \<in> {Suc i..<length names}" for j
    proof -
      have "pg_nextval pg (InsertAnchor j) \<noteq> pg_nextval pg (InsertAnchor i)"
        using assms(3) i that unfolding fresh_anchor_ids_def by (auto dest: inj_onD)
      moreover have "pg_nextval pg (InsertAnchor j) \<notin> anchor_id ` set (audit_anchors db')" using Suc.prems(2) that by simp
      ultimately show ?thesis using subsetD [OF ids, of "pg_nextval pg (InsertAnchor j)"] unfolding id by fast
    qed
    then have "is_ok (snd (anchor_loop pg reg l s e root (Suc i) db1 (recs @ [anchor_record a]) (drop (Suc i) names)))"
      using Suc.hyps(1) [of "Suc i"] Suc.hyps(2) i by simp
    then show ?case using p ins by (simp add: Cons_nth_drop_Suc [OF i, symmetric])
  qed (simp add: is_ok_iff)
  from this [of 0 db recs] show ?thesis using assms(3) by (simp add: fresh_anchor_ids_def)
qed

lemma anchor_root_healthy: "healthy pg \<Longrightarrow> anchored_rows db l s e \<noteq> [] \<Longrightarrow> is_ok (anchor_root pg db l s e)"
  by (simp add: anchor_root_def query_rows_healthy scan_all_healthy [where f = log_entry_hash] MerkleRoot_eq is_ok_iff)

lemma AnchorHandler_cases:
  assumes "AnchorHandler pg order w q = (w', res)"
  obtains (rejected) err where "w' = w" "res = Inl err"
  | (ran) d e root db' r where "nq_Ledger q \<noteq> []" "GetDB (w_registry w) (nq_Ledger q) = Some d"
      "resolve_end pg (pool_db w d) q = Inr e"
      "anchor_root pg (pool_db w d) (nq_Ledger q) (nq_StartSequence q) e = Inr root"
      "anchor_loop pg (w_registry w) (nq_Ledger q) (nq_StartSequence q) e root 0 (pool_db w d) [] (provider_names order w q)
         = (db', r)"
      "w' = put_db w d db'" "res = map_sum id (\<lambda>recs. \<lparr>nr_Anchors = recs\<rparr>) r"
proof -
  have rejected_if: thesis if "AnchorHandler pg order w q = (w, Inl err)" for err
    using that assms rejected by simp
  show thesis
  proof (cases "nq_Ledger q = [] \<or> GetDB (w_registry w) (nq_Ledger q) = None")
    case True
    then have "\<exists>err. AnchorHandler pg order w q = (w, Inl err)"
      by (cases "nq_Ledger q = []") (simp_all add: AnchorHandler_def)
    then show thesis using rejected_if by blast
  next
    case False
    then obtain d where d: "nq_Ledger q \<noteq> []" "GetDB (w_registry w) (nq_Ledger q) = Some d" by blast
    show thesis
    proof (cases "resolve_end pg (pool_db w d) q")
      case (Inl err)
      with d show thesis by (intro rejected_if [of err]) (simp add: AnchorHandler_def)
    next
      case e: (Inr e)
      show thesis
      proof (cases "anchor_root pg (pool_db w d) (nq_Ledger q) (nq_StartSequence q) e")
        case (Inl err)
        with d e show thesis by (intro rejected_if [of err]) (simp add: AnchorHandler_def)
      next
        case root: (Inr root)
        obtain db' r where loop: "anchor_loop pg (w_registry w) (nq_Ledger q) (nq_StartSequence q) e root 0
            (pool_db w d) [] (provider_names order w q) = (db', r)" by (meson surj_pair)
        then have "AnchorHandler pg order w q = (put_db w d db', map_sum id (\<lambda>recs. \<lparr>nr_Anchors = recs\<rparr>) r)"
          unfolding AnchorHandler_def provider_names_def using d e root by (cases r) simp_all
        with ran [OF d e root loop] assms show thesis by simp
      qed
    qed
  qed
qed

lemma resolve_end_cases:
  assumes "resolve_end pg db q = Inr e"
  shows "e = nq_EndSequence q \<and> e \<noteq> 0 \<or>
    nq_EndSequence q = 0 \<and> (\<exists>c. audit_ledgers db (nq_Ledger q) = Some c \<and> e = last_sequence c)"
  using assms by (auto simp: resolve_end_def dest!: query_row_InrD split: if_splits sum.splits)

lemma anchored_rows_anchors [simp]: "anchored_rows (db\<lparr>audit_anchors := x\<rparr>) l s e = anchored_rows db l s e"
  by (simp add: anchored_rows_def select_log_def ledger_rows_def)

lemma ledger_rows_anchors [simp]: "ledger_rows (db\<lparr>audit_anchors := x\<rparr>) l = ledger_rows db l"
  by (simp add: ledger_rows_def)

lemma chain_ok_anchors [simp]: "chain_ok (db\<lparr>audit_anchors := x\<rparr>) l = chain_ok db l"
  by (cases "audit_ledgers db l") (simp_all add: chain_ok_def)

lemma anchor_ok_anchors [simp]: "anchor_ok (db\<lparr>audit_anchors := x\<rparr>) a = anchor_ok db a"
  by (simp add: anchor_ok_def)

text \<open>Rows that a later append adds lie beyond every range that ended within the ledger.\<close>

lemma anchored_rows_add_entry:
  assumes "chain_ok db l" and "chain_ok (add_entry db c r) l" and "sint e \<le> int (length (ledger_rows db l))"
    and "log_ledger r = l \<longrightarrow> seq_of r = int (length (ledger_rows db l)) + 1"
  shows "anchored_rows (add_entry db c r) l s e = anchored_rows db l s e"
proof -
  show ?thesis
    using assms(3,4) by (auto simp: anchored_rows_def chain_ok_select [OF assms(1)] chain_ok_select [OF assms(2)]
        ledger_rows_add_entry)
qed

lemma anchors_ok_add_entry:
  assumes "chain_ok db l" and "audit_ledgers db k = Some c" and "chain_ok db k" and "sint (last_sequence c) < int64_max"
    and "anchors_ok db l" and "r = new_row pg c k e p ph m a"
  shows "anchors_ok (add_entry db c r) l"
  unfolding anchors_ok_def
proof (intro ballI impI)
  fix x
  assume "x \<in> set (audit_anchors (add_entry db c r))" and l: "anchor_ledger x = l"
  then have ok: "anchor_ok db x" using assms(5) by (simp add: anchors_ok_def)
  have "chain_ok (add_entry db c r) l" using chain_ok_add_entry assms(1,2,4,6) by blast
  moreover have "log_ledger r = l \<longrightarrow> seq_of r = int (length (ledger_rows db l)) + 1"
    using chain_ok_cursor(1) [OF assms(3,2)] assms(4,6) by (auto simp: seq_of_def sint_succ)
  ultimately have "anchored_rows (add_entry db c r) l (range_start x) (range_end x)
      = anchored_rows db l (range_start x) (range_end x)"
    using ok l assms(1) by (intro anchored_rows_add_entry) (simp_all add: anchor_ok_def)
  with ok l show "anchor_ok (add_entry db c r) x" by (simp add: anchor_ok_def ledger_rows_add_entry)
qed

text \<open>A run whose range ends within the ledger adds anchors that are true.\<close>

lemma anchor_run_ok:
  assumes "resolve_end pg db q = Inr e" and "anchor_root pg db (nq_Ledger q) (nq_StartSequence q) e = Inr root"
    and "anchor_loop pg' reg (nq_Ledger q) (nq_StartSequence q) e root i db recs names = (db', r)"
    and "chain_ok db (nq_Ledger q)" and "sint (nq_EndSequence q) \<le> int (length (ledger_rows db (nq_Ledger q)))"
    and "anchors_ok db l"
  shows "anchors_ok db' l"
proof -
  have e: "sint e \<le> int (length (ledger_rows db (nq_Ledger q)))"
    using resolve_end_cases [OF assms(1)] assms(5) chain_ok_cursor(1) [OF assms(4)] by auto
  obtain new where new: "db' = db\<lparr>audit_anchors := audit_anchors db @ new\<rparr>"
      "\<forall>a \<in> set new. anchor_row_for (nq_Ledger q) (nq_StartSequence q) e root a"
    using anchor_loop_effect [OF assms(3)] by blast
  have "anchor_ok db a" if "a \<in> set new" for a
    using that new(2) e anchor_root_InrD [OF assms(2)] by (auto simp: anchor_ok_def anchor_row_for_def)
  with new assms(6) show ?thesis by (auto simp: anchors_ok_def)
qed

subsection \<open>Properties\<close>

definition sample_provider :: AnchorProvider where
  "sample_provider =
     \<lparr>pName = ''git'',
      pAnchor = (\<lambda>i root. Inr \<lparr>ProviderName = ''git'', AnchoredAt = 0, ExternalID = ''c'', ProofData = None,
        Confirmation = ConfirmationFinalized\<rparr>),
      pVerify = (\<lambda>i a. Inl (Sentinel ''unused'')),
      pCost = (\<lambda>n. \<lparr>PerAnchorUSDCents = 0, Notes = []\<rparr>)\<rparr>"

definition anchor_world :: world where
  "anchor_world = (sample_world sample_db)\<lparr>w_registry := RegisterAnchorProvider ''p'' sample_provider sample_registry\<rparr>"

definition sample_anchor_request :: AnchorRequest where
  "sample_anchor_request = \<lparr>nq_Ledger = ''l'', nq_StartSequence = 1, nq_EndSequence = 1, nq_Providers = [''p'']\<rparr>"

definition sample_anchor :: anchor_row where
  "sample_anchor = \<lparr>anchor_id = 1, anchor_ledger = ''l'', range_start = 1, range_end = 1,
     anchor_merkle_root = hex_encode (leafNode sample_hash), anchor_provider = ''git'', anchor_external_id = Some ''c'',
     anchor_proof_data = None, anchor_confirmation = ConfirmationFinalized, anchor_anchored_at = 0,
     confirmed_at = None, finalized_at = None\<rparr>"

lemma anchor_world_simps [simp]:
  "GetDB (w_registry anchor_world) ''l'' = Some (Pool 0 ''d'')" "pool_db anchor_world d = sample_db"
  "GetAnchorProvider (w_registry anchor_world) n = (if n = ''p'' then Some sample_provider else None)"
  by (simp_all add: anchor_world_def sample_registry_def RegisterAnchorProvider_def GetAnchorProvider_def GetDB_def
      map_get_def pool_db_def sample_world_def)

lemma sample_anchored_rows [simp]: "anchored_rows sample_db ''l'' 1 1 = [sample_row]"
  by (simp add: anchored_rows_def select_log_def)

lemma sample_anchor_run:
  "AnchorHandler steady_pg order anchor_world sample_anchor_request =
   (put_db anchor_world (Pool 0 ''d'') (sample_db\<lparr>audit_anchors := [sample_anchor]\<rparr>),
    Inr \<lparr>nr_Anchors = [\<lparr>rec_Provider = ''git'', rec_ExternalId = ''c'', rec_Confirmation = ''finalized'',
      rec_AnchoredAt = format_rfc3339 0\<rparr>]\<rparr>)"
  by (simp add: AnchorHandler_def sample_anchor_request_def resolve_end_def anchor_root_def query_rows_healthy
      scan_all_healthy [OF healthy_steady, where f = log_entry_hash] MerkleRoot_eq sample_provider_def
      insert_anchor_def new_anchor_def sample_anchor_def anchor_record_def ConfirmationFinalized_def)



text \<open>C25. The step is idempotent: repeating a request that was answered, with nothing stored in between, stores nothing more, whatever the server does
  the second time and whatever the providers answer then (another external id, another proof, an error), as long as
  the ledger still has its pool, the providers registered then were registered before as instances of the same backends,
  providers report their own names, and the order of map iteration visits exactly the registered names.\<close>

theorem AnchorHandler_retry:
  assumes "AnchorHandler pg order w q = (w1, Inr resp)" and "AnchorHandler pg' order' w2 q = (w3, res)"
    and "w_dbs w2 = w_dbs w1" and "GetDB (w_registry w2) (nq_Ledger q) = GetDB (w_registry w) (nq_Ledger q)"
    and "same_backends (w_registry w) (w_registry w2)"
    and "stable_names (w_registry w)" and "stable_names (w_registry w2)" and "\<forall>names. set (order names) = set names"
  shows "w_dbs w3 = w_dbs w1"
  using assms(1)
proof (cases rule: AnchorHandler_cases)
  case (ran d e root db' r)
  note first = ran
  obtain recs where recs: "r = Inr recs" using first(7) by (cases r) auto
  obtain new where db': "db' = (pool_db w d)\<lparr>audit_anchors := audit_anchors (pool_db w d) @ new\<rparr>"
    using anchor_loop_effect [OF first(5)] by blast
  have keys: "\<forall>name \<in> set (provider_names order w q). \<exists>p. GetAnchorProvider (w_registry w) name = Some p
      \<and> (nq_Ledger q, pName p, nq_StartSequence q, e) \<in> anchor_key ` set (audit_anchors db')"
    using anchor_loop_keys [OF first(5) [unfolded recs] assms(6)] .
  from assms(2) show ?thesis
  proof (cases rule: AnchorHandler_cases)
    case (ran d2 e2 root2 db2 r2)
    have d2: "d2 = d" using ran(2) first(2) assms(4) by simp
    have pool: "pool_db w2 d = db'" using first(6) assms(3) by (simp add: pool_db_def put_db_def)
    have e2: "e2 = e"
      using resolve_end_cases [OF ran(3)] resolve_end_cases [OF first(3)] by (auto simp: d2 pool db')
    have "(nq_Ledger q, pName p2, nq_StartSequence q, e) \<in> anchor_key ` set (audit_anchors db')"
      if name: "name \<in> set (provider_names order' w2 q)" and p2: "GetAnchorProvider (w_registry w2) name = Some p2" for name p2
    proof -
      obtain p where p: "GetAnchorProvider (w_registry w) name = Some p" "pName p = pName p2"
        using assms(5) p2 by (auto simp: same_backends_def)
      then have "name \<in> set (map fst (anchorProviderRegistry (w_registry w)))"
        by (auto simp: GetAnchorProvider_def map_get_def image_iff dest!: map_of_SomeD intro: bexI [rotated])
      then have "name \<in> set (provider_names order w q)"
        using name assms(8) by (auto simp: provider_names_def AnchorProviderNames_def)
      with keys p show ?thesis by force
    qed
    then have "fst (anchor_loop pg' (w_registry w2) (nq_Ledger q) (nq_StartSequence q) e root2 0 db' []
        (provider_names order' w2 q)) = db'"
      by (intro anchor_loop_known [OF assms(7)]) blast
    with ran(5) have "db2 = db'" by (simp add: d2 pool e2)
    with ran(6) d2 pool assms(3) show ?thesis by (metis put_db_same)
  qed (use assms(3) in simp)
qed simp

text \<open>The provider answers the retry with another external id.\<close>

definition retry_provider :: AnchorProvider where
  "retry_provider = sample_provider\<lparr>pAnchor := (\<lambda>i root. Inr \<lparr>ProviderName = ''git'', AnchoredAt = 9, ExternalID = ''other'',
     ProofData = None, Confirmation = ConfirmationPending\<rparr>)\<rparr>"

definition retry_world :: world where
  "retry_world = \<lparr>w_registry = RegisterAnchorProvider ''p'' retry_provider sample_registry,
     w_dbs = (w_dbs anchor_world)(''d'' := sample_db\<lparr>audit_anchors := [sample_anchor]\<rparr>)\<rparr>"

lemma retry_world_simps [simp]:
  "GetDB (w_registry retry_world) ''l'' = Some (Pool 0 ''d'')"
  "GetAnchorProvider (w_registry retry_world) n = (if n = ''p'' then Some retry_provider else None)"
  by (simp_all add: retry_world_def sample_registry_def RegisterAnchorProvider_def GetAnchorProvider_def GetDB_def map_get_def)

theorem AnchorHandler_retry_witness:
  "(\<exists>w3 resp. AnchorHandler (steady_pg\<lparr>pg_nextval := (\<lambda>s. 2)\<rparr>) id retry_world sample_anchor_request = (w3, Inr resp)
      \<and> map rec_ExternalId (nr_Anchors resp) = [''other''])
    \<and> w_dbs (fst (AnchorHandler (steady_pg\<lparr>pg_nextval := (\<lambda>s. 2)\<rparr>) id retry_world sample_anchor_request)) = w_dbs retry_world"
proof
  let ?pg = "steady_pg\<lparr>pg_nextval := (\<lambda>s. 2)\<rparr>"
  have pg: "healthy ?pg" using healthy_steady by (simp add: healthy_def)
  have pool: "pool_db retry_world (Pool 0 ''d'') = sample_db\<lparr>audit_anchors := [sample_anchor]\<rparr>"
    by (simp add: retry_world_def pool_db_def)
  show "\<exists>w3 resp. AnchorHandler ?pg id retry_world sample_anchor_request = (w3, Inr resp)
      \<and> map rec_ExternalId (nr_Anchors resp) = [''other'']"
    by (simp add: AnchorHandler_def sample_anchor_request_def resolve_end_def anchor_root_def query_rows_healthy [OF pg]
        scan_all_healthy [OF pg, where f = log_entry_hash] MerkleRoot_eq retry_provider_def pool
        insert_anchor_def anchor_record_def anchor_key_def sample_anchor_def new_anchor_def)
  have stable: "stable_names (w_registry anchor_world)" "stable_names (w_registry retry_world)"
    by (simp_all add: stable_names_def sample_provider_def retry_provider_def)
  have same: "same_backends (w_registry anchor_world) (w_registry retry_world)"
    by (simp add: same_backends_def sample_provider_def retry_provider_def)
  have dbs: "w_dbs retry_world = w_dbs (put_db anchor_world (Pool 0 ''d'') (sample_db\<lparr>audit_anchors := [sample_anchor]\<rparr>))"
    by (simp add: retry_world_def put_db_def)
  have db: "GetDB (w_registry retry_world) (nq_Ledger sample_anchor_request) = GetDB (w_registry anchor_world) (nq_Ledger sample_anchor_request)"
    by (simp add: sample_anchor_request_def)
  from AnchorHandler_retry [OF sample_anchor_run [of rev] prod.collapse [symmetric] dbs db same stable]
  show "w_dbs (fst (AnchorHandler ?pg id retry_world sample_anchor_request)) = w_dbs retry_world" by (simp add: dbs)
qed

text \<open>Appends never invalidate an anchor: if every anchor of a ledger records the root over the rows
  its range covers, and ends within the ledger, this is still so after an append to any ledger.\<close>

theorem Append_preserves_anchors:
  assumes "chain_ok db l" and "chain_ok db k" and "int (length (ledger_rows db k)) < int64_max" and "anchors_ok db l"
  shows "anchors_ok (fst (Append pg db k e p m a)) l"
proof -
  have added: "anchors_ok db' l" if run: "AppendTx pg db k e p m a = (db', Inr v)" for db' v
  proof -
    obtain seq h t where "v = (seq, h, t)" by (cases v)
    with run obtain c ph where c: "audit_ledgers db k = Some c"
      and db': "db' = add_entry db c (new_row pg c k e p ph m a)" by (auto elim: AppendTx_InrD)
    have "sint (last_sequence c) < int64_max" using chain_ok_cursor(1) [OF assms(2) c] assms(3) by simp
    then show ?thesis unfolding db' using anchors_ok_add_entry [OF assms(1) c assms(2) _ assms(4)] by blast
  qed
  obtain db' res where res: "Append pg db k e p m a = (db', res)" by (cases "Append pg db k e p m a")
  from res show ?thesis
    by (cases rule: Append_cases) (use assms(4) added res in auto)
qed

theorem Append_preserves_anchors_witness:
  "anchors_ok (fst (Append steady_pg (sample_db\<lparr>audit_anchors := [sample_anchor]\<rparr>) ''l'' ''created'' ''[1]'' None ''alice'')) ''l''"
  by (rule Append_preserves_anchors)
    (simp_all add: int64_max_def anchors_ok_def anchor_ok_def sample_anchor_def MerkleRoot_eq)

text \<open>The step itself keeps the promise, provided its range ends within the ledger: with an
  explicit end beyond the last entry it would record a root that the next append outdates.\<close>

theorem AnchorHandler_preserves_anchors:
  assumes "AnchorHandler pg order w q = (w', res)" and "GetDB (w_registry w) (nq_Ledger q) = Some d"
    and "anchors_ok (pool_db w d) l" and "chain_ok (pool_db w d) (nq_Ledger q)"
    and "sint (nq_EndSequence q) \<le> int (length (ledger_rows (pool_db w d) (nq_Ledger q)))"
  shows "anchors_ok (pool_db w' d) l"
  using assms(1)
proof (cases rule: AnchorHandler_cases)
  case (ran d2 e root db' r)
  have d2: "d2 = d" using ran(2) assms(2) by simp
  have "anchors_ok db' l" using anchor_run_ok [OF ran(3-5)] assms(3-5) d2 by simp
  with ran(6) d2 show ?thesis by simp
qed (use assms in simp)

theorem AnchorHandler_preserves_anchors_witness:
  "anchors_ok (pool_db (fst (AnchorHandler steady_pg rev anchor_world sample_anchor_request)) (Pool 0 ''d'')) ''l''"
proof (rule AnchorHandler_preserves_anchors [OF prod.collapse [symmetric]])
  show "anchors_ok (pool_db anchor_world (Pool 0 ''d'')) ''l''" by (simp add: anchors_ok_def)
qed (simp_all add: sample_anchor_request_def)

end
