(* ===== verification/Step_Poll.thy ===== *)
theory Step_Poll
  imports World
begin

section \<open>step.audit.poll_anchor_confirmation\<close>

text \<open>
  \<^verbatim>\<open>steps/poll_anchor_confirmation.go\<close>: one poll of a recorded anchor. The request is merged from the
  step's configuration and its input; the provider's \<open>Verify\<close> is called with the stored level; a
  swallowed failure changes nothing, and a report moves the stored level forward only. The properties
  are the monotonicity of the stored level and what the response says about it.
\<close>

subsection \<open>The code\<close>

definition or_else :: "string \<Rightarrow> string \<Rightarrow> string" where
  "or_else v old = (if v \<noteq> [] then v else old)"

definition mergePollAnchorConfirmation ::
  "PollAnchorConfirmationConfig option \<Rightarrow> PollAnchorConfirmationRequest option \<Rightarrow> PollAnchorConfirmationRequest" where
  "mergePollAnchorConfirmation cfg inp =
     (let merged = (case inp of
          None \<Rightarrow> \<lparr>pq_AnchorId = [], pq_Provider = [], pq_ExternalId = [], pq_ProofData = [], pq_Ledger = []\<rparr>
        | Some r \<Rightarrow> r)
      in case cfg of
           None \<Rightarrow> merged
         | Some c \<Rightarrow>
             \<lparr>pq_AnchorId = or_else (pc_AnchorId c) (pq_AnchorId merged),
              pq_Provider = or_else (pc_Provider c) (pq_Provider merged),
              pq_ExternalId = or_else (pc_ExternalId c) (pq_ExternalId merged),
              pq_ProofData = or_else (pc_ProofData c) (pq_ProofData merged),
              pq_Ledger = or_else (pc_Ledger c) (pq_Ledger merged)\<rparr>)"

text \<open>\<open>confirmationOrder\<close>: a Go map gives 0 for a missing key.\<close>

definition confirmationOrder :: "string \<Rightarrow> int" where
  "confirmationOrder c =
     (if c = ''confirmed'' then 1 else if c = ''finalized'' then 2 else 0)"

definition update_confirmation :: "pg \<Rightarrow> database \<Rightarrow> string \<Rightarrow> int64 \<Rightarrow> database result" where
  "update_confirmation pg db level i =
     (case pg_fault pg UpdateConfirmation of
        Some e \<Rightarrow> Inl e
      | None \<Rightarrow> Inr (db\<lparr>audit_anchors := map
          (\<lambda>a. if anchor_id a = i
                then a\<lparr>anchor_confirmation := level,
                       confirmed_at := (if level = ''confirmed'' then Some (pg_now pg) else confirmed_at a),
                       finalized_at := (if level = ''finalized'' then Some (pg_now pg) else finalized_at a)\<rparr>
                else a) (audit_anchors db)\<rparr>))"

text \<open>The checks of the request, up to the anchor's row.\<close>

definition poll_lookup ::
  "pg \<Rightarrow> world \<Rightarrow> PollAnchorConfirmationRequest \<Rightarrow> (sql_db \<times> AnchorProvider \<times> int64 \<times> anchor_row) result" where
  "poll_lookup pg w input =
     (if pq_Ledger input = [] then Inl (Errorf ''step.audit.poll_anchor_confirmation: ledger is required'' [])
      else case GetDB (w_registry w) (pq_Ledger input) of
             None \<Rightarrow>
               Inl (Errorf ''step.audit.poll_anchor_confirmation: ledger %q not registered; ensure the audit.ledger module is initialised''
                          [ArgS (pq_Ledger input)])
           | Some d \<Rightarrow>
     (case GetAnchorProvider (w_registry w) (pq_Provider input) of
        None \<Rightarrow>
          Inl (Errorf ''step.audit.poll_anchor_confirmation: anchor provider %q not registered'' [ArgS (pq_Provider input)])
      | Some p \<Rightarrow>
     (case parse_int64 (pq_AnchorId input) of
        Inl e \<Rightarrow>
          Inl (Errorf ''step.audit.poll_anchor_confirmation: invalid anchor_id %q: %w'' [ArgS (pq_AnchorId input), ArgE e])
      | Inr anchorID \<Rightarrow>
     (case query_row pg SelectConfirmation (filter (\<lambda>a. anchor_id a = anchorID) (audit_anchors (pool_db w d))) of
        Inl e \<Rightarrow>
          Inl (Errorf ''step.audit.poll_anchor_confirmation: read anchor %d: %w'' [ArgI (sint anchorID), ArgE e])
      | Inr row \<Rightarrow> Inr (d, p, anchorID, row)))))"

text \<open>The anchor that is handed to the provider: the request's data with the stored level.\<close>

definition polled_anchor :: "PollAnchorConfirmationRequest \<Rightarrow> anchor_row \<Rightarrow> Anchor" where
  "polled_anchor input row =
     \<lparr>ProviderName = pq_Provider input, AnchoredAt = zero_time, ExternalID = pq_ExternalId input,
      ProofData = Some (pq_ProofData input), Confirmation = anchor_confirmation row\<rparr>"

text \<open>What is done with the provider's answer; \<open>clock\<close> is \<open>time.Now()\<close>.\<close>

definition poll_answer ::
  "pg \<Rightarrow> go_time \<Rightarrow> world \<Rightarrow> sql_db \<Rightarrow> int64 \<Rightarrow> string \<Rightarrow> Verification
    \<Rightarrow> world \<times> PollAnchorConfirmationResponse result" where
  "poll_answer pg clock w d anchorID prevConfirmation v =
     (let updatedAt = (if is_zero_time (UpdatedAt v) then clock else UpdatedAt v)
      in if Swallowed v
         then (w, Inr
           \<lparr>pr_PreviousConfirmation = prevConfirmation, pr_CurrentConfirmation = prevConfirmation,
            pr_Transitioned = False, pr_UpdatedAt = format_rfc3339 updatedAt, pr_Swallowed = True,
            pr_ErrorMessage = ErrorMessage v\<rparr>)
         else
           let transitioned = confirmationOrder prevConfirmation < confirmationOrder (VConfirmation v);
               response = \<lparr>pr_PreviousConfirmation = prevConfirmation, pr_CurrentConfirmation = VConfirmation v,
                 pr_Transitioned = transitioned, pr_UpdatedAt = format_rfc3339 updatedAt, pr_Swallowed = False,
                 pr_ErrorMessage = []\<rparr>
           in if transitioned
              then case update_confirmation pg (pool_db w d) (VConfirmation v) anchorID of
                     Inl e \<Rightarrow>
                       (w, Inl (Errorf ''step.audit.poll_anchor_confirmation: update anchor %d: %w''
                                  [ArgI (sint anchorID), ArgE e]))
                   | Inr db' \<Rightarrow> (put_db w d db', Inr response)
              else (w, Inr response))"

definition PollAnchorConfirmationHandler ::
  "pg \<Rightarrow> go_time \<Rightarrow> world \<Rightarrow> PollAnchorConfirmationConfig option \<Rightarrow> PollAnchorConfirmationRequest option
    \<Rightarrow> world \<times> PollAnchorConfirmationResponse result" where
  "PollAnchorConfirmationHandler pg clock w cfg inp =
     (let input = mergePollAnchorConfirmation cfg inp
      in case poll_lookup pg w input of
           Inl e \<Rightarrow> (w, Inl e)
         | Inr (d, p, anchorID, row) \<Rightarrow>
             (case pVerify p 0 (polled_anchor input row) of
                Inl e \<Rightarrow> (w, Inl (Errorf ''step.audit.poll_anchor_confirmation: verify: %w'' [ArgE e]))
              | Inr v \<Rightarrow> poll_answer pg clock w d anchorID (anchor_confirmation row) v))"

subsection \<open>Outcomes\<close>

lemma merge_poll_config:
  "pq_Ledger (mergePollAnchorConfirmation (Some c) i) = (if pc_Ledger c = [] then pq_Ledger (mergePollAnchorConfirmation None i) else pc_Ledger c)"
  "pq_Provider (mergePollAnchorConfirmation (Some c) i) = (if pc_Provider c = [] then pq_Provider (mergePollAnchorConfirmation None i) else pc_Provider c)"
  "pq_AnchorId (mergePollAnchorConfirmation (Some c) i) = (if pc_AnchorId c = [] then pq_AnchorId (mergePollAnchorConfirmation None i) else pc_AnchorId c)"
  by (simp_all add: mergePollAnchorConfirmation_def or_else_def Let_def)

lemma poll_lookup_InrD:
  assumes "poll_lookup pg w input = Inr (d, p, i, row)"
  shows "GetDB (w_registry w) (pq_Ledger input) = Some d" and "GetAnchorProvider (w_registry w) (pq_Provider input) = Some p"
    and "parse_int64 (pq_AnchorId input) = Inr i" and "row \<in> set (audit_anchors (pool_db w d))" and "anchor_id row = i"
proof -
  have *: "GetDB (w_registry w) (pq_Ledger input) = Some d" "GetAnchorProvider (w_registry w) (pq_Provider input) = Some p"
    "parse_int64 (pq_AnchorId input) = Inr i"
    "query_row pg SelectConfirmation (filter (\<lambda>a. anchor_id a = i) (audit_anchors (pool_db w d))) = Inr row"
    using assms by (auto simp: poll_lookup_def split: if_splits option.splits sum.splits)
  then have "row \<in> set (filter (\<lambda>a. anchor_id a = i) (audit_anchors (pool_db w d)))" using query_row_InrD by fastforce
  with * show "GetDB (w_registry w) (pq_Ledger input) = Some d" "GetAnchorProvider (w_registry w) (pq_Provider input) = Some p"
    "parse_int64 (pq_AnchorId input) = Inr i" "row \<in> set (audit_anchors (pool_db w d))" "anchor_id row = i" by auto
qed

lemma Poll_cases:
  assumes "PollAnchorConfirmationHandler pg clock w cfg inp = (w', res)"
  obtains (failed) err where "w' = w" "res = Inl err"
  | (answered) d p i row v where "poll_lookup pg w (mergePollAnchorConfirmation cfg inp) = Inr (d, p, i, row)"
      "pVerify p 0 (polled_anchor (mergePollAnchorConfirmation cfg inp) row) = Inr v"
      "poll_answer pg clock w d i (anchor_confirmation row) v = (w', res)"
  using assms by (auto simp: PollAnchorConfirmationHandler_def Let_def split: sum.splits)

lemma poll_answer_cases:
  assumes "poll_answer pg clock w d i prev v = (w', res)"
  obtains (failed) err where "w' = w" "res = Inl err"
  | (swallowed) resp where "Swallowed v" "w' = w" "res = Inr resp" "pr_Swallowed resp" "\<not> pr_Transitioned resp"
      "pr_PreviousConfirmation resp = prev" "pr_CurrentConfirmation resp = prev" "pr_ErrorMessage resp = ErrorMessage v"
  | (kept) resp where "\<not> Swallowed v" "w' = w" "res = Inr resp" "\<not> pr_Swallowed resp" "\<not> pr_Transitioned resp"
      "pr_PreviousConfirmation resp = prev" "pr_CurrentConfirmation resp = VConfirmation v"
      "confirmationOrder (VConfirmation v) \<le> confirmationOrder prev"
  | (moved) resp db' where "\<not> Swallowed v" "res = Inr resp" "\<not> pr_Swallowed resp" "pr_Transitioned resp"
      "pr_PreviousConfirmation resp = prev" "pr_CurrentConfirmation resp = VConfirmation v"
      "confirmationOrder prev < confirmationOrder (VConfirmation v)"
      "update_confirmation pg (pool_db w d) (VConfirmation v) i = Inr db'" "w' = put_db w d db'"
  using assms by (auto simp: poll_answer_def Let_def split: if_splits sum.splits)

text \<open>What one update does to a row.\<close>

lemma update_confirmation_rows:
  "update_confirmation pg db level i = Inr db' \<Longrightarrow>
     \<exists>f. audit_anchors db' = map f (audit_anchors db) \<and> audit_log db' = audit_log db \<and> audit_ledgers db' = audit_ledgers db
       \<and> (\<forall>a. anchor_id a \<noteq> i \<longrightarrow> f a = a)
       \<and> (\<forall>a. anchor_id a = i \<longrightarrow> f a = a\<lparr>anchor_confirmation := level,
                       confirmed_at := (if level = ''confirmed'' then Some (pg_now pg) else confirmed_at a),
                       finalized_at := (if level = ''finalized'' then Some (pg_now pg) else finalized_at a)\<rparr>)"
  by (auto simp: update_confirmation_def split: option.splits
      intro!: exI [of _ "\<lambda>a. if anchor_id a = i then a\<lparr>anchor_confirmation := level,
                       confirmed_at := (if level = ''confirmed'' then Some (pg_now pg) else confirmed_at a),
                       finalized_at := (if level = ''finalized'' then Some (pg_now pg) else finalized_at a)\<rparr> else a"])

lemma update_confirmation_level:
  assumes "update_confirmation pg db level i = Inr db'" and "a \<in> set (audit_anchors db')" and "anchor_id a = i"
  shows "anchor_confirmation a = level"
proof -
  obtain f where f: "audit_anchors db' = map f (audit_anchors db)" "\<forall>a. anchor_id a \<noteq> i \<longrightarrow> f a = a"
    "\<forall>a. anchor_id a = i \<longrightarrow> f a = a\<lparr>anchor_confirmation := level,
       confirmed_at := (if level = ''confirmed'' then Some (pg_now pg) else confirmed_at a),
       finalized_at := (if level = ''finalized'' then Some (pg_now pg) else finalized_at a)\<rparr>"
    using update_confirmation_rows [OF assms(1)] by blast
  from assms(2) f(1) obtain b where b: "a = f b" by auto
  show ?thesis
  proof (cases "anchor_id b = i")
    case True
    with f(3) b show ?thesis by simp
  next
    case False
    with f(2) b assms(3) show ?thesis by simp
  qed
qed

subsection \<open>Properties\<close>

text \<open>How an anchor row may change in a poll.\<close>

definition forward :: "anchor_row \<Rightarrow> anchor_row \<Rightarrow> bool" where
  "forward a b \<longleftrightarrow> anchor_id b = anchor_id a \<and> anchor_ledger b = anchor_ledger a \<and> anchor_provider b = anchor_provider a
     \<and> range_start b = range_start a \<and> range_end b = range_end a \<and> anchor_merkle_root b = anchor_merkle_root a
     \<and> anchor_proof_data b = anchor_proof_data a
     \<and> confirmationOrder (anchor_confirmation a) \<le> confirmationOrder (anchor_confirmation b)"

lemma forward_refl [simp]: "forward a a"
  by (simp add: forward_def)

definition sample_pending :: anchor_row where
  "sample_pending = \<lparr>anchor_id = 1, anchor_ledger = ''l'', range_start = 1, range_end = 1,
     anchor_merkle_root = ''r'', anchor_provider = ''git'', anchor_external_id = Some ''c'',
     anchor_proof_data = None, anchor_confirmation = ''pending'', anchor_anchored_at = 0,
     confirmed_at = None, finalized_at = None\<rparr>"

definition verifying_provider :: "string \<Rightarrow> bool \<Rightarrow> AnchorProvider" where
  "verifying_provider level sw =
     \<lparr>pName = ''git'', pAnchor = (\<lambda>i root. Inl (Sentinel ''unused'')),
      pVerify = (\<lambda>i a. Inr \<lparr>VProvider = ''git'', VConfirmation = (if sw then Confirmation a else level), UpdatedAt = 0,
        Swallowed = sw, ErrorMessage = (if sw then ''timeout'' else [])\<rparr>),
      pCost = (\<lambda>n. \<lparr>PerAnchorUSDCents = 0, Notes = []\<rparr>)\<rparr>"

definition poll_world :: "string \<Rightarrow> bool \<Rightarrow> world" where
  "poll_world level sw =
     \<lparr>w_registry = RegisterAnchorProvider ''p'' (verifying_provider level sw) sample_registry,
      w_dbs = (\<lambda>dsn. sample_db\<lparr>audit_anchors := [sample_pending]\<rparr>)\<rparr>"

definition poll_request :: PollAnchorConfirmationRequest where
  "poll_request = \<lparr>pq_AnchorId = ''1'', pq_Provider = ''p'', pq_ExternalId = ''c'', pq_ProofData = [], pq_Ledger = ''l''\<rparr>"

lemma poll_request_merge [simp]: "mergePollAnchorConfirmation None (Some poll_request) = poll_request"
  by (simp add: mergePollAnchorConfirmation_def)

lemma poll_request_simps [simp]:
  "pq_AnchorId poll_request = ''1''" "pq_Provider poll_request = ''p''" "pq_Ledger poll_request = ''l''"
  by (simp_all add: poll_request_def)

lemma parse_one: "parse_int64 ''1'' = Inr 1"
proof -
  have "format_int (sint (1 :: int64)) = ''1''"
    by (simp add: format_int_def format_nat.simps digit_char_def char_of_eq_char)
  then show ?thesis using parse_format_int64 [of 1] by simp
qed

lemma poll_sample_lookup:
  "poll_lookup steady_pg (poll_world level sw) poll_request =
     Inr (Pool 0 ''d'', verifying_provider level sw, 1, sample_pending)"
  by (simp add: poll_lookup_def poll_world_def sample_registry_def RegisterAnchorProvider_def GetAnchorProvider_def
      GetDB_def map_get_def parse_one pool_db_def sample_pending_def query_row_healthy)

text \<open>C20. A poll only ever moves levels forward: whatever provider, request or server, every row of
  every database keeps its identity, range, root and proof, its level never goes down, and no log or
  cursor changes.\<close>

theorem Poll_forward_only:
  assumes "PollAnchorConfirmationHandler pg clock w cfg inp = (w', res)"
    and "distinct (map anchor_id (audit_anchors (w_dbs w dsn)))"
  shows "list_all2 forward (audit_anchors (w_dbs w dsn)) (audit_anchors (w_dbs w' dsn))
    \<and> audit_log (w_dbs w' dsn) = audit_log (w_dbs w dsn) \<and> audit_ledgers (w_dbs w' dsn) = audit_ledgers (w_dbs w dsn)
    \<and> w_registry w' = w_registry w"
proof -
  have same: ?thesis if "w' = w" using that by (simp add: list.rel_refl)
  from assms(1) show ?thesis
  proof (cases rule: Poll_cases)
    case (answered d p i row v)
    note look = poll_lookup_InrD [OF answered(1)]
    from answered(3) show ?thesis
    proof (cases rule: poll_answer_cases)
      case (moved resp db')
      show ?thesis
      proof (cases "dsn = pool_dsn d")
        case False
        with moved(9) show ?thesis by (simp add: put_db_def list.rel_refl)
      next
        case True
        then have old: "w_dbs w dsn = pool_db w d" and new: "w_dbs w' dsn = db'"
          using moved(9) by (simp_all add: pool_db_def put_db_def)
        obtain f where f: "audit_anchors db' = map f (audit_anchors (pool_db w d))"
          "audit_log db' = audit_log (pool_db w d)" "audit_ledgers db' = audit_ledgers (pool_db w d)"
          "\<forall>a. anchor_id a \<noteq> i \<longrightarrow> f a = a"
          "\<forall>a. anchor_id a = i \<longrightarrow> f a = a\<lparr>anchor_confirmation := VConfirmation v,
             confirmed_at := (if VConfirmation v = ''confirmed'' then Some (pg_now pg) else confirmed_at a),
             finalized_at := (if VConfirmation v = ''finalized'' then Some (pg_now pg) else finalized_at a)\<rparr>"
          using update_confirmation_rows [OF moved(8)] by blast
        have "forward a (f a)" if a: "a \<in> set (audit_anchors (pool_db w d))" for a
        proof (cases "anchor_id a = i")
          case True
          then have "a = row"
            using a look(4,5) assms(2) old by (auto simp: distinct_map dest: inj_onD)
          with True f(5) moved(7) show ?thesis by (simp add: forward_def)
        qed (use f(4) in simp)
        moreover have "w_registry w' = w_registry w" using moved(9) by simp
        ultimately show ?thesis by (simp add: old new f(1-3) list_all2_map2 list.rel_refl_strong)
      qed
    qed (use same in blast)+
  qed (use same in blast)
qed

theorem Poll_forward_only_witness:
  "list_all2 forward [sample_pending] (audit_anchors (w_dbs (fst (PollAnchorConfirmationHandler steady_pg 0
     (poll_world ''finalized'' False) None (Some poll_request))) ''d''))"
proof -
  have "audit_anchors (w_dbs (poll_world ''finalized'' False) ''d'') = [sample_pending]" by (simp add: poll_world_def)
  then show ?thesis
    using Poll_forward_only [of steady_pg 0 "poll_world ''finalized'' False" None "Some poll_request" _ _ "''d''",
        OF prod.collapse [symmetric]] by simp
qed

text \<open>What the response says. It reports the stored level as the previous one. A swallowed failure
  reports no change and leaves the world as it was. A transition means the stored level is now the
  reported one; without a transition nothing was stored, although the reported current level is then
  the provider's, which may be lower than the stored one.\<close>

theorem Poll_response:
  assumes "PollAnchorConfirmationHandler pg clock w cfg inp = (w', Inr resp)"
  shows "\<exists>d i row. GetDB (w_registry w) (pq_Ledger (mergePollAnchorConfirmation cfg inp)) = Some d
    \<and> parse_int64 (pq_AnchorId (mergePollAnchorConfirmation cfg inp)) = Inr i
    \<and> row \<in> set (audit_anchors (pool_db w d)) \<and> anchor_id row = i \<and> pr_PreviousConfirmation resp = anchor_confirmation row
    \<and> (pr_Swallowed resp \<longrightarrow> w' = w \<and> \<not> pr_Transitioned resp \<and> pr_CurrentConfirmation resp = anchor_confirmation row)
    \<and> (pr_Transitioned resp \<longrightarrow>
        confirmationOrder (anchor_confirmation row) < confirmationOrder (pr_CurrentConfirmation resp)
      \<and> (\<forall>a \<in> set (audit_anchors (pool_db w' d)). anchor_id a = i \<longrightarrow> anchor_confirmation a = pr_CurrentConfirmation resp))
    \<and> (\<not> pr_Transitioned resp \<longrightarrow> w' = w
      \<and> confirmationOrder (pr_CurrentConfirmation resp) \<le> confirmationOrder (anchor_confirmation row))"
  using assms
proof (cases rule: Poll_cases)
  case (answered d p i row v)
  have "(pr_Swallowed resp \<longrightarrow> w' = w \<and> \<not> pr_Transitioned resp \<and> pr_CurrentConfirmation resp = anchor_confirmation row)
    \<and> (pr_Transitioned resp \<longrightarrow>
        confirmationOrder (anchor_confirmation row) < confirmationOrder (pr_CurrentConfirmation resp)
      \<and> (\<forall>a \<in> set (audit_anchors (pool_db w' d)). anchor_id a = i \<longrightarrow> anchor_confirmation a = pr_CurrentConfirmation resp))
    \<and> (\<not> pr_Transitioned resp \<longrightarrow> w' = w
      \<and> confirmationOrder (pr_CurrentConfirmation resp) \<le> confirmationOrder (anchor_confirmation row))
    \<and> pr_PreviousConfirmation resp = anchor_confirmation row"
    using answered(3)
  proof (cases rule: poll_answer_cases)
    case (moved r db')
    have "\<forall>a \<in> set (audit_anchors db'). anchor_id a = i \<longrightarrow> anchor_confirmation a = VConfirmation v"
      using update_confirmation_level moved(8) by blast
    then have "\<forall>a \<in> set (audit_anchors (pool_db w' d)). anchor_id a = i \<longrightarrow> anchor_confirmation a = pr_CurrentConfirmation resp"
      using moved(2,6,9) by simp
    moreover have "\<not> pr_Swallowed resp" "pr_Transitioned resp" "pr_PreviousConfirmation resp = anchor_confirmation row"
      "confirmationOrder (anchor_confirmation row) < confirmationOrder (pr_CurrentConfirmation resp)"
      using moved(2-7) by simp_all
    ultimately show ?thesis by blast
  next
    case (kept r)
    then show ?thesis by simp
  next
    case (swallowed r)
    then show ?thesis by simp
  qed simp
  with poll_lookup_InrD [OF answered(1)] show ?thesis by blast
qed simp

theorem Poll_response_witness:
  "\<exists>resp. PollAnchorConfirmationHandler steady_pg 0 (poll_world ''confirmed'' True) None (Some poll_request)
      = (poll_world ''confirmed'' True, Inr resp)
    \<and> pr_Swallowed resp \<and> pr_PreviousConfirmation resp = ''pending''"
proof -
  obtain resp where run: "PollAnchorConfirmationHandler steady_pg 0 (poll_world ''confirmed'' True) None (Some poll_request)
      = (poll_world ''confirmed'' True, Inr resp)" and sw: "pr_Swallowed resp"
    by (simp add: PollAnchorConfirmationHandler_def poll_sample_lookup verifying_provider_def poll_answer_def Let_def)
  from Poll_response [OF run] obtain row where "row \<in> set (audit_anchors (pool_db (poll_world ''confirmed'' True) (Pool 0 ''d'')))"
    "pr_PreviousConfirmation resp = anchor_confirmation row"
    by (auto simp: poll_world_def sample_registry_def RegisterAnchorProvider_def GetDB_def map_get_def)
  then have "pr_PreviousConfirmation resp = ''pending''"
    by (simp add: poll_world_def pool_db_def sample_pending_def)
  with run sw show ?thesis by blast
qed

end
