(* ===== verification/System.thy ===== *)
theory System
  imports Plugin Concurrency Step_Append Step_Anchor Step_Poll
begin

section \<open>The whole plugin\<close>

text \<open>
  The parts together: modules are created by \<open>CreateTypedModule\<close>, initialised and stopped in any order,
  and the three steps that write (append, anchor, poll) run in between on the databases the registered
  pools lead to; the other steps only read. The invariant of the modules joins the life cycle's with the
  origin of the providers: every registered one comes from a factory, so it keeps the contract of
  \<open>shipped_provider\<close> and has one of the three names.
\<close>

subsection \<open>The steps of the plugin\<close>

datatype request =
    AppendReq AppendRequest
  | AnchorReq AnchorRequest
  | PollReq "PollAnchorConfirmationConfig option" "PollAnchorConfirmationRequest option"

text \<open>What a request makes of the world, whether the step answers or fails.\<close>

fun serve :: "pg \<Rightarrow> (string list \<Rightarrow> string list) \<Rightarrow> go_time \<Rightarrow> world \<Rightarrow> request \<Rightarrow> world" where
  "serve pg order clock w (AppendReq q) = fst (AppendHandler pg w q)"
| "serve pg order clock w (AnchorReq q) = fst (AnchorHandler pg order w q)"
| "serve pg order clock w (PollReq cfg inp) = fst (PollAnchorConfirmationHandler pg clock w cfg inp)"

record system =
  sys_modules :: lifecycle
  sys_providers :: "anchorProviderModule list"
  sys_dbs :: "string \<Rightarrow> database"

definition world_of :: "system \<Rightarrow> world" where
  "world_of s = \<lparr>w_registry = lc_registry (sys_modules s), w_dbs = sys_dbs s\<rparr>"

text \<open>The world after \<open>n\<close> more calls of the providers: what they see of the outside changes with the time.\<close>

definition later :: "nat \<Rightarrow> AnchorProvider \<Rightarrow> AnchorProvider" where
  "later n p = p\<lparr>pAnchor := (\<lambda>i. pAnchor p (n + i)), pVerify := (\<lambda>i. pVerify p (n + i))\<rparr>"

definition world_at :: "nat \<Rightarrow> system \<Rightarrow> world" where
  "world_at n s = \<lparr>w_registry = (lc_registry (sys_modules s))\<lparr>anchorProviderRegistry :=
       map (\<lambda>(name, p). (name, later n p)) (anchorProviderRegistry (lc_registry (sys_modules s)))\<rparr>, w_dbs = sys_dbs s\<rparr>"

definition initial_system :: "(string \<Rightarrow> database) \<Rightarrow> system" where
  "initial_system dbs = \<lparr>sys_modules = initial_lifecycle, sys_providers = [], sys_dbs = dbs\<rparr>"

text \<open>\<open>policy\<close> says which requests the callers make.\<close>

type_synonym policy = "world \<Rightarrow> request \<Rightarrow> bool"

inductive system_step :: "('r, 'k) outside \<Rightarrow> 'any protobuf \<Rightarrow> policy \<Rightarrow> system \<Rightarrow> system \<Rightarrow> bool"
  for out :: "('r, 'k) outside" and pb :: "'any protobuf" and policy :: policy where
  create_ledger: "CreateTypedModule out pb t name config = Inr (LedgerInstance m) \<Longrightarrow>
     system_step out pb policy s (s\<lparr>sys_modules := (sys_modules s)\<lparr>lc_modules := lc_modules (sys_modules s) @ [m]\<rparr>\<rparr>)"
| create_provider: "CreateTypedModule out pb t name config = Inr (ProviderInstance m) \<Longrightarrow>
     system_step out pb policy s (s\<lparr>sys_providers := m # sys_providers s\<rparr>)"
| init_ledger: "i < length (lc_modules (sys_modules s)) \<Longrightarrow>
     LedgerInit parse (lc_next_pool (sys_modules s)) (lc_registry (sys_modules s)) (lc_modules (sys_modules s) ! i) = (r, m, e) \<Longrightarrow>
     system_step out pb policy s (s\<lparr>sys_modules := (sys_modules s)\<lparr>lc_registry := r, lc_modules := (lc_modules (sys_modules s))[i := m],
       lc_next_pool := Suc (lc_next_pool (sys_modules s))\<rparr>\<rparr>)"
| stop_ledger: "i < length (lc_modules (sys_modules s)) \<Longrightarrow>
     LedgerStop close_fault (lc_registry (sys_modules s)) (lc_modules (sys_modules s) ! i) = (r, ds, e) \<Longrightarrow>
     system_step out pb policy s (s\<lparr>sys_modules := (sys_modules s)\<lparr>lc_registry := r, lc_closed := ds @ lc_closed (sys_modules s)\<rparr>\<rparr>)"
| init_provider: "m \<in> set (sys_providers s) \<Longrightarrow> ProviderInit (lc_registry (sys_modules s)) m = (r, e) \<Longrightarrow>
     system_step out pb policy s (s\<lparr>sys_modules := (sys_modules s)\<lparr>lc_registry := r\<rparr>\<rparr>)"
| stop_provider: "m \<in> set (sys_providers s) \<Longrightarrow> ProviderStop (lc_registry (sys_modules s)) m = (r, e) \<Longrightarrow>
     system_step out pb policy s (s\<lparr>sys_modules := (sys_modules s)\<lparr>lc_registry := r\<rparr>\<rparr>)"
| run: "policy (world_at n s) q \<Longrightarrow> system_step out pb policy s (s\<lparr>sys_dbs := w_dbs (serve pg order clock (world_at n s) q)\<rparr>)"

inductive system_reachable :: "('r, 'k) outside \<Rightarrow> 'any protobuf \<Rightarrow> policy \<Rightarrow> (string \<Rightarrow> database) \<Rightarrow> system \<Rightarrow> bool"
  for out :: "('r, 'k) outside" and pb :: "'any protobuf" and policy :: policy and dbs :: "string \<Rightarrow> database" where
  start: "system_reachable out pb policy dbs (initial_system dbs)"
| step: "system_reachable out pb policy dbs s \<Longrightarrow> system_step out pb policy s t \<Longrightarrow> system_reachable out pb policy dbs t"

lemma world_of_simps [simp]: "w_registry (world_of s) = lc_registry (sys_modules s)" "w_dbs (world_of s) = sys_dbs s"
  by (simp_all add: world_of_def)

lemma map_get_later: "map_get (map (\<lambda>(name, p). (name, later n p)) m) k = map_option (later n) (map_get m k)"
  by (induction m) (auto simp: map_get_def)

lemma world_at_simps [simp]:
  "GetDB (w_registry (world_at n s)) = GetDB (lc_registry (sys_modules s))"
  "GetLedger (w_registry (world_at n s)) = GetLedger (lc_registry (sys_modules s))"
  "GetAnchorProvider (w_registry (world_at n s)) k = map_option (later n) (GetAnchorProvider (lc_registry (sys_modules s)) k)"
  "w_dbs (world_at n s) = sys_dbs s"
  by (simp_all add: world_at_def GetDB_def GetLedger_def GetAnchorProvider_def map_get_later fun_eq_iff)

lemma later_0: "later 0 = id"
  by (simp add: later_def fun_eq_iff)

lemma world_at_0: "world_at 0 s = world_of s"
  by (simp add: world_at_def world_of_def later_0)

subsection \<open>The invariant of the modules\<close>

text \<open>Every registered provider is one the plugin created, and a ledger's name is never empty.\<close>

definition modules_ok :: "('r, 'k) outside \<Rightarrow> system \<Rightarrow> bool" where
  "modules_ok out s \<longleftrightarrow> lifecycle_ok (sys_modules s) \<and> (\<forall>m \<in> set (sys_providers s). from_factory out m)
     \<and> (\<forall>n p. GetAnchorProvider (lc_registry (sys_modules s)) n = Some p \<longrightarrow> (\<exists>m \<in> set (sys_providers s). pm_provider m = p))
     \<and> (\<forall>m \<in> set (lc_modules (sys_modules s)). lm_name m \<noteq> [])"

lemma get_provider_facts:
  assumes "registry_ok r"
  shows "GetAnchorProvider (RegisterAnchorProvider n p r) k = (if k = n then Some p else GetAnchorProvider r k)"
    and "GetAnchorProvider (UnregisterAnchorProvider n r) k = (if k = n then None else GetAnchorProvider r k)"
  using assms by (simp_all add: provider_store.get_put provider_store.get_del)

lemma lifecycle_ok_registry: "lifecycle_ok s \<Longrightarrow> registry_ok (lc_registry s)"
  by (simp add: lifecycle_ok_def)

lemma modules_ok_initial: "modules_ok out (initial_system dbs)"
  using lifecycle_ok_initial
  by (simp add: modules_ok_def initial_system_def) (simp add: initial_lifecycle_def empty_registry_def GetAnchorProvider_def map_get_def)

lemma NewLedgerModule_name: "NewLedgerModule n cfg = Inr m \<Longrightarrow> lm_name m \<noteq> [] \<and> lm_db m = None"
  by (auto simp: NewLedgerModule_def split: if_splits)

lemma modules_ok_step:
  assumes "system_step out pb policy s t" and ok: "modules_ok out s"
  shows "modules_ok out t"
proof -
  note life = lifecycle_ok_step [OF _ conjunct1 [OF ok [unfolded modules_ok_def]]]
  have reg: "registry_ok (lc_registry (sys_modules s))" using ok by (simp add: modules_ok_def lifecycle_ok_registry)
  from assms(1) show ?thesis
  proof cases
    case (create_ledger ty name config m)
    obtain cfg where new: "NewLedgerModule name cfg = Inr m" using CreateTypedModule_ledger [OF create_ledger(2)] ..
    with life [OF lifecycle_step.create [OF new]] ok NewLedgerModule_name [OF new] show ?thesis
      by (simp add: create_ledger(1) modules_ok_def)
  next
    case (create_provider ty name config m)
    with ok CreateTypedModule_provider [OF create_provider(2)] show ?thesis by (auto simp: modules_ok_def)
  next
    case (init_ledger i parse r m e)
    have "lm_name m = lm_name (lc_modules (sys_modules s) ! i) \<and> GetAnchorProvider r = GetAnchorProvider (lc_registry (sys_modules s))"
      using init_ledger(3) by (cases rule: LedgerInit_cases) simp_all
    moreover have "lm_name (lc_modules (sys_modules s) ! i) \<noteq> []" using ok init_ledger(2) by (simp add: modules_ok_def)
    ultimately show ?thesis using life [OF lifecycle_step.init [OF init_ledger(2,3)]] ok
      by (auto simp: init_ledger(1) modules_ok_def dest!: set_update_subset_insert [THEN subsetD])
  next
    case (stop_ledger i cf r ds e)
    have "GetAnchorProvider r = GetAnchorProvider (lc_registry (sys_modules s))"
      using LedgerStop_eq(1) [OF stop_ledger(3)] by simp
    with life [OF lifecycle_step.stop [OF stop_ledger(2,3)]] ok show ?thesis by (simp add: stop_ledger(1) modules_ok_def)
  next
    case (init_provider m r e)
    have "r = RegisterAnchorProvider (pm_instanceName m) (pm_provider m) (lc_registry (sys_modules s))"
      using init_provider(3) by (simp add: ProviderInit_def)
    with life [OF lifecycle_step.provider_init [OF init_provider(3)]] ok init_provider(2) show ?thesis
      by (auto simp: init_provider(1) modules_ok_def get_provider_facts [OF reg])
  next
    case (stop_provider m r e)
    have "r = UnregisterAnchorProvider (pm_instanceName m) (lc_registry (sys_modules s))"
      using stop_provider(3) by (simp add: ProviderStop_def)
    with life [OF lifecycle_step.provider_stop [OF stop_provider(3)]] ok show ?thesis
      by (auto simp: stop_provider(1) modules_ok_def get_provider_facts [OF reg])
  next
    case (run pg order clock n q)
    with ok show ?thesis by (simp add: modules_ok_def)
  qed
qed

lemma reachable_modules_ok: "system_reachable out pb policy dbs s \<Longrightarrow> modules_ok out s"
  by (induction rule: system_reachable.induct) (auto intro: modules_ok_initial modules_ok_step)

text \<open>So a step only ever talks to providers that keep the contract and go by one of the three names.\<close>

definition shipped :: "AnchorProvider \<Rightarrow> bool" where
  "shipped p \<longleftrightarrow> contract_ok p \<and> pName p \<in> shipped_names"

lemma shipped_later: "shipped p \<Longrightarrow> shipped (later n p)"
  by (simp add: shipped_def contract_ok_def later_def)

lemma registered_shipped:
  assumes "modules_ok out s" and "GetAnchorProvider (w_registry (world_at n s)) k = Some p"
  shows "shipped p"
proof -
  obtain p' where "GetAnchorProvider (lc_registry (sys_modules s)) k = Some p'" "p = later n p'" using assms(2) by auto
  then show ?thesis using assms(1) factory_contract factory_name shipped_later
    unfolding modules_ok_def shipped_def by blast
qed

end
