(* ===== verification/Step_Verify.thy ===== *)
theory Step_Verify
  imports World
begin

section \<open>step.audit.verify\<close>

text \<open>
  \<^verbatim>\<open>steps/verify.go\<close>: a scan over the rows of a range that re-derives every entry hash and compares
  every row's \<open>prev_entry_hash\<close> with the row before. The specification is \<open>segment_ok\<close>. The properties
  say that \<open>valid\<close> is never reported without it, what exactly is reported otherwise, that histories
  which verify and end in the same hash agree, and what the scan cannot see.
\<close>

subsection \<open>The code\<close>

text \<open>The rows of the query; an end of 0 means no upper bound.\<close>

definition verify_rows :: "database \<Rightarrow> VerifyRequest \<Rightarrow> log_row list" where
  "verify_rows db input = select_log db (vq_Ledger input)
     (\<lambda>s. sint (vq_StartSequence input) \<le> s \<and> (vq_EndSequence input = 0 \<or> s \<le> sint (vq_EndSequence input)))"

text \<open>The loop's variables.\<close>

record verify_state =
  vs_verified :: int64
  vs_prevHash :: string
  vs_firstSeq :: int64

definition verify_body ::
  "pg \<Rightarrow> string \<Rightarrow> nat \<Rightarrow> verify_state \<Rightarrow> log_row \<Rightarrow> (verify_state, VerifyResponse result) flow" where
  "verify_body pg ledger i st r =
     (case pg_scan_fault pg SelectChain i of
        Some e \<Rightarrow> Return (Inl (Errorf ''step.audit.verify: scan: %w'' [ArgE e]))
      | None \<Rightarrow>
          if 0 < sint (vs_verified st) \<and> log_prev_entry_hash r \<noteq> vs_prevHash st
          then Return (Inr
            \<lparr>vr_Valid = False, vr_FirstInvalidSequence = log_sequence r,
             vr_FailureReason = ''chain link broken at sequence '' @ format_int (seq_of r)
               @ '': prev_entry_hash mismatch'',
             vr_EntriesVerified = vs_verified st\<rparr>)
          else
            let expected = EntryHash (log_sequence r) ledger (log_event_type r) (log_payload_hash r) (log_prev_entry_hash r)
            in if expected \<noteq> log_entry_hash r
               then Return (Inr
                 \<lparr>vr_Valid = False, vr_FirstInvalidSequence = log_sequence r,
                  vr_FailureReason = ''entry hash mismatch at sequence '' @ format_int (seq_of r)
                    @ '': stored='' @ log_entry_hash r @ '' derived='' @ expected,
                  vr_EntriesVerified = vs_verified st\<rparr>)
               else Next
                 \<lparr>vs_verified = vs_verified st + 1, vs_prevHash = log_entry_hash r,
                  vs_firstSeq = (if sint (vs_firstSeq st) < 0 then log_sequence r else vs_firstSeq st)\<rparr>)"

definition VerifyHandler :: "pg \<Rightarrow> world \<Rightarrow> VerifyRequest \<Rightarrow> VerifyResponse result" where
  "VerifyHandler pg w input =
     (if vq_Ledger input = [] then Inl (Errorf ''step.audit.verify: ledger is required'' [])
      else case GetDB (w_registry w) (vq_Ledger input) of
             None \<Rightarrow>
               Inl (Errorf ''step.audit.verify: ledger %q not registered; ensure the audit.ledger module is initialised''
                      [ArgS (vq_Ledger input)])
           | Some db \<Rightarrow>
     (case query_rows pg SelectChain (verify_rows (pool_db w db) input) of
        Inl e \<Rightarrow> Inl (Errorf ''step.audit.verify: query: %w'' [ArgE e])
      | Inr (rows, rows_err) \<Rightarrow>
     (case for_rows (verify_body pg (vq_Ledger input)) 0 \<lparr>vs_verified = 0, vs_prevHash = [], vs_firstSeq = - 1\<rparr> rows of
        Return out \<Rightarrow> out
      | Next st \<Rightarrow>
     (case rows_err of
        Some e \<Rightarrow> Inl (Errorf ''step.audit.verify: rows: %w'' [ArgE e])
      | None \<Rightarrow>
          Inr \<lparr>vr_Valid = True, vr_FirstInvalidSequence = 0, vr_FailureReason = [],
               vr_EntriesVerified = vs_verified st\<rparr>))))"

subsection \<open>The loop\<close>

text \<open>After a verified prefix \<open>rs\<close> the loop's state is determined by it.\<close>

definition verified_prefix :: "verify_state \<Rightarrow> log_row list \<Rightarrow> bool" where
  "verified_prefix st rs \<longleftrightarrow> vs_verified st = of_nat (length rs) \<and> vs_prevHash st = head_hash [] rs"

lemma sint_of_nat: "int n < int64_max \<Longrightarrow> sint (of_nat n :: int64) = int n"
  by (simp add: int64_max_def signed_of_nat signed_take_bit_int_eq_self)

lemma verify_body_ok:
  assumes "verified_prefix st rs" and "segment_ok l rs" and "int (length rs) < int64_max"
    and "verify_body pg l i st r = Next st'"
  shows "verified_prefix st' (rs @ [r]) \<and> segment_ok l (rs @ [r])"
  using assms
  by (auto simp: verify_body_def verified_prefix_def Let_def segment_ok_snoc row_hash_ok_def sint_of_nat head_hash_def
      split: option.splits if_splits)

lemma verify_body_stops:
  assumes "verified_prefix st rs" and "segment_ok l rs" and "int (length rs) < int64_max"
    and "verify_body pg l i st r = Return (Inr resp)"
  shows "\<not> segment_ok l (rs @ [r]) \<and> \<not> vr_Valid resp \<and> vr_FirstInvalidSequence resp = log_sequence r
    \<and> vr_EntriesVerified resp = of_nat (length rs)"
  using assms
  by (auto simp: verify_body_def verified_prefix_def Let_def segment_ok_snoc row_hash_ok_def sint_of_nat head_hash_def
      split: option.splits if_splits)

lemma verify_body_fault:
  "verify_body pg l i st r = Return (Inl e) \<Longrightarrow> pg_scan_fault pg SelectChain i \<noteq> None"
  by (auto simp: verify_body_def Let_def split: option.splits if_splits)

text \<open>What a run of the loop from a verified prefix ends with.\<close>

definition loop_post ::
  "pg \<Rightarrow> string \<Rightarrow> log_row list \<Rightarrow> log_row list \<Rightarrow> (verify_state, VerifyResponse result) flow \<Rightarrow> bool" where
  "loop_post pg l seen rs out \<longleftrightarrow> (case out of
      Next st' \<Rightarrow> verified_prefix st' (seen @ rs) \<and> segment_ok l (seen @ rs)
    | Return (Inl e) \<Rightarrow> \<exists>j. pg_scan_fault pg SelectChain j \<noteq> None
    | Return (Inr resp) \<Rightarrow> \<exists>k < length rs. segment_ok l (seen @ take k rs)
        \<and> \<not> segment_ok l (seen @ take (Suc k) rs) \<and> \<not> vr_Valid resp
        \<and> vr_FirstInvalidSequence resp = log_sequence (rs ! k)
        \<and> vr_EntriesVerified resp = of_nat (length seen + k))"

lemma loop_post_Cons:
  assumes "loop_post pg l (seen @ [r]) rs out" shows "loop_post pg l seen (r # rs) out"
proof (cases out)
  case (Return v)
  show ?thesis
  proof (cases v)
    case (Inr resp)
    with Return assms obtain k where "k < length rs" "segment_ok l (seen @ r # take k rs)"
      "\<not> segment_ok l (seen @ r # take (Suc k) rs)" "\<not> vr_Valid resp"
      "vr_FirstInvalidSequence resp = log_sequence (rs ! k)" "vr_EntriesVerified resp = of_nat (length seen + Suc k)"
      by (auto simp: loop_post_def)
    with Return Inr show ?thesis
      by (simp add: loop_post_def) (rule exI [of _ "Suc k"], simp)
  qed (use Return assms in \<open>simp add: loop_post_def\<close>)
qed (use assms in \<open>simp add: loop_post_def\<close>)

lemma verify_loop:
  assumes "verified_prefix st seen" and "segment_ok l seen" and "int (length (seen @ rs)) < int64_max"
  shows "loop_post pg l seen rs (for_rows (verify_body pg l) i st rs)"
  using assms
proof (induction rs arbitrary: i st seen)
  case Nil
  then show ?case by (simp add: loop_post_def)
next
  case (Cons r rs)
  have len: "int (length seen) < int64_max" using Cons.prems(3) by simp
  show ?case
  proof (cases "verify_body pg l i st r")
    case (Next st')
    then have "verified_prefix st' (seen @ [r])" "segment_ok l (seen @ [r])"
      using verify_body_ok [OF Cons.prems(1,2) len] by blast+
    then have "loop_post pg l (seen @ [r]) rs (for_rows (verify_body pg l) (Suc i) st' rs)"
      using Cons.prems(3) by (intro Cons.IH) simp_all
    with Next show ?thesis by (simp add: loop_post_Cons)
  next
    case (Return out)
    show ?thesis
    proof (cases out)
      case (Inl e)
      with Return verify_body_fault [of pg l i st r e] show ?thesis by (auto simp: loop_post_def)
    next
      case (Inr resp)
      have "\<not> segment_ok l (seen @ [r])" "\<not> vr_Valid resp" "vr_FirstInvalidSequence resp = log_sequence r"
        "vr_EntriesVerified resp = of_nat (length seen)"
        using verify_body_stops [OF Cons.prems(1,2) len] Return Inr by blast+
      with Return Inr Cons.prems(2) show ?thesis
        by (simp add: loop_post_def) (rule exI [of _ 0], simp)
    qed
  qed
qed

lemma VerifyHandler_run:
  assumes "vq_Ledger q \<noteq> []" and "GetDB (w_registry w) (vq_Ledger q) = Some d"
    and "query_rows pg SelectChain (verify_rows (pool_db w d) q) = Inr (rows, err)"
  shows "VerifyHandler pg w q =
    (case for_rows (verify_body pg (vq_Ledger q)) 0 \<lparr>vs_verified = 0, vs_prevHash = [], vs_firstSeq = - 1\<rparr> rows of
       Return out \<Rightarrow> out
     | Next st \<Rightarrow> (case err of Some e \<Rightarrow> Inl (Errorf ''step.audit.verify: rows: %w'' [ArgE e])
         | None \<Rightarrow> Inr \<lparr>vr_Valid = True, vr_FirstInvalidSequence = 0, vr_FailureReason = [],
                         vr_EntriesVerified = vs_verified st\<rparr>))"
  using assms by (simp add: VerifyHandler_def)

lemma verify_loop_start:
  "int (length rs) < int64_max \<Longrightarrow>
   loop_post pg l [] rs (for_rows (verify_body pg l) 0 \<lparr>vs_verified = 0, vs_prevHash = [], vs_firstSeq = - 1\<rparr> rs)"
  by (rule verify_loop) (simp_all add: verified_prefix_def)

lemma VerifyHandler_Inr:
  assumes "VerifyHandler pg w q = Inr resp"
  obtains d rows err where "vq_Ledger q \<noteq> []" and "GetDB (w_registry w) (vq_Ledger q) = Some d"
    and "query_rows pg SelectChain (verify_rows (pool_db w d) q) = Inr (rows, err)"
  using assms by (auto simp: VerifyHandler_def split: if_splits option.splits sum.splits)

lemma VerifyHandler_valid:
  assumes "VerifyHandler pg w q = Inr resp" and "vr_Valid resp"
    and "GetDB (w_registry w) (vq_Ledger q) = Some d"
    and "int (length (verify_rows (pool_db w d) q)) < int64_max"
  shows "segment_ok (vq_Ledger q) (verify_rows (pool_db w d) q)
    \<and> vr_EntriesVerified resp = of_nat (length (verify_rows (pool_db w d) q))"
proof -
  obtain rows err where q: "vq_Ledger q \<noteq> []"
    "query_rows pg SelectChain (verify_rows (pool_db w d) q) = Inr (rows, err)"
    using assms(1,3) by (auto elim: VerifyHandler_Inr)
  obtain k where k: "rows = take k (verify_rows (pool_db w d) q)" "err = None \<longrightarrow> rows = verify_rows (pool_db w d) q"
    using query_rows_InrD [OF q(2)] by blast
  then have "int (length rows) < int64_max" using assms(4) by simp
  from verify_loop_start [OF this, of pg "vq_Ledger q"] VerifyHandler_run [OF q(1) assms(3) q(2)] assms(1,2) k(2)
  show ?thesis
    by (auto simp: loop_post_def verified_prefix_def split: flow.splits option.splits)
qed

lemma VerifyHandler_healthy:
  assumes "healthy pg" and "vq_Ledger q \<noteq> []" and "GetDB (w_registry w) (vq_Ledger q) = Some d"
    and "int (length (verify_rows (pool_db w d) q)) < int64_max"
  shows "\<exists>out. loop_post pg (vq_Ledger q) [] (verify_rows (pool_db w d) q) out
    \<and> VerifyHandler pg w q = (case out of Return r \<Rightarrow> r | Next st \<Rightarrow>
        Inr \<lparr>vr_Valid = True, vr_FirstInvalidSequence = 0, vr_FailureReason = [], vr_EntriesVerified = vs_verified st\<rparr>)"
  using verify_loop_start [OF assms(4), of pg "vq_Ledger q"]
    VerifyHandler_run [OF assms(2,3) query_rows_healthy [OF assms(1)]]
  by (intro exI conjI) (assumption, simp split: flow.split)

lemma VerifyHandler_accepts:
  assumes "healthy pg" and "vq_Ledger q \<noteq> []" and "GetDB (w_registry w) (vq_Ledger q) = Some d"
    and "int (length (verify_rows (pool_db w d) q)) < int64_max"
    and "segment_ok (vq_Ledger q) (verify_rows (pool_db w d) q)"
  shows "VerifyHandler pg w q = Inr \<lparr>vr_Valid = True, vr_FirstInvalidSequence = 0, vr_FailureReason = [],
    vr_EntriesVerified = of_nat (length (verify_rows (pool_db w d) q))\<rparr>"
proof -
  obtain out where out: "loop_post pg (vq_Ledger q) [] (verify_rows (pool_db w d) q) out"
    "VerifyHandler pg w q = (case out of Return r \<Rightarrow> r | Next st \<Rightarrow>
        Inr \<lparr>vr_Valid = True, vr_FirstInvalidSequence = 0, vr_FailureReason = [], vr_EntriesVerified = vs_verified st\<rparr>)"
    using VerifyHandler_healthy [OF assms(1-4)] by blast
  show ?thesis
  proof (cases out)
    case (Next st)
    with out show ?thesis by (simp add: loop_post_def verified_prefix_def)
  next
    case (Return r)
    with out(1) assms(5) have False
      by (auto simp: loop_post_def healthyD [OF assms(1)] segment_ok_take split: sum.splits)
    then show ?thesis ..
  qed
qed

text \<open>What is left of a sorted list in an interval of its keys is contiguous.\<close>

lemma sorted_filter_upper:
  fixes f :: "'a \<Rightarrow> int"
  shows "sorted (map f xs) \<Longrightarrow> filter (\<lambda>x. f x \<le> hi) xs = takeWhile (\<lambda>x. f x \<le> hi) xs"
proof (induction xs)
  case (Cons x xs)
  have "filter (\<lambda>x. f x \<le> hi) xs = []" if "hi < f x" using that Cons.prems by (auto simp: filter_empty_conv)
  with Cons show ?case by (cases "f x \<le> hi") simp_all
qed simp

lemma sorted_filter_lower:
  fixes f :: "'a \<Rightarrow> int"
  shows "sorted (map f xs) \<Longrightarrow> filter (\<lambda>x. lo \<le> f x) xs = dropWhile (\<lambda>x. f x < lo) xs"
proof (induction xs)
  case (Cons x xs)
  have "filter (\<lambda>x. lo \<le> f x) xs = xs" if "lo \<le> f x" using that Cons.prems by (auto simp: filter_id_conv)
  with Cons show ?case by (cases "f x < lo") simp_all
qed simp

lemma sorted_interval:
  fixes f :: "'a \<Rightarrow> int"
  assumes "sorted (map f xs)"
  shows "\<exists>as bs. xs = as @ filter (\<lambda>x. lo \<le> f x \<and> f x \<le> hi) xs @ bs"
proof -
  have "sorted (map f (filter (\<lambda>x. lo \<le> f x) xs))" using assms by (rule sorted_filter)
  from sorted_filter_upper [OF this, of hi]
  have "filter (\<lambda>x. lo \<le> f x \<and> f x \<le> hi) xs = takeWhile (\<lambda>x. f x \<le> hi) (filter (\<lambda>x. lo \<le> f x) xs)"
    by (simp add: conj_commute)
  with sorted_filter_lower [OF assms, of lo]
  have "filter (\<lambda>x. lo \<le> f x \<and> f x \<le> hi) xs = takeWhile (\<lambda>x. f x \<le> hi) (dropWhile (\<lambda>x. f x < lo) xs)" by simp
  then show ?thesis by (metis takeWhile_dropWhile_id)
qed

lemma sort_key_map: "(\<And>x. key (f x) = key x) \<Longrightarrow> sort_key key (map f xs) = map f (sort_key key xs)"
proof -
  assume key: "\<And>x. key (f x) = key x"
  have "insort_key key (f x) (map f ys) = map f (insort_key key x ys)" for x ys
    by (induction ys) (simp_all add: key)
  then show ?thesis by (induction xs) (simp_all add: sort_key_def)
qed

text \<open>Editing the columns the entry hash does not cover.\<close>

definition edit_row ::
  "(log_row \<Rightarrow> bytes) \<Rightarrow> (log_row \<Rightarrow> string option) \<Rightarrow> (log_row \<Rightarrow> bytes option) \<Rightarrow> (log_row \<Rightarrow> go_time) \<Rightarrow> log_row \<Rightarrow> log_row" where
  "edit_row p a m t r = r\<lparr>log_payload := p r, log_actor := a r, log_metadata := m r, log_created_at := t r\<rparr>"

lemma edit_row_simps [simp]:
  "log_sequence (edit_row p a m t r) = log_sequence r" "log_ledger (edit_row p a m t r) = log_ledger r"
  "log_event_type (edit_row p a m t r) = log_event_type r" "log_payload_hash (edit_row p a m t r) = log_payload_hash r"
  "log_prev_entry_hash (edit_row p a m t r) = log_prev_entry_hash r" "log_entry_hash (edit_row p a m t r) = log_entry_hash r"
  "seq_of (edit_row p a m t r) = seq_of r"
  by (simp_all add: edit_row_def seq_of_def)

definition edit_logs ::
  "(log_row \<Rightarrow> bytes) \<Rightarrow> (log_row \<Rightarrow> string option) \<Rightarrow> (log_row \<Rightarrow> bytes option) \<Rightarrow> (log_row \<Rightarrow> go_time) \<Rightarrow> world \<Rightarrow> world" where
  "edit_logs p a m t w =
     w\<lparr>w_dbs := (\<lambda>dsn. (w_dbs w dsn)\<lparr>audit_log := map (edit_row p a m t) (audit_log (w_dbs w dsn))\<rparr>)\<rparr>"

lemma verify_rows_edit:
  "verify_rows (pool_db (edit_logs p a m t w) d) q = map (edit_row p a m t) (verify_rows (pool_db w d) q)"
  by (simp add: verify_rows_def select_log_def ledger_rows_def edit_logs_def pool_db_def filter_map comp_def sort_key_map)

lemma for_rows_map: "for_rows body i st (map f rs) = for_rows (\<lambda>j s r. body j s (f r)) i st rs"
  by (induction rs arbitrary: i st) (simp_all split: flow.split)

lemma query_rows_map:
  "query_rows pg s (map f rows) = map_sum id (map_prod (map f) id) (query_rows pg s rows)"
  by (simp add: query_rows_def take_map split: option.split)

subsection \<open>Properties\<close>

definition sample_verify :: VerifyRequest where
  "sample_verify = \<lparr>vq_Ledger = ''l'', vq_StartSequence = 0, vq_EndSequence = 0\<rparr>"

lemma sample_verify_rows [simp]: "verify_rows sample_db sample_verify = [sample_row]"
  by (simp add: verify_rows_def select_log_def sample_verify_def)

lemma sample_verify_simps [simp]: "vq_Ledger sample_verify = ''l''"
  by (simp add: sample_verify_def)

lemma sample_segment [simp]: "segment_ok ''l'' [sample_row]"
  by (simp add: segment_ok_def row_hash_ok_def sample_row_def sample_hash_def)

lemma sample_valid:
  "VerifyHandler steady_pg (sample_world sample_db) sample_verify =
   Inr \<lparr>vr_Valid = True, vr_FirstInvalidSequence = 0, vr_FailureReason = [], vr_EntriesVerified = 1\<rparr>"
  using VerifyHandler_accepts [of steady_pg sample_verify "sample_world sample_db" "Pool 0 ''d''"]
  by (simp add: int64_max_def)

text \<open>C7. A ledger is reported valid only if every row of the range carries the hash of its own fields
  and the hash of the row before it, and only after all of them were checked: an iteration that breaks
  off is never a success, whatever the server does.\<close>

theorem VerifyHandler_sound:
  assumes "VerifyHandler pg w q = Inr resp" and "vr_Valid resp"
    and "GetDB (w_registry w) (vq_Ledger q) = Some d"
    and "int (length (verify_rows (pool_db w d) q)) < int64_max"
  shows "(\<forall>r \<in> set (verify_rows (pool_db w d) q). row_hash_ok (vq_Ledger q) r)
    \<and> (\<forall>i. Suc i < length (verify_rows (pool_db w d) q) \<longrightarrow>
         log_prev_entry_hash (verify_rows (pool_db w d) q ! Suc i) = log_entry_hash (verify_rows (pool_db w d) q ! i))
    \<and> vr_EntriesVerified resp = of_nat (length (verify_rows (pool_db w d) q))"
  using VerifyHandler_valid [OF assms]
  by (simp add: segment_ok_def successively_conv_nth)

theorem VerifyHandler_sound_witness:
  "VerifyHandler steady_pg (sample_world sample_db) sample_verify =
     Inr \<lparr>vr_Valid = True, vr_FirstInvalidSequence = 0, vr_FailureReason = [], vr_EntriesVerified = 1\<rparr>
   \<and> row_hash_ok ''l'' sample_row"
  using VerifyHandler_sound [OF sample_valid, of "Pool 0 ''d''"] sample_valid by (simp add: int64_max_def)

text \<open>C17. On a server that answers, the report is exact: a sound stretch is valid with the number of
  its rows; otherwise the first row whose hash or link is wrong is named, with the number of rows
  before it.\<close>

theorem VerifyHandler_exact:
  assumes "healthy pg" and "vq_Ledger q \<noteq> []" and "GetDB (w_registry w) (vq_Ledger q) = Some d"
    and "int (length (verify_rows (pool_db w d) q)) < int64_max"
  shows "\<exists>resp. VerifyHandler pg w q = Inr resp
    \<and> (if segment_ok (vq_Ledger q) (verify_rows (pool_db w d) q)
       then vr_Valid resp \<and> vr_EntriesVerified resp = of_nat (length (verify_rows (pool_db w d) q))
       else \<not> vr_Valid resp \<and> (\<exists>k < length (verify_rows (pool_db w d) q).
          segment_ok (vq_Ledger q) (take k (verify_rows (pool_db w d) q))
        \<and> \<not> segment_ok (vq_Ledger q) (take (Suc k) (verify_rows (pool_db w d) q))
        \<and> vr_FirstInvalidSequence resp = log_sequence (verify_rows (pool_db w d) q ! k)
        \<and> vr_EntriesVerified resp = of_nat k))"
proof (cases "segment_ok (vq_Ledger q) (verify_rows (pool_db w d) q)")
  case True
  then show ?thesis using VerifyHandler_accepts [OF assms True] by simp
next
  case False
  obtain out where "loop_post pg (vq_Ledger q) [] (verify_rows (pool_db w d) q) out"
    "VerifyHandler pg w q = (case out of Return r \<Rightarrow> r | Next st \<Rightarrow>
        Inr \<lparr>vr_Valid = True, vr_FirstInvalidSequence = 0, vr_FailureReason = [], vr_EntriesVerified = vs_verified st\<rparr>)"
    using VerifyHandler_healthy [OF assms] by blast
  with False show ?thesis
    by (auto simp: loop_post_def healthyD [OF assms(1)] split: flow.splits sum.splits)
qed

theorem VerifyHandler_exact_witness:
  "\<exists>resp. VerifyHandler steady_pg (sample_world (sample_db\<lparr>audit_log := [sample_row\<lparr>log_entry_hash := []\<rparr>]\<rparr>)) sample_verify = Inr resp
     \<and> \<not> vr_Valid resp \<and> vr_FirstInvalidSequence resp = 1 \<and> vr_EntriesVerified resp = 0"
proof -
  let ?r = "sample_row\<lparr>log_entry_hash := []\<rparr>"
  have rows: "verify_rows (sample_db\<lparr>audit_log := [?r]\<rparr>) sample_verify = [?r]"
    by (simp add: verify_rows_def select_log_def sample_verify_def ledger_rows_def sample_row_def seq_of_def)
  have "length (log_entry_hash ?r) \<noteq> 64" by simp
  then have "\<not> row_hash_ok ''l'' ?r" unfolding row_hash_ok_def by (metis length_EntryHash)
  then have bad: "\<not> segment_ok ''l'' [?r]" by (simp add: segment_ok_def)
  from VerifyHandler_exact [of steady_pg sample_verify "sample_world (sample_db\<lparr>audit_log := [?r]\<rparr>)" "Pool 0 ''d''"]
  show ?thesis by (auto simp: rows bad int64_max_def)
qed

text \<open>Tamper evidence of a verified range: if two databases verify on the same request, with the
  same number of rows and the same last entry hash, then the rows agree in everything the entry hash
  covers, or the hash function collides on two of the preimages.\<close>

theorem VerifyHandler_tamper_evident:
  assumes "VerifyHandler pg w q = Inr resp" and "vr_Valid resp"
    and "VerifyHandler pg' w' q = Inr resp'" and "vr_Valid resp'"
    and "GetDB (w_registry w) (vq_Ledger q) = Some d" and "GetDB (w_registry w') (vq_Ledger q) = Some d'"
    and "rs = verify_rows (pool_db w d) q" and "ts = verify_rows (pool_db w' d') q"
    and "length rs = length ts" and "int (length rs) < int64_max" and "head_hash [] rs = head_hash [] ts"
    and "valid_utf8 (vq_Ledger q)" and "\<forall>r \<in> set rs \<union> set ts. text_ok r"
  shows "map entry_fields rs = map entry_fields ts
    \<or> collides (chain_messages (vq_Ledger q) rs) (chain_messages (vq_Ledger q) ts)"
proof (rule segment_binding)
  show "segment_ok (vq_Ledger q) rs" "segment_ok (vq_Ledger q) ts"
    using VerifyHandler_valid [OF assms(1,2,5)] VerifyHandler_valid [OF assms(3,4,6)] assms(7-10) by simp_all
qed (use assms in auto)

theorem VerifyHandler_tamper_evident_witness:
  "map entry_fields [sample_row] = map entry_fields [sample_row]
    \<or> collides (chain_messages ''l'' [sample_row]) (chain_messages ''l'' [sample_row])"
proof -
  have "text_ok sample_row"
    by (simp add: text_ok_def sample_row_def sha256Hex_def utf8_width.simps(2) lead_width_def)
  moreover have "valid_utf8 ''l''" by (simp add: utf8_width.simps(2) lead_width_def)
  ultimately have "map entry_fields [sample_row] = map entry_fields [sample_row]
      \<or> collides (chain_messages (vq_Ledger sample_verify) [sample_row]) (chain_messages (vq_Ledger sample_verify) [sample_row])"
    by (intro VerifyHandler_tamper_evident [OF sample_valid _ sample_valid, where d = "Pool 0 ''d''" and d' = "Pool 0 ''d''"])
      (simp_all add: int64_max_def)
  then show ?thesis by simp
qed

text \<open>The scan reads the stored payload hash and never the payload: rewriting payloads, actors,
  metadata and timestamps of any rows in the database changes no report.\<close>

theorem VerifyHandler_ignores_payload:
  "VerifyHandler pg (edit_logs p a m t w) q = VerifyHandler pg w q"
proof -
  have reg: "w_registry (edit_logs p a m t w) = w_registry w" by (simp add: edit_logs_def)
  have body: "(\<lambda>j s r. verify_body pg l j s (edit_row p a m t r)) = verify_body pg l" for l
    by (simp add: verify_body_def fun_eq_iff Let_def split: option.split)
  show ?thesis
    unfolding VerifyHandler_def reg verify_rows_edit query_rows_map
    by (auto simp: for_rows_map body split: option.split sum.split)
qed

text \<open>Deleting the beginning or the end of a ledger goes unnoticed: when a request is reported
  valid, it is still valid after all rows of the ledger outside any interval of sequence numbers are
  gone (also when none is left).\<close>

theorem VerifyHandler_truncation:
  assumes "healthy pg" and "VerifyHandler pg w q = Inr resp" and "vr_Valid resp"
    and "GetDB (w_registry w) (vq_Ledger q) = Some d"
    and "int (length (verify_rows (pool_db w d) q)) < int64_max"
    and "db' = (pool_db w d)\<lparr>audit_log := filter (\<lambda>r. log_ledger r = vq_Ledger q \<longrightarrow> lo \<le> seq_of r \<and> seq_of r \<le> hi)
                  (audit_log (pool_db w d))\<rparr>"
  shows "\<exists>resp'. VerifyHandler pg (put_db w d db') q = Inr resp' \<and> vr_Valid resp'"
proof -
  let ?rows = "verify_rows (pool_db w d) q" and ?in = "\<lambda>r. lo \<le> seq_of r \<and> seq_of r \<le> hi"
  have rows': "verify_rows db' q = filter ?in ?rows"
  proof -
    have "filter (\<lambda>r. log_ledger r = vq_Ledger q \<and> (log_ledger r = vq_Ledger q \<longrightarrow> ?in r)) rs =
        filter (\<lambda>r. log_ledger r = vq_Ledger q \<and> ?in r) rs" for rs by (rule filter_cong) auto
    then show ?thesis
      by (simp add: verify_rows_def select_log_def ledger_rows_def assms(6) filter_sort conj_commute conj_left_commute)
  qed
  have "sorted (map seq_of ?rows)" by (simp add: verify_rows_def select_log_def)
  then obtain as bs where "?rows = as @ verify_rows db' q @ bs"
    using sorted_interval [of seq_of ?rows lo hi] rows' by auto
  moreover have "segment_ok (vq_Ledger q) ?rows" using VerifyHandler_valid [OF assms(2-5)] by simp
  ultimately have "segment_ok (vq_Ledger q) (verify_rows db' q)" by (metis segment_ok_append)
  moreover have "length (verify_rows db' q) \<le> length ?rows" by (simp add: rows')
  moreover have "vq_Ledger q \<noteq> []" using assms(2) by (auto elim: VerifyHandler_Inr)
  ultimately show ?thesis
    using VerifyHandler_accepts [of pg q "put_db w d db'" d] assms(1,4,5) by simp
qed

theorem VerifyHandler_truncation_witness:
  "\<exists>resp. VerifyHandler steady_pg (put_db (sample_world sample_db) (Pool 0 ''d'') (sample_db\<lparr>audit_log := []\<rparr>)) sample_verify
     = Inr resp \<and> vr_Valid resp"
  using VerifyHandler_truncation [OF healthy_steady sample_valid, of "Pool 0 ''d''" "sample_db\<lparr>audit_log := []\<rparr>" 2 3]
  by (simp add: int64_max_def)

end
