(* ===== verification/Step_Proof.thy ===== *)
theory Step_Proof
  imports Step_Anchor
begin

section \<open>step.audit.proof\<close>

text \<open>
  \<^verbatim>\<open>steps/proof.go\<close>: the entry at a sequence number, the anchors whose range covers it, and a Merkle
  inclusion path for the first of them (by row id). The three query helpers are shared with
  \<^verbatim>\<open>step.audit.public_receipt\<close>. The properties say when the path verifies against the root returned
  with it.
\<close>

subsection \<open>The query helpers\<close>

definition entry_rows :: "database \<Rightarrow> string \<Rightarrow> int64 \<Rightarrow> log_row list" where
  "entry_rows db ledger sequence = filter (\<lambda>r. log_ledger r = ledger \<and> log_sequence r = sequence) (audit_log db)"

definition fetchEntry :: "pg \<Rightarrow> database \<Rightarrow> string \<Rightarrow> int64 \<Rightarrow> Entry result" where
  "fetchEntry pg db ledger sequence =
     (let wrap = (\<lambda>e. Errorf ''fetch entry seq=%d ledger=%q: %w'' [ArgI (sint sequence), ArgS ledger, ArgE e])
      in case query_row pg SelectEntry (entry_rows db ledger sequence) of
           Inl e \<Rightarrow> Inl (wrap e)
         | Inr r \<Rightarrow>
             (case scan_string (log_actor r) of
                Inl e \<Rightarrow> Inl (wrap e)
              | Inr actor \<Rightarrow> Inr
                  \<lparr>en_Sequence = log_sequence r, en_Ledger = ledger, en_EventType = log_event_type r,
                   en_Payload = log_payload r, en_EntryHash = log_entry_hash r,
                   en_PrevEntryHash = log_prev_entry_hash r, en_CreatedAt = format_rfc3339 (log_created_at r),
                   en_Actor = actor, en_Metadata = log_metadata r\<rparr>))"

record anchorRow =
  aw_rangeStart :: int64
  aw_rangeEnd :: int64
  aw_merkleRootHex :: string
  aw_record :: AnchorRecord

definition covering_rows :: "database \<Rightarrow> string \<Rightarrow> int64 \<Rightarrow> anchor_row list" where
  "covering_rows db ledger seq = sort_key (\<lambda>a. sint (anchor_id a))
     (filter (\<lambda>a. anchor_ledger a = ledger \<and> sint (range_start a) \<le> sint seq \<and> sint seq \<le> sint (range_end a))
       (audit_anchors db))"

definition scan_anchor :: "anchor_row \<Rightarrow> anchorRow result" where
  "scan_anchor a =
     (case scan_string (anchor_external_id a) of
        Inl e \<Rightarrow> Inl e
      | Inr extID \<Rightarrow> Inr
          \<lparr>aw_rangeStart = range_start a, aw_rangeEnd = range_end a, aw_merkleRootHex = anchor_merkle_root a,
           aw_record = \<lparr>rec_Provider = anchor_provider a, rec_ExternalId = extID,
             rec_Confirmation = anchor_confirmation a, rec_AnchoredAt = format_rfc3339 (anchor_anchored_at a)\<rparr>\<rparr>)"

definition fetchAnchorsForSequence :: "pg \<Rightarrow> database \<Rightarrow> string \<Rightarrow> int64 \<Rightarrow> anchorRow list result" where
  "fetchAnchorsForSequence pg db ledger seq =
     (case query_rows pg SelectCovering (covering_rows db ledger seq) of
        Inl e \<Rightarrow> Inl (Errorf ''query anchors for seq=%d: %w'' [ArgI (sint seq), ArgE e])
      | Inr (rows, rows_err) \<Rightarrow>
     (case scan_all pg SelectCovering scan_anchor rows of
        Inl e \<Rightarrow> Inl (Errorf ''scan anchor: %w'' [ArgE e])
      | Inr anchors \<Rightarrow> (case rows_err of Some e \<Rightarrow> Inl e | None \<Rightarrow> Inr anchors)))"

text \<open>The loop's variables \<open>hashes\<close>, \<open>idx\<close> and \<open>i\<close>.\<close>

record index_state =
  ix_hashes :: "string list"
  ix_idx :: int
  ix_i :: int

definition index_body :: "pg \<Rightarrow> int64 \<Rightarrow> nat \<Rightarrow> index_state \<Rightarrow> log_row \<Rightarrow> (index_state, go_error) flow" where
  "index_body pg targetSeq n st r =
     (case pg_scan_fault pg SelectHashes n of
        Some e \<Rightarrow> Return e
      | None \<Rightarrow> Next
          \<lparr>ix_hashes = ix_hashes st @ [log_entry_hash r],
           ix_idx = (if log_sequence r = targetSeq then ix_i st else ix_idx st),
           ix_i = ix_i st + 1\<rparr>)"

definition queryEntryHashesWithIndex ::
  "pg \<Rightarrow> database \<Rightarrow> string \<Rightarrow> int64 \<Rightarrow> int64 \<Rightarrow> int64 \<Rightarrow> (string list \<times> int) result" where
  "queryEntryHashesWithIndex pg db ledger rangeStart rangeEnd targetSeq =
     (case query_rows pg SelectHashes (anchored_rows db ledger rangeStart rangeEnd) of
        Inl e \<Rightarrow> Inl (Errorf ''query entry hashes [%d,%d]: %w'' [ArgI (sint rangeStart), ArgI (sint rangeEnd), ArgE e])
      | Inr (rows, rows_err) \<Rightarrow>
     (case for_rows (index_body pg targetSeq) 0 \<lparr>ix_hashes = [], ix_idx = - 1, ix_i = 0\<rparr> rows of
        Return e \<Rightarrow> Inl (Errorf ''scan entry hash: %w'' [ArgE e])
      | Next st \<Rightarrow> (case rows_err of Some e \<Rightarrow> Inl e | None \<Rightarrow> Inr (ix_hashes st, ix_idx st))))"

subsection \<open>The handler\<close>

text \<open>The path and root for the first covering anchor, as both steps compute them; \<open>step\<close> is the
  prefix of the error messages.\<close>

definition first_anchor_path ::
  "string \<Rightarrow> pg \<Rightarrow> database \<Rightarrow> string \<Rightarrow> int64 \<Rightarrow> anchorRow list \<Rightarrow> (string list \<times> string) result" where
  "first_anchor_path step pg db ledger seq anchors =
     (case anchors of
        [] \<Rightarrow> Inr ([], [])
      | a # as \<Rightarrow>
     (case queryEntryHashesWithIndex pg db ledger (aw_rangeStart a) (aw_rangeEnd a) seq of
        Inl e \<Rightarrow> Inl (Errorf (step @ '': %w'') [ArgE e])
      | Inr (hashes, idx) \<Rightarrow>
          if 0 \<le> idx
          then case InclusionProof hashes idx of
                 Inl e \<Rightarrow> Inl (Errorf (step @ '': InclusionProof: %w'') [ArgE e])
               | Inr path \<Rightarrow> Inr (path, aw_merkleRootHex a)
          else Inr ([], aw_merkleRootHex a)))"

definition ProofHandler :: "pg \<Rightarrow> world \<Rightarrow> ProofRequest \<Rightarrow> ProofResponse result" where
  "ProofHandler pg w input =
     (if fq_Ledger input = [] then Inl (Errorf ''step.audit.proof: ledger is required'' [])
      else case GetDB (w_registry w) (fq_Ledger input) of
             None \<Rightarrow>
               Inl (Errorf ''step.audit.proof: ledger %q not registered; ensure the audit.ledger module is initialised''
                      [ArgS (fq_Ledger input)])
           | Some d \<Rightarrow>
     (case fetchEntry pg (pool_db w d) (fq_Ledger input) (fq_Sequence input) of
        Inl e \<Rightarrow> Inl (Errorf ''step.audit.proof: %w'' [ArgE e])
      | Inr entry \<Rightarrow>
     (case fetchAnchorsForSequence pg (pool_db w d) (fq_Ledger input) (fq_Sequence input) of
        Inl e \<Rightarrow> Inl (Errorf ''step.audit.proof: %w'' [ArgE e])
      | Inr anchors \<Rightarrow>
     (case first_anchor_path ''step.audit.proof'' pg (pool_db w d) (fq_Ledger input) (fq_Sequence input) anchors of
        Inl e \<Rightarrow> Inl e
      | Inr (merklePath, merkleRoot) \<Rightarrow> Inr
          \<lparr>fr_Entry = entry, fr_MerklePath = merklePath, fr_MerkleRoot = merkleRoot,
           fr_Anchors = map aw_record anchors\<rparr>))))"

subsection \<open>The queries on a sound ledger\<close>

lemma index_loop:
  assumes "for_rows (index_body pg t) n st rows = Next st'"
  shows "ix_hashes st' = ix_hashes st @ map log_entry_hash rows
    \<and> (t \<notin> log_sequence ` set rows \<longrightarrow> ix_idx st' = ix_idx st)
    \<and> (t \<in> log_sequence ` set rows \<longrightarrow> (\<exists>k < length rows. log_sequence (rows ! k) = t \<and> ix_idx st' = ix_i st + int k))"
  using assms
proof (induction rows arbitrary: n st)
  case (Cons r rs)
  obtain st1 where st1: "index_body pg t n st r = Next st1" "for_rows (index_body pg t) (Suc n) st1 rs = Next st'"
    using Cons.prems by (auto split: flow.splits)
  then have s1: "ix_hashes st1 = ix_hashes st @ [log_entry_hash r]" "ix_i st1 = ix_i st + 1"
    "ix_idx st1 = (if log_sequence r = t then ix_i st else ix_idx st)"
    by (auto simp: index_body_def split: option.splits)
  note ih = Cons.IH [OF st1(2)]
  show ?case
  proof (cases "t \<in> log_sequence ` set rs")
    case True
    then obtain k where "k < length rs" "log_sequence (rs ! k) = t" "ix_idx st' = ix_i st1 + int k" using ih by blast
    then have "Suc k < length (r # rs) \<and> log_sequence ((r # rs) ! Suc k) = t \<and> ix_idx st' = ix_i st + int (Suc k)"
      using s1 by simp
    with True ih s1 show ?thesis by auto
  next
    case False
    then have "ix_idx st' = (if log_sequence r = t then ix_i st else ix_idx st)" using ih s1 by simp
    with False ih s1 show ?thesis by (cases "log_sequence r = t") (auto intro!: exI [of _ 0])
  qed
qed simp

lemma queryEntryHashesWithIndex_InrD:
  assumes "queryEntryHashesWithIndex pg db l s e t = Inr (hashes, idx)"
  shows "hashes = map log_entry_hash (anchored_rows db l s e)"
    and "t \<in> log_sequence ` set (anchored_rows db l s e) \<Longrightarrow>
      \<exists>k < length (anchored_rows db l s e). log_sequence (anchored_rows db l s e ! k) = t \<and> idx = int k"
proof -
  obtain rows st where rows: "query_rows pg SelectHashes (anchored_rows db l s e) = Inr (rows, None)"
    and st: "for_rows (index_body pg t) 0 \<lparr>ix_hashes = [], ix_idx = - 1, ix_i = 0\<rparr> rows = Next st"
    and res: "hashes = ix_hashes st" "idx = ix_idx st"
    using assms by (auto simp: queryEntryHashesWithIndex_def split: sum.splits option.splits flow.splits)
  have "rows = anchored_rows db l s e" using query_rows_InrD [OF rows] by blast
  with index_loop [OF st] res show "hashes = map log_entry_hash (anchored_rows db l s e)"
    and "t \<in> log_sequence ` set (anchored_rows db l s e) \<Longrightarrow>
      \<exists>k < length (anchored_rows db l s e). log_sequence (anchored_rows db l s e ! k) = t \<and> idx = int k"
    by auto
qed

lemma fetchEntry_InrD:
  assumes "fetchEntry pg db l s = Inr entry"
  obtains r where "r \<in> set (audit_log db)" "log_ledger r = l" "log_sequence r = s" "en_Sequence entry = s"
    "en_EntryHash entry = log_entry_hash r" "en_EventType entry = log_event_type r"
    "en_PrevEntryHash entry = log_prev_entry_hash r" "en_Payload entry = log_payload r" "en_Ledger entry = l"
proof -
  obtain r actor where r: "query_row pg SelectEntry (entry_rows db l s) = Inr r" "scan_string (log_actor r) = Inr actor"
    and e: "entry = \<lparr>en_Sequence = log_sequence r, en_Ledger = l, en_EventType = log_event_type r,
                   en_Payload = log_payload r, en_EntryHash = log_entry_hash r,
                   en_PrevEntryHash = log_prev_entry_hash r, en_CreatedAt = format_rfc3339 (log_created_at r),
                   en_Actor = actor, en_Metadata = log_metadata r\<rparr>"
    using assms by (auto simp: fetchEntry_def Let_def split: sum.splits)
  have "r \<in> set (entry_rows db l s)" using query_row_InrD [OF r(1)] by auto
  with that [of r] e show thesis by (simp add: entry_rows_def)
qed

text \<open>In a sound ledger a sequence number names one row.\<close>

lemma chain_ok_row_unique:
  assumes "chain_ok db l" and "r \<in> set (ledger_rows db l)" and "t \<in> set (ledger_rows db l)" and "log_sequence r = log_sequence t"
  shows "r = t"
proof -
  have "chain_from l 0 [] (ledger_rows db l)" using assms(1) by (simp add: chain_ok_def)
  moreover obtain i j where ij: "i < length (ledger_rows db l)" "r = ledger_rows db l ! i"
    "j < length (ledger_rows db l)" "t = ledger_rows db l ! j"
    using assms(2,3) by (metis in_set_conv_nth)
  ultimately have "seq_of r = 1 + int i" "seq_of t = 1 + int j" using chain_from_nth by fastforce+
  with assms(4) ij show ?thesis by (simp add: seq_of_def)
qed

lemma in_anchored_rows:
  "r \<in> set (anchored_rows db l s e) \<longleftrightarrow> r \<in> set (audit_log db) \<and> log_ledger r = l \<and> sint s \<le> seq_of r \<and> seq_of r \<le> sint e"
  by (auto simp: anchored_rows_def select_log_def ledger_rows_def)

text \<open>The root over the rows an anchor covers now.\<close>

definition current_root :: "database \<Rightarrow> string \<Rightarrow> int64 \<Rightarrow> int64 \<Rightarrow> string result" where
  "current_root db l s e = MerkleRoot (map log_entry_hash (anchored_rows db l s e))"

lemma current_root_eq:
  "anchored_rows db l s e \<noteq> [] \<Longrightarrow>
   current_root db l s e = Inr (hex_encode (level_root (map leafNode (map log_entry_hash (anchored_rows db l s e)))))"
  unfolding current_root_def by (rule MerkleRoot_eq) simp

lemma first_anchor_path_verifies:
  assumes "chain_ok db l" and "r \<in> set (audit_log db)" and "log_ledger r = l" and "log_sequence r = t"
    and "sint (aw_rangeStart a) \<le> sint t" and "sint t \<le> sint (aw_rangeEnd a)"
    and "first_anchor_path step pg db l t (a # as) = Inr (path, root)"
  shows "root = aw_merkleRootHex a \<and> (VerifyInclusion (log_entry_hash r) path root \<longleftrightarrow>
    (\<exists>now. current_root db l (aw_rangeStart a) (aw_rangeEnd a) = Inr now \<and> hex_decode root = hex_decode now))"
proof -
  let ?rows = "anchored_rows db l (aw_rangeStart a) (aw_rangeEnd a)"
  obtain hashes idx where q: "queryEntryHashesWithIndex pg db l (aw_rangeStart a) (aw_rangeEnd a) t = Inr (hashes, idx)"
    using assms(7) by (auto simp: first_anchor_path_def split: sum.splits)
  have "r \<in> set ?rows" using assms(2-6) by (simp add: in_anchored_rows seq_of_def)
  then have "t \<in> log_sequence ` set ?rows" using assms(4) by force
  then obtain k where k: "k < length ?rows" "log_sequence (?rows ! k) = t" "idx = int k"
    using queryEntryHashesWithIndex_InrD(2) [OF q] by blast
  have hashes: "hashes = map log_entry_hash ?rows" by (rule queryEntryHashesWithIndex_InrD(1) [OF q])
  have "?rows ! k \<in> set ?rows" using k(1) by simp
  then have "?rows ! k = r"
    using chain_ok_row_unique [OF assms(1), of "?rows ! k" r] k(2) assms(2-4)
    by (auto simp: in_anchored_rows ledger_rows_def)
  then have leaf: "hashes ! nat idx = log_entry_hash r" using k hashes by simp
  have path: "InclusionProof hashes idx = Inr path" and root: "root = aw_merkleRootHex a"
    using assms(7) q k(3) by (auto simp: first_anchor_path_def split: sum.splits)
  have "?rows \<noteq> []" using k(1) by auto
  then show ?thesis
    using VerifyInclusion_of_proof [OF path, of root] leaf root hashes by (simp add: current_root_eq)
qed

lemma scan_anchor_fields:
  "scan_anchor a = Inr x \<Longrightarrow> aw_rangeStart x = range_start a \<and> aw_rangeEnd x = range_end a
     \<and> aw_merkleRootHex x = anchor_merkle_root a \<and> rec_Provider (aw_record x) = anchor_provider a
     \<and> rec_Confirmation (aw_record x) = anchor_confirmation a"
  by (auto simp: scan_anchor_def split: sum.splits)

lemma fetchAnchors_InrD:
  assumes "fetchAnchorsForSequence pg db l t = Inr anchors"
  shows "map scan_anchor (covering_rows db l t) = map Inr anchors"
proof -
  obtain rows where q: "query_rows pg SelectCovering (covering_rows db l t) = Inr (rows, None)"
    and sc: "scan_all pg SelectCovering scan_anchor rows = Inr anchors"
    using assms by (auto simp: fetchAnchorsForSequence_def split: sum.splits option.splits)
  have "rows = covering_rows db l t" using query_rows_InrD [OF q] by blast
  with scan_all_InrD [OF sc] show ?thesis by simp
qed

definition covers :: "string \<Rightarrow> int64 \<Rightarrow> anchor_row \<Rightarrow> bool" where
  "covers l t a \<longleftrightarrow> anchor_ledger a = l \<and> sint (range_start a) \<le> sint t \<and> sint t \<le> sint (range_end a)"

lemma covering_row_bounds:
  "a \<in> set (covering_rows db l t) \<longleftrightarrow> a \<in> set (audit_anchors db) \<and> anchor_ledger a = l
     \<and> sint (range_start a) \<le> sint t \<and> sint t \<le> sint (range_end a)"
  by (auto simp: covering_rows_def)

text \<open>What the fetched anchors and the path of the first one amount to, for both steps that use them.\<close>

lemma first_anchor_path_spec:
  assumes "chain_ok db l" and "r \<in> set (audit_log db)" and "log_ledger r = l" and "log_sequence r = t"
    and "fetchAnchorsForSequence pg db l t = Inr anchors"
    and "first_anchor_path step pg db l t anchors = Inr (path, root)"
  shows "length anchors = length (covering_rows db l t)"
    and "case covering_rows db l t of [] \<Rightarrow> path = [] \<and> root = []
      | a # as \<Rightarrow> root = anchor_merkle_root a \<and> (VerifyInclusion (log_entry_hash r) path root \<longleftrightarrow>
          (\<exists>now. current_root db l (range_start a) (range_end a) = Inr now \<and> hex_decode root = hex_decode now))"
proof -
  have scanned: "map scan_anchor (covering_rows db l t) = map Inr anchors" by (rule fetchAnchors_InrD [OF assms(5)])
  then show len: "length anchors = length (covering_rows db l t)" using map_eq_imp_length_eq by metis
  show "case covering_rows db l t of [] \<Rightarrow> path = [] \<and> root = []
      | a # as \<Rightarrow> root = anchor_merkle_root a \<and> (VerifyInclusion (log_entry_hash r) path root \<longleftrightarrow>
          (\<exists>now. current_root db l (range_start a) (range_end a) = Inr now \<and> hex_decode root = hex_decode now))"
  proof (cases "covering_rows db l t")
    case Nil
    with len assms(6) show ?thesis by (simp add: first_anchor_path_def)
  next
    case (Cons a as)
    with scanned obtain x xs where x: "anchors = x # xs" "scan_anchor a = Inr x" by (cases anchors) auto
    have "a \<in> set (covering_rows db l t)" using Cons by simp
    then have bounds: "sint (aw_rangeStart x) \<le> sint t" "sint t \<le> sint (aw_rangeEnd x)"
      using scan_anchor_fields [OF x(2)] by (simp_all add: covering_row_bounds)
    from first_anchor_path_verifies [OF assms(1-4) bounds assms(6) [unfolded x(1)]] scan_anchor_fields [OF x(2)]
    show ?thesis using Cons by auto
  qed
qed

lemma ProofHandler_InrD:
  assumes "ProofHandler pg w q = Inr resp"
  obtains d anchors where "GetDB (w_registry w) (fq_Ledger q) = Some d"
    "fetchEntry pg (pool_db w d) (fq_Ledger q) (fq_Sequence q) = Inr (fr_Entry resp)"
    "fetchAnchorsForSequence pg (pool_db w d) (fq_Ledger q) (fq_Sequence q) = Inr anchors"
    "first_anchor_path ''step.audit.proof'' pg (pool_db w d) (fq_Ledger q) (fq_Sequence q) anchors
       = Inr (fr_MerklePath resp, fr_MerkleRoot resp)"
    "fr_Anchors resp = map aw_record anchors"
  using assms by (auto simp: ProofHandler_def split: if_splits option.splits sum.splits)

subsection \<open>The handler answers\<close>

text \<open>What the steps need of nullable columns: every row they append or record has it.\<close>

definition columns_ok :: "database \<Rightarrow> string \<Rightarrow> bool" where
  "columns_ok db l \<longleftrightarrow> (\<forall>r \<in> set (ledger_rows db l). log_actor r \<noteq> None)
     \<and> (\<forall>a \<in> set (audit_anchors db). anchor_ledger a = l \<longrightarrow> anchor_external_id a \<noteq> None)"

lemma fetchEntry_healthy:
  assumes "healthy pg" and "columns_ok db l" and "entry_rows db l t \<noteq> []"
  shows "is_ok (fetchEntry pg db l t)"
proof -
  obtain r rs where r: "entry_rows db l t = r # rs" using assms(3) by (cases "entry_rows db l t") auto
  then have "r \<in> set (entry_rows db l t)" by simp
  then have "r \<in> set (ledger_rows db l)" by (simp add: entry_rows_def ledger_rows_def)
  then obtain actor where "log_actor r = Some actor" using assms(2) by (auto simp: columns_ok_def)
  then show ?thesis by (simp add: fetchEntry_def r query_row_healthy [OF assms(1)] scan_string_def Let_def)
qed

lemma fetchAnchors_healthy:
  assumes "healthy pg" and "columns_ok db l"
  shows "is_ok (fetchAnchorsForSequence pg db l t)"
proof -
  have "\<exists>x. scan_anchor a = Inr x" if "a \<in> set (covering_rows db l t)" for a
    using that assms(2) by (auto simp: covering_row_bounds columns_ok_def scan_anchor_def scan_string_def)
  then obtain f where "\<forall>a \<in> set (covering_rows db l t). scan_anchor a = Inr (f a)" by metis
  from scan_all_healthy [OF assms(1) this] show ?thesis
    by (simp add: fetchAnchorsForSequence_def query_rows_healthy [OF assms(1)])
qed

lemma index_loop_healthy: "healthy pg \<Longrightarrow> \<exists>st'. for_rows (index_body pg t) n st rows = Next st'"
  by (induction rows arbitrary: n st) (simp_all add: index_body_def healthyD)

lemma first_anchor_path_healthy: "healthy pg \<Longrightarrow> is_ok (first_anchor_path step pg db l t anchors)"
proof (cases anchors)
  case (Cons a as)
  assume h: "healthy pg"
  have "is_ok (queryEntryHashesWithIndex pg db l (aw_rangeStart a) (aw_rangeEnd a) t)"
    using index_loop_healthy [OF h] by (auto simp: queryEntryHashesWithIndex_def query_rows_healthy [OF h] is_ok_iff
        split: flow.split) (metis flow.distinct(1))
  then obtain hashes idx where q: "queryEntryHashesWithIndex pg db l (aw_rangeStart a) (aw_rangeEnd a) t = Inr (hashes, idx)"
    by (auto simp: is_ok_iff)
  have "idx < int (length hashes)"
  proof (cases "t \<in> log_sequence ` set (anchored_rows db l (aw_rangeStart a) (aw_rangeEnd a))")
    case True
    then show ?thesis using queryEntryHashesWithIndex_InrD [OF q] by auto
  next
    case False
    obtain st where "for_rows (index_body pg t) 0 \<lparr>ix_hashes = [], ix_idx = - 1, ix_i = 0\<rparr>
        (anchored_rows db l (aw_rangeStart a) (aw_rangeEnd a)) = Next st"
      using index_loop_healthy [OF h] by blast
    with index_loop [OF this] False q have "idx = - 1"
      by (simp add: queryEntryHashesWithIndex_def query_rows_healthy [OF h])
    then show ?thesis by simp
  qed
  then have "0 \<le> idx \<Longrightarrow> is_ok (InclusionProof hashes idx)" by (simp add: InclusionProof_eq)
  then show ?thesis using q Cons by (auto simp: first_anchor_path_def is_ok_iff)
qed (simp add: first_anchor_path_def)

lemma ProofHandler_healthy:
  assumes "healthy pg" and "fq_Ledger q \<noteq> []" and "GetDB (w_registry w) (fq_Ledger q) = Some d"
    and "columns_ok (pool_db w d) (fq_Ledger q)"
    and "entry_rows (pool_db w d) (fq_Ledger q) (fq_Sequence q) \<noteq> []"
  shows "is_ok (ProofHandler pg w q)"
proof -
  obtain entry anchors where e: "fetchEntry pg (pool_db w d) (fq_Ledger q) (fq_Sequence q) = Inr entry"
    and a: "fetchAnchorsForSequence pg (pool_db w d) (fq_Ledger q) (fq_Sequence q) = Inr anchors"
    using fetchEntry_healthy [OF assms(1,4,5)] fetchAnchors_healthy [OF assms(1,4), of "fq_Sequence q"]
    unfolding is_ok_iff by blast
  show ?thesis
    using first_anchor_path_healthy [OF assms(1)]
    by (auto simp: ProofHandler_def assms(2,3) e a is_ok_iff split: sum.split prod.split) (metis Inr_not_Inl)
qed

lemma ProofHandler_path:
  assumes "ProofHandler pg w q = Inr resp" and "GetDB (w_registry w) (fq_Ledger q) = Some d"
    and "chain_ok (pool_db w d) (fq_Ledger q)"
  shows "length (fr_Anchors resp) = length (covering_rows (pool_db w d) (fq_Ledger q) (fq_Sequence q))
    \<and> (case covering_rows (pool_db w d) (fq_Ledger q) (fq_Sequence q) of
         [] \<Rightarrow> fr_MerklePath resp = [] \<and> fr_MerkleRoot resp = []
       | a # as \<Rightarrow> fr_MerkleRoot resp = anchor_merkle_root a
           \<and> (VerifyInclusion (en_EntryHash (fr_Entry resp)) (fr_MerklePath resp) (fr_MerkleRoot resp) \<longleftrightarrow>
               (\<exists>now. current_root (pool_db w d) (fq_Ledger q) (range_start a) (range_end a) = Inr now
                  \<and> hex_decode (fr_MerkleRoot resp) = hex_decode now)))"
proof -
  let ?db = "pool_db w d" and ?l = "fq_Ledger q" and ?t = "fq_Sequence q"
  obtain anchors where entry: "fetchEntry pg ?db ?l ?t = Inr (fr_Entry resp)"
    and fetched: "fetchAnchorsForSequence pg ?db ?l ?t = Inr anchors"
    and path: "first_anchor_path ''step.audit.proof'' pg ?db ?l ?t anchors = Inr (fr_MerklePath resp, fr_MerkleRoot resp)"
    and recs: "fr_Anchors resp = map aw_record anchors"
    using assms(1,2) by (auto elim: ProofHandler_InrD)
  obtain r where r: "r \<in> set (audit_log ?db)" "log_ledger r = ?l" "log_sequence r = ?t"
    "en_EntryHash (fr_Entry resp) = log_entry_hash r"
    using fetchEntry_InrD [OF entry] by metis
  show ?thesis
    using first_anchor_path_spec [OF assms(3) r(1-3) fetched path] recs r(4)
    by (cases "covering_rows ?db ?l ?t") auto
qed

text \<open>On a sound ledger with sound anchors, a server that answers, and an existing entry, the step
  answers with that entry, one record per covering anchor, and, if there is one, a path that
  \<open>VerifyInclusion\<close> accepts for the entry's hash against the returned root.\<close>

lemma ProofHandler_complete:
  assumes "healthy pg" and "fq_Ledger q \<noteq> []" and "GetDB (w_registry w) (fq_Ledger q) = Some d"
    and "chain_ok (pool_db w d) (fq_Ledger q)" and "anchors_ok (pool_db w d) (fq_Ledger q)"
    and "columns_ok (pool_db w d) (fq_Ledger q)"
    and "r \<in> set (ledger_rows (pool_db w d) (fq_Ledger q))" and "log_sequence r = fq_Sequence q"
  shows "\<exists>resp. ProofHandler pg w q = Inr resp \<and> en_EntryHash (fr_Entry resp) = log_entry_hash r
    \<and> length (fr_Anchors resp) = length (covering_rows (pool_db w d) (fq_Ledger q) (fq_Sequence q))
    \<and> (fr_Anchors resp \<noteq> [] \<longrightarrow>
        VerifyInclusion (en_EntryHash (fr_Entry resp)) (fr_MerklePath resp) (fr_MerkleRoot resp))"
proof -
  let ?db = "pool_db w d" and ?l = "fq_Ledger q" and ?t = "fq_Sequence q"
  have r: "r \<in> set (audit_log ?db)" "log_ledger r = ?l" using assms(7) by (simp_all add: ledger_rows_def)
  then have "r \<in> set (entry_rows ?db ?l ?t)" using assms(8) by (simp add: entry_rows_def)
  then have "entry_rows ?db ?l ?t \<noteq> []" by auto
  then have "is_ok (ProofHandler pg w q)" by (rule ProofHandler_healthy [OF assms(1-3,6)])
  then obtain resp where resp: "ProofHandler pg w q = Inr resp" by (auto simp: is_ok_iff)
  have "fetchEntry pg ?db ?l ?t = Inr (fr_Entry resp)" using resp assms(3) by (auto elim: ProofHandler_InrD)
  then obtain r' where "r' \<in> set (ledger_rows ?db ?l)" "log_sequence r' = ?t"
    "en_EntryHash (fr_Entry resp) = log_entry_hash r'"
    by (rule fetchEntry_InrD) (simp add: ledger_rows_def)
  then have entry: "en_EntryHash (fr_Entry resp) = log_entry_hash r"
    using chain_ok_row_unique [OF assms(4), of r' r] assms(7,8) by simp
  have "VerifyInclusion (en_EntryHash (fr_Entry resp)) (fr_MerklePath resp) (fr_MerkleRoot resp)"
    if "covering_rows ?db ?l ?t = a # as" for a as
  proof -
    have "a \<in> set (covering_rows ?db ?l ?t)" using that by simp
    then have "current_root ?db ?l (range_start a) (range_end a) = Inr (anchor_merkle_root a)"
      using assms(5) by (auto simp: covering_row_bounds anchors_ok_def anchor_ok_def current_root_def)
    with ProofHandler_path [OF resp assms(3,4)] that show ?thesis by auto
  qed
  then show ?thesis
    using resp entry ProofHandler_path [OF resp assms(3,4)]
    by (cases "covering_rows ?db ?l ?t") auto
qed

subsection \<open>Properties\<close>

definition proof_world :: world where
  "proof_world = put_db anchor_world (Pool 0 ''d'') (sample_db\<lparr>audit_anchors := [sample_anchor]\<rparr>)"

lemma proof_world_simps [simp]:
  "GetDB (w_registry proof_world) ''l'' = Some (Pool 0 ''d'')"
  "pool_db proof_world (Pool 0 ''d'') = sample_db\<lparr>audit_anchors := [sample_anchor]\<rparr>"
  by (simp_all add: proof_world_def)

definition sample_proof :: ProofRequest where
  "sample_proof = \<lparr>fq_Ledger = ''l'', fq_Sequence = 1\<rparr>"

lemma sample_proof_simps [simp]: "fq_Ledger sample_proof = ''l''" "fq_Sequence sample_proof = 1"
  by (simp_all add: sample_proof_def)

lemma sample_covering [simp]:
  "covering_rows (sample_db\<lparr>audit_anchors := [sample_anchor]\<rparr>) ''l'' 1 = [sample_anchor]"
  by (simp add: covering_rows_def sample_anchor_def)

lemma sample_columns: "columns_ok (sample_db\<lparr>audit_anchors := [sample_anchor]\<rparr>) ''l''"
  by (simp add: columns_ok_def sample_anchor_def) (simp add: sample_row_def)

lemma sample_anchors_ok: "anchors_ok (sample_db\<lparr>audit_anchors := [sample_anchor]\<rparr>) ''l''"
  by (simp add: anchors_ok_def anchor_ok_def sample_anchor_def MerkleRoot_eq)

text \<open>C26. On a sound ledger, the path that is returned verifies for the returned entry against the returned root exactly
  when that root still is the Merkle root over the rows its anchor's range covers at the time of the request. The
  anchor is the first covering one, the one with the least id, and it is the first of the records that are returned.
  Without a covering anchor path and root are empty.\<close>

theorem ProofHandler_path_verifies_iff:
  assumes "ProofHandler pg w q = Inr resp" and "GetDB (w_registry w) (fq_Ledger q) = Some d"
    and "chain_ok (pool_db w d) (fq_Ledger q)"
  shows "(fr_Anchors resp = [] \<longrightarrow> fr_MerklePath resp = [] \<and> fr_MerkleRoot resp = [])
    \<and> (fr_Anchors resp \<noteq> [] \<longrightarrow> (\<exists>a \<in> set (audit_anchors (pool_db w d)).
        covers (fq_Ledger q) (fq_Sequence q) a
      \<and> (\<forall>b \<in> set (audit_anchors (pool_db w d)). covers (fq_Ledger q) (fq_Sequence q) b \<longrightarrow> sint (anchor_id a) \<le> sint (anchor_id b))
      \<and> rec_Provider (hd (fr_Anchors resp)) = anchor_provider a \<and> Some (rec_ExternalId (hd (fr_Anchors resp))) = anchor_external_id a
      \<and> fr_MerkleRoot resp = anchor_merkle_root a
      \<and> (VerifyInclusion (en_EntryHash (fr_Entry resp)) (fr_MerklePath resp) (fr_MerkleRoot resp) \<longleftrightarrow>
          (\<exists>now. current_root (pool_db w d) (fq_Ledger q) (range_start a) (range_end a) = Inr now
             \<and> hex_decode (fr_MerkleRoot resp) = hex_decode now))))"
proof (cases "covering_rows (pool_db w d) (fq_Ledger q) (fq_Sequence q)")
  case Nil
  then show ?thesis using ProofHandler_path [OF assms] by simp
next
  case (Cons a as)
  let ?rows = "covering_rows (pool_db w d) (fq_Ledger q) (fq_Sequence q)"
  have "a \<in> set ?rows" using Cons by simp
  then have a: "a \<in> set (audit_anchors (pool_db w d))" "covers (fq_Ledger q) (fq_Sequence q) a"
    by (simp_all only: covering_row_bounds covers_def)
  have "sorted (map (\<lambda>a. sint (anchor_id a)) ?rows)" by (simp add: covering_rows_def)
  then have least: "sint (anchor_id a) \<le> sint (anchor_id b)"
    if "b \<in> set (audit_anchors (pool_db w d))" "covers (fq_Ledger q) (fq_Sequence q) b" for b
    using that Cons covering_row_bounds [of b "pool_db w d" "fq_Ledger q" "fq_Sequence q"] by (auto simp: covers_def)
  obtain anchors where anchors: "fetchAnchorsForSequence pg (pool_db w d) (fq_Ledger q) (fq_Sequence q) = Inr anchors"
    "fr_Anchors resp = map aw_record anchors" using assms(1,2) by (auto elim: ProofHandler_InrD)
  have "map scan_anchor ?rows = map Inr anchors" by (rule fetchAnchors_InrD [OF anchors(1)])
  with Cons obtain x xs where x: "anchors = x # xs" "scan_anchor a = Inr x" by (cases anchors) auto
  then have "rec_Provider (hd (fr_Anchors resp)) = anchor_provider a" "Some (rec_ExternalId (hd (fr_Anchors resp))) = anchor_external_id a"
    using anchors(2) by (auto simp: scan_anchor_def scan_string_def split: sum.splits option.splits)
  then show ?thesis
    using ProofHandler_path [OF assms] Cons a least by (auto intro!: bexI [of _ a])
qed

text \<open>Two anchors cover the entry, and the later one is stored first.\<close>

definition twice_anchored :: database where
  "twice_anchored = sample_db\<lparr>audit_anchors := [sample_anchor\<lparr>anchor_id := 7, anchor_provider := ''sigstore'',
     anchor_merkle_root := ''00''\<rparr>, sample_anchor]\<rparr>"

lemma twice_anchored_columns: "columns_ok twice_anchored ''l''"
  by (simp add: columns_ok_def twice_anchored_def sample_anchor_def) (simp add: sample_row_def)

theorem ProofHandler_path_verifies_iff_witness:
  "\<exists>resp. ProofHandler steady_pg (sample_world twice_anchored) sample_proof = Inr resp
     \<and> length (fr_Anchors resp) = 2 \<and> fr_MerkleRoot resp = anchor_merkle_root sample_anchor
     \<and> VerifyInclusion (en_EntryHash (fr_Entry resp)) (fr_MerklePath resp) (fr_MerkleRoot resp)"
proof -
  let ?w = "sample_world twice_anchored"
  have chain: "chain_ok twice_anchored ''l''" by (simp add: twice_anchored_def)
  have rows: "entry_rows twice_anchored ''l'' 1 \<noteq> []" by (simp add: entry_rows_def twice_anchored_def)
  have "is_ok (ProofHandler steady_pg ?w sample_proof)"
    using ProofHandler_healthy [of steady_pg sample_proof ?w "Pool 0 ''d''"] twice_anchored_columns rows by simp
  then obtain resp where resp: "ProofHandler steady_pg ?w sample_proof = Inr resp" by (auto simp: is_ok_iff)
  have covering: "covering_rows twice_anchored ''l'' 1 = [sample_anchor, hd (audit_anchors twice_anchored)]"
    by (simp add: covering_rows_def twice_anchored_def sample_anchor_def)
  have "length (fr_Anchors resp) = 2"
    using ProofHandler_path [OF resp, of "Pool 0 ''d''"] chain covering by simp
  moreover from this ProofHandler_path_verifies_iff [OF resp, of "Pool 0 ''d''"] chain obtain a where
    a: "a \<in> set (audit_anchors twice_anchored)"
      "\<forall>b \<in> set (audit_anchors twice_anchored). covers ''l'' 1 b \<longrightarrow> sint (anchor_id a) \<le> sint (anchor_id b)"
      "fr_MerkleRoot resp = anchor_merkle_root a"
      "VerifyInclusion (en_EntryHash (fr_Entry resp)) (fr_MerklePath resp) (fr_MerkleRoot resp) \<longleftrightarrow>
        (\<exists>now. current_root twice_anchored ''l'' (range_start a) (range_end a) = Inr now \<and> hex_decode (fr_MerkleRoot resp) = hex_decode now)"
    by fastforce
  moreover have "a = sample_anchor"
    using a(1,2) by (auto simp: twice_anchored_def covers_def sample_anchor_def)
  moreover have "current_root twice_anchored ''l'' 1 1 = Inr (anchor_merkle_root sample_anchor)"
    by (simp add: current_root_def twice_anchored_def MerkleRoot_eq) (simp add: sample_anchor_def)
  ultimately show ?thesis using resp by (auto simp: sample_anchor_def)
qed

end
