(* ===== verification/System_Data.thy ===== *)
theory System_Data
  imports System Step_Verify Step_Proof
begin

section \<open>What the plugin does to its databases\<close>

text \<open>
  The databases under the steps of the plugin. \<open>db_change\<close> lists the four ways in which a request may change
  a database, and \<open>reachable_invariant\<close> reduces an invariant of all reachable states to those four; the
  invariants are sound chains, unique anchors of a known level, values that fit the columns they are
  stored in (\<open>well_typed\<close>), and true anchors where callers do not anchor ahead of the log.
\<close>

subsection \<open>The changes\<close>

inductive db_change :: "world \<Rightarrow> string \<Rightarrow> request \<Rightarrow> database \<Rightarrow> database \<Rightarrow> bool" for w dsn q where
  unchanged: "db_change w dsn q db db"
| appended: "run_call db c = (db', r) \<Longrightarrow> db_change w dsn q db db'"
| anchored: "q = AnchorReq n \<Longrightarrow> GetDB (w_registry w) (nq_Ledger n) = Some d \<Longrightarrow> pool_dsn d = dsn \<Longrightarrow>
     resolve_end pg db n = Inr e \<Longrightarrow> anchor_root pg db (nq_Ledger n) (nq_StartSequence n) e = Inr root \<Longrightarrow>
     anchor_loop pg (w_registry w) (nq_Ledger n) (nq_StartSequence n) e root 0 db [] names = (db', r) \<Longrightarrow>
     db_change w dsn q db db'"
| polled: "row \<in> set (audit_anchors db) \<Longrightarrow> GetAnchorProvider (w_registry w) k = Some p \<Longrightarrow> pVerify p 0 a = Inr v \<Longrightarrow>
     Confirmation a = anchor_confirmation row \<Longrightarrow> update_confirmation pg db (VConfirmation v) i = Inr db' \<Longrightarrow>
     db_change w dsn q db db'"

lemma append_call_of:
  "Append pg db l e p m a = run_call db \<lparr>call_pg = pg, call_ledger = l, call_event = e, call_payload = p, call_metadata = m, call_actor = a\<rparr>"
  by (simp add: run_call_def)

lemma put_db_at: "w_dbs (put_db w d db') dsn = (if dsn = pool_dsn d then db' else w_dbs w dsn)"
  by (simp add: put_db_def)

lemma Append_change: "db_change w dsn q (w_dbs w dsn) (w_dbs (fst (AppendHandler pg w r)) dsn)"
proof (cases "GetLedger (w_registry w) (aq_Ledger r)")
  case None
  then show ?thesis by (simp add: AppendHandler_def db_change.unchanged)
next
  case (Some a)
  obtain db' res where run: "Append pg (pool_db w (appender_db a)) (aq_Ledger r) (aq_EventType r)
      (aq_Payload r) (aq_Metadata r) (aq_Actor r) = (db', res)" by (meson surj_pair)
  have "fst (AppendHandler pg w r) = w \<or> fst (AppendHandler pg w r) = put_db w (appender_db a) db'"
    using Some run by (cases res) (auto simp: AppendHandler_def)
  then show ?thesis
    using db_change.appended [OF run [unfolded append_call_of], of w "pool_dsn (appender_db a)" q]
    by (cases "dsn = pool_dsn (appender_db a)") (auto simp: put_db_at pool_db_def db_change.unchanged)
qed

lemma Anchor_change: "db_change w dsn (AnchorReq r) (w_dbs w dsn) (w_dbs (fst (AnchorHandler pg order w r)) dsn)"
proof -
  obtain w' res where run: "AnchorHandler pg order w r = (w', res)" by (meson surj_pair)
  then show ?thesis
  proof (cases rule: AnchorHandler_cases)
    case (ran d e root db' out)
    with db_change.anchored [OF refl ran(2) refl ran(3-5)] run show ?thesis
      by (cases "dsn = pool_dsn d") (simp_all add: put_db_at pool_db_def db_change.unchanged)
  qed (use run in \<open>simp add: db_change.unchanged\<close>)
qed

lemma Poll_change: "db_change w dsn q (w_dbs w dsn) (w_dbs (fst (PollAnchorConfirmationHandler pg clock w cfg inp)) dsn)"
proof -
  obtain w' res where run: "PollAnchorConfirmationHandler pg clock w cfg inp = (w', res)" by (meson surj_pair)
  then show ?thesis
  proof (cases rule: Poll_cases)
    case (answered d p i row v)
    note look = poll_lookup_InrD [OF answered(1)]
    from answered(3) show ?thesis
    proof (cases rule: poll_answer_cases)
      case (moved resp db')
      have "db_change w (pool_dsn d) q (pool_db w d) db'"
        using db_change.polled [OF look(4,2) answered(2) _ moved(8)] by (simp add: polled_anchor_def)
      then show ?thesis using run moved(9)
        by (cases "dsn = pool_dsn d") (simp_all add: put_db_at pool_db_def db_change.unchanged)
    qed (use run in \<open>simp_all add: db_change.unchanged\<close>)
  qed (use run in \<open>simp add: db_change.unchanged\<close>)
qed

lemma serve_change: "db_change w dsn q (w_dbs w dsn) (w_dbs (serve pg order clock w q) dsn)"
  by (cases q) (simp_all add: Append_change Anchor_change Poll_change)

definition all_shipped :: "world \<Rightarrow> bool" where
  "all_shipped w \<longleftrightarrow> (\<forall>k p. GetAnchorProvider (w_registry w) k = Some p \<longrightarrow> shipped p)"

lemma reachable_shipped: "system_reachable out pb policy dbs s \<Longrightarrow> all_shipped (world_at n s)"
  unfolding all_shipped_def using registered_shipped [OF reachable_modules_ok] by blast

text \<open>An invariant of the databases: it holds at the start and every change of an allowed request keeps it.\<close>

lemma reachable_invariant:
  assumes "system_reachable out pb policy dbs s" and "I (dbs dsn)"
    and keep: "\<And>w q db db'. I db \<Longrightarrow> db = w_dbs w dsn \<Longrightarrow> all_shipped w \<Longrightarrow>
      policy w q \<Longrightarrow> db_change w dsn q db db' \<Longrightarrow> I db'"
  shows "I (sys_dbs s dsn)"
  using assms(1)
proof (induction rule: system_reachable.induct)
  case start
  with assms(2) show ?case by (simp add: initial_system_def)
next
  case (step s t)
  from step(2) show ?case
  proof cases
    case (run n q pg order clock)
    then show ?thesis
      using keep [of "sys_dbs s dsn" "world_at n s" q, OF step.IH] reachable_shipped [OF step(1)]
        serve_change [of "world_at n s" dsn q] by simp
  qed (use step.IH in simp_all)
qed

subsection \<open>Chains and anchors\<close>

lemma update_confirmation_ids:
  "update_confirmation pg db level i = Inr db' \<Longrightarrow> map anchor_id (audit_anchors db') = map anchor_id (audit_anchors db)"
  by (auto simp: update_confirmation_def split: option.splits)

text \<open>The step's order of the levels is the providers'.\<close>

lemma level_rank_order: "confirmationOrder c \<le> confirmationOrder c' \<longleftrightarrow> \<not> level_rank c' < level_rank c"
  by (simp add: confirmationOrder_def level_rank.simps confirmation_defs)

lemma chain_ok_same_log:
  "audit_log db' = audit_log db \<Longrightarrow> audit_ledgers db' = audit_ledgers db \<Longrightarrow> chain_ok db' k = chain_ok db k"
  by (simp add: chain_ok_def ledger_rows_def split: option.split)

text \<open>A change that is not an append leaves the log and the cursors; an append leaves the anchors.\<close>

lemma db_change_log:
  assumes "db_change w dsn q db db'"
  shows "audit_log db' = audit_log db \<and> audit_ledgers db' = audit_ledgers db
    \<or> audit_anchors db' = audit_anchors db \<and> (\<exists>c r. run_call db c = (db', r))"
  using assms
proof cases
  case (appended c r)
  then have "audit_anchors db' = audit_anchors db" by (elim run_call_cases) simp_all
  with appended show ?thesis by blast
next
  case (anchored n d pg e root names r)
  then show ?thesis using anchor_loop_effect [OF anchored(6)] by auto
next
  case (polled row k p a v pg i)
  then show ?thesis using update_confirmation_rows [OF polled(5)] by auto
qed simp

text \<open>The chains stay sound while the log is short enough for the sequence numbers.\<close>

definition chains_ok :: "database \<Rightarrow> bool" where
  "chains_ok db \<longleftrightarrow> (int (length (audit_log db)) \<le> int64_max \<longrightarrow> (\<forall>k. chain_ok db k))"

lemma chains_ok_change:
  assumes "db_change w dsn q db db'" and "chains_ok db"
  shows "chains_ok db'"
  using db_change_log [OF assms(1)]
proof
  assume "audit_anchors db' = audit_anchors db \<and> (\<exists>c r. run_call db c = (db', r))"
  then obtain c r where run: "run_call db c = (db', r)" by blast
  with run_call_grows [OF run] assms(2) show ?thesis using run_call_chain [OF run] by (simp add: chains_ok_def)
next
  assume same: "audit_log db' = audit_log db \<and> audit_ledgers db' = audit_ledgers db"
  then have "chain_ok db' k = chain_ok db k" for k by (intro chain_ok_same_log) simp_all
  with assms(2) same show ?thesis by (simp add: chains_ok_def)
qed

text \<open>The anchors: unique, and of a known level.\<close>

definition anchors_sound :: "database \<Rightarrow> bool" where
  "anchors_sound db \<longleftrightarrow> anchors_unique db \<and> (\<forall>a \<in> set (audit_anchors db). known (anchor_confirmation a))"

lemma anchors_sound_cong: "audit_anchors db' = audit_anchors db \<Longrightarrow> anchors_sound db' = anchors_sound db"
  by (simp add: anchors_sound_def anchors_unique_def)

text \<open>What a change may add or alter in an anchor row.\<close>

lemma anchor_row_origin:
  assumes "db_change w dsn q db db'" and "all_shipped w"
    and "a' \<in> set (audit_anchors db')"
  obtains (old) "a' \<in> set (audit_anchors db)"
  | (new) p pg i l s e root b where "shipped p" "pAnchor p i root = Inr b" "a' = new_anchor pg i l s e root b"
      "\<exists>hashes. hashes \<noteq> [] \<and> MerkleRoot hashes = Inr root"
  | (moved) a row p v t t' b where "a \<in> set (audit_anchors db)" "row \<in> set (audit_anchors db)" "shipped p" "pVerify p 0 b = Inr v"
      "Confirmation b = anchor_confirmation row"
      "a' = a\<lparr>anchor_confirmation := VConfirmation v, confirmed_at := t, finalized_at := t'\<rparr>"
  using assms(1)
proof cases
  case (anchored n d pg e root names r)
  from anchor_loop_rows [OF anchored(6) assms(3)] show thesis
  proof
    assume "\<exists>name p j b. GetAnchorProvider (w_registry w) name = Some p \<and> pAnchor p j root = Inr b
        \<and> a' = new_anchor pg j (nq_Ledger n) (nq_StartSequence n) e root b"
    then obtain name p j b where p: "GetAnchorProvider (w_registry w) name = Some p" "pAnchor p j root = Inr b"
      "a' = new_anchor pg j (nq_Ledger n) (nq_StartSequence n) e root b" by blast
    then have "shipped p" using assms(2) unfolding all_shipped_def by blast
    moreover have "\<exists>hashes. hashes \<noteq> [] \<and> MerkleRoot hashes = Inr root"
      using anchor_root_InrD [OF anchored(5)] by (metis map_is_Nil_conv)
    ultimately show thesis using new p(2,3) by blast
  qed (rule old)
next
  case (polled row k p b v pg i)
  obtain f where f: "audit_anchors db' = map f (audit_anchors db)" "\<forall>a. anchor_id a \<noteq> i \<longrightarrow> f a = a"
    "\<forall>a. anchor_id a = i \<longrightarrow> f a = a\<lparr>anchor_confirmation := VConfirmation v,
       confirmed_at := (if VConfirmation v = ''confirmed'' then Some (pg_now pg) else confirmed_at a),
       finalized_at := (if VConfirmation v = ''finalized'' then Some (pg_now pg) else finalized_at a)\<rparr>"
    using update_confirmation_rows [OF polled(5)] by blast
  from assms(3) f(1) obtain a where a: "a \<in> set (audit_anchors db)" "a' = f a" by auto
  show thesis
  proof (cases "anchor_id a = i")
    case True
    have "shipped p" using assms(2) polled(2) unfolding all_shipped_def by blast
    from moved [OF a(1) polled(1) this polled(3,4)] a(2) f(3) True show thesis by simp
  qed (use old a f(2) in simp)
next
  case (appended c r)
  with old assms(3) show thesis by (elim run_call_cases) simp_all
qed (use old assms(3) in simp)

lemma anchors_sound_change:
  assumes "db_change w dsn q db db'" and "all_shipped w"
    and "anchors_sound db"
  shows "anchors_sound db'"
proof -
  have "known (anchor_confirmation a')" if "a' \<in> set (audit_anchors db')" for a'
    using assms(1,2) that
  proof (cases rule: anchor_row_origin)
    case (new p pg i l s e root b)
    then show ?thesis using contract_first [of p] by (simp add: new_anchor_def shipped_def)
  next
    case (moved a row p v t t' b)
    then have "known (Confirmation b)" using assms(3) by (simp add: anchors_sound_def)
    with moved show ?thesis using contract_level [of p 0 b v] by (simp add: shipped_def)
  qed (use assms(3) in \<open>simp add: anchors_sound_def\<close>)
  moreover from assms(1) have "anchors_unique db'"
  proof cases
    case (anchored n d pg e root names r)
    then show ?thesis using anchor_loop_effect [OF anchored(6)] assms(3) by (auto simp: anchors_sound_def)
  next
    case (polled row k p b v pg i)
    have "map anchor_key (audit_anchors db') = map anchor_key (audit_anchors db)"
      using polled(5) by (auto simp: update_confirmation_def anchor_key_def split: option.splits)
    with update_confirmation_ids [OF polled(5)] assms(3) show ?thesis by (simp add: anchors_sound_def anchors_unique_def)
  next
    case (appended c r)
    then have "audit_anchors db' = audit_anchors db" by (elim run_call_cases) simp_all
    with assms(3) show ?thesis by (simp add: anchors_sound_def anchors_unique_def)
  qed (use assms(3) in \<open>simp add: anchors_sound_def\<close>)
  ultimately show ?thesis by (simp add: anchors_sound_def)
qed

text \<open>The databases the system starts with: as the migrations and the operator set them up.\<close>

definition databases_ok :: "(string \<Rightarrow> database) \<Rightarrow> bool" where
  "databases_ok dbs \<longleftrightarrow> (\<forall>dsn. (\<forall>k. chain_ok (dbs dsn) k) \<and> anchors_sound (dbs dsn))"

lemma reachable_databases:
  assumes "system_reachable out pb policy dbs s" and "databases_ok dbs"
  shows "anchors_sound (sys_dbs s dsn)" and "chains_ok (sys_dbs s dsn)"
proof -
  have ok: "anchors_sound (dbs dsn)" "chains_ok (dbs dsn)" using assms(2) by (simp_all add: databases_ok_def chains_ok_def)
  show "anchors_sound (sys_dbs s dsn)"
    using assms(1) ok(1) by (rule reachable_invariant) (metis anchors_sound_change)
  show "chains_ok (sys_dbs s dsn)"
    using assms(1) ok(2) by (rule reachable_invariant) (metis chains_ok_change)
qed

text \<open>A stretch of a sound chain between two sequence numbers is a sound stretch.\<close>

lemma chain_stretch:
  assumes "chain_ok db l"
  shows "segment_ok l (select_log db l (\<lambda>s. lo \<le> s \<and> (unbounded \<or> s \<le> hi)))"
proof -
  define hi' where "hi' = (if unbounded then int (length (ledger_rows db l)) else hi)"
  have chain: "chain_from l 0 [] (ledger_rows db l)" using assms by (simp add: chain_ok_def)
  have "seq_of r \<le> int (length (ledger_rows db l))" if "r \<in> set (ledger_rows db l)" for r
    using chain_from_nth [OF chain] that by (force simp: in_set_conv_nth)
  then have "select_log db l (\<lambda>s. lo \<le> s \<and> (unbounded \<or> s \<le> hi)) = filter (\<lambda>r. lo \<le> seq_of r \<and> seq_of r \<le> hi') (ledger_rows db l)"
    using chain_ok_select [OF assms] by (auto simp: hi'_def intro!: filter_cong)
  moreover obtain as bs where "ledger_rows db l = as @ filter (\<lambda>r. lo \<le> seq_of r \<and> seq_of r \<le> hi') (ledger_rows db l) @ bs"
    using sorted_interval [of seq_of "ledger_rows db l" lo hi'] strict_sorted_imp_sorted [OF chain_from_sorted [OF chain]] by blast
  ultimately show ?thesis using chain_from_segment [OF chain] segment_ok_append by metis
qed

subsection \<open>What is stored fits its columns\<close>

text \<open>A SHA-256 digest in lowercase hexadecimal.\<close>

definition hex_hash :: "string \<Rightarrow> bool" where
  "hex_hash h \<longleftrightarrow> length h = 64 \<and> (\<forall>c \<in> set h. is_digit c \<or> CHR ''a'' \<le> c \<and> c \<le> CHR ''f'')"

definition log_typed :: "log_row \<Rightarrow> bool" where
  "log_typed r \<longleftrightarrow> hex_hash (log_payload_hash r) \<and> (log_prev_entry_hash r = [] \<or> hex_hash (log_prev_entry_hash r))
     \<and> hex_hash (log_entry_hash r) \<and> log_actor r \<noteq> None"

definition cursor_typed :: "ledger_row \<Rightarrow> bool" where
  "cursor_typed c \<longleftrightarrow> last_entry_hash c = [] \<or> hex_hash (last_entry_hash c)"

definition anchor_typed :: "anchor_row \<Rightarrow> bool" where
  "anchor_typed a \<longleftrightarrow> hex_hash (anchor_merkle_root a) \<and> anchor_provider a \<in> shipped_names
     \<and> known (anchor_confirmation a) \<and> anchor_external_id a \<noteq> None"

definition well_typed :: "database \<Rightarrow> bool" where
  "well_typed db \<longleftrightarrow> (\<forall>r \<in> set (audit_log db). log_typed r) \<and> (\<forall>l c. audit_ledgers db l = Some c \<longrightarrow> cursor_typed c)
     \<and> (\<forall>a \<in> set (audit_anchors db). anchor_typed a)"

lemma hex_hash_encode: "length s = 32 \<Longrightarrow> hex_hash (hex_encode s)"
  using hex_encode_lowercase by (auto simp: hex_hash_def)

lemma hex_hash_entry [simp]: "hex_hash (EntryHash s l e p q)"
  by (simp add: EntryHash_def hex_hash_encode)

lemma hex_hash_payload: "PayloadHash data = Inr h \<Longrightarrow> hex_hash h"
  by (auto simp: PayloadHash_def hex_hash_encode split: sum.splits)

text \<open>A Merkle root is the hexadecimal form of a SHA-256 digest.\<close>

lemma MerkleRoot_digest:
  assumes "MerkleRoot hs = Inr root"
  obtains bs where "length bs = 32" "root = hex_encode bs"
proof -
  have ne: "hs \<noteq> []" using assms MerkleRoot_error [of hs] by (simp add: is_ok_iff)
  have "length (level_root (map leafNode hs)) = 32" using ne by (intro level_root_32) (auto simp: leafNode_def)
  with assms ne that show thesis by (auto simp: MerkleRoot_eq)
qed

lemma hex_hash_root: "MerkleRoot hs = Inr root \<Longrightarrow> hex_hash root"
  by (metis MerkleRoot_digest hex_hash_encode)

text \<open>The Go values of the rows, in the widths the migrations give the columns.\<close>

lemma anchor_typed_fits:
  "anchor_typed a \<Longrightarrow> length (anchor_merkle_root a) \<le> 128 \<and> length (anchor_provider a) \<le> 50 \<and> length (anchor_confirmation a) \<le> 20"
  by (auto simp: anchor_typed_def hex_hash_def shipped_names_def ots_name_def git_name_def sig_name_def known_def confirmation_defs)

lemma log_typed_fits:
  "log_typed r \<Longrightarrow> length (log_payload_hash r) \<le> 128 \<and> length (log_prev_entry_hash r) \<le> 128 \<and> length (log_entry_hash r) \<le> 128"
  by (auto simp: log_typed_def hex_hash_def)

lemma well_typed_columns: "well_typed db \<Longrightarrow> columns_ok db l"
  by (auto simp: well_typed_def columns_ok_def ledger_rows_def log_typed_def anchor_typed_def)

lemma anchor_typed_change:
  assumes "db_change w dsn q db db'" and "all_shipped w" and "well_typed db" and "a' \<in> set (audit_anchors db')"
  shows "anchor_typed a'"
  using assms(1,2,4)
proof (cases rule: anchor_row_origin)
  case (new p pg i l s e root b)
  then have "known (Confirmation b)" "ProviderName b \<in> shipped_names"
    using contract_first [of p] contract_name [of p] by (auto simp: shipped_def)
  with new show ?thesis using hex_hash_root by (auto simp: anchor_typed_def new_anchor_def)
next
  case (moved a row p v t t' b)
  then have "known (Confirmation b)" "anchor_typed a" using assms(3) by (simp_all add: well_typed_def anchor_typed_def)
  with moved show ?thesis using contract_level [of p 0 b v] by (simp add: anchor_typed_def shipped_def)
qed (use assms(3) in \<open>simp add: well_typed_def\<close>)

lemma run_call_typed:
  assumes "run_call db c = (db', r)" and "well_typed db"
  shows "(\<forall>r \<in> set (audit_log db'). log_typed r) \<and> (\<forall>l c. audit_ledgers db' l = Some c \<longrightarrow> cursor_typed c)"
proof -
  have added: ?thesis if run: "AppendTx pg db l e p m a = (db', Inr v)" for pg l e p m a v
  proof -
    obtain seq h t where "v = (seq, h, t)" by (cases v)
    with run obtain c ph where c: "audit_ledgers db l = Some c" "PayloadHash p = Inr ph"
      and db': "db' = add_entry db c (new_row pg c l e p ph m a)" by (auto elim: AppendTx_InrD)
    have "cursor_typed c" using assms(2) c(1) by (auto simp: well_typed_def)
    with assms(2) show ?thesis
      by (auto simp: db' well_typed_def log_typed_def cursor_typed_def hex_hash_payload [OF c(2)])
  qed
  from assms(1) [unfolded run_call_def] show ?thesis
    by (cases rule: Append_cases) (use assms(2) added in \<open>auto simp: well_typed_def\<close>)
qed

lemma well_typed_change:
  assumes "db_change w dsn q db db'" and "all_shipped w" and "well_typed db"
  shows "well_typed db'"
proof -
  have "(\<forall>r \<in> set (audit_log db'). log_typed r) \<and> (\<forall>l c. audit_ledgers db' l = Some c \<longrightarrow> cursor_typed c)"
    using db_change_log [OF assms(1)] run_call_typed [OF _ assms(3)] assms(3) by (auto simp: well_typed_def)
  with anchor_typed_change [OF assms] show ?thesis by (simp add: well_typed_def)
qed

lemma reachable_typed:
  assumes "system_reachable out pb policy dbs s" and "well_typed (dbs dsn)"
  shows "well_typed (sys_dbs s dsn)"
  using assms by (rule reachable_invariant) (metis well_typed_change)

subsection \<open>Anchors that stay true\<close>

text \<open>A caller that names the end of a range names one the ledger has reached.\<close>

fun ends_within :: "world \<Rightarrow> request \<Rightarrow> bool" where
  "ends_within w (AnchorReq n) = (\<forall>d. GetDB (w_registry w) (nq_Ledger n) = Some d \<longrightarrow>
     sint (nq_EndSequence n) \<le> int (length (ledger_rows (pool_db w d) (nq_Ledger n))))"
| "ends_within w q = True"

definition anchors_true :: "database \<Rightarrow> bool" where
  "anchors_true db \<longleftrightarrow> chains_ok db \<and> (int (length (audit_log db)) \<le> int64_max \<longrightarrow> (\<forall>l. anchors_ok db l))"

lemma run_call_anchors_ok:
  assumes "run_call db c = (db', r)" and "\<forall>k. chain_ok db k" and "int (length (audit_log db')) \<le> int64_max"
    and "\<forall>k. anchors_ok db k"
  shows "anchors_ok db' l"
  using assms(1)
proof (cases rule: run_call_cases)
  case (2 cur ph)
  have "length (ledger_rows db (call_ledger c)) \<le> length (audit_log db)" by (simp add: ledger_rows_def)
  then have "sint (last_sequence cur) < int64_max"
    using chain_ok_cursor(1) [OF _ 2(1)] assms(2,3) 2(2) by simp
  then show ?thesis using anchors_ok_add_entry [OF _ 2(1)] assms(2,4) 2(2) by blast
qed (use assms(4) in simp)

lemma anchored_rows_same_log: "audit_log db' = audit_log db \<Longrightarrow> anchored_rows db' l s e = anchored_rows db l s e"
  by (simp add: anchored_rows_def select_log_def ledger_rows_def)

lemma anchors_true_change:
  assumes "db_change w dsn q db db'" and "db = w_dbs w dsn" and "ends_within w q" and "anchors_true db"
  shows "anchors_true db'"
proof -
  have "anchors_ok db' l" if short: "int (length (audit_log db')) \<le> int64_max" for l
    using assms(1)
  proof cases
    case (appended c r)
    have "int (length (audit_log db)) \<le> int64_max" using run_call_grows [OF appended] short by simp
    then show ?thesis using run_call_anchors_ok [OF appended _ short] assms(4) by (simp add: anchors_true_def chains_ok_def)
  next
    case (anchored n d pg e root names r)
    have "audit_log db' = audit_log db" using anchor_loop_effect [OF anchored(6)] by auto
    with short assms(4) have "chain_ok db (nq_Ledger n)" "anchors_ok db l" by (simp_all add: anchors_true_def chains_ok_def)
    moreover have "sint (nq_EndSequence n) \<le> int (length (ledger_rows db (nq_Ledger n)))"
      using assms(2,3) anchored(1-3) by (simp add: pool_db_def)
    ultimately show ?thesis using anchor_run_ok [OF anchored(4-6)] by blast
  next
    case (polled row k p a v pg i)
    obtain f where f: "audit_anchors db' = map f (audit_anchors db)" "audit_log db' = audit_log db"
      "\<forall>a. anchor_id a \<noteq> i \<longrightarrow> f a = a"
      "\<forall>a. anchor_id a = i \<longrightarrow> f a = a\<lparr>anchor_confirmation := VConfirmation v,
         confirmed_at := (if VConfirmation v = ''confirmed'' then Some (pg_now pg) else confirmed_at a),
         finalized_at := (if VConfirmation v = ''finalized'' then Some (pg_now pg) else finalized_at a)\<rparr>"
      using update_confirmation_rows [OF polled(5)] by blast
    have fields: "anchor_ledger (f a) = anchor_ledger a" "range_start (f a) = range_start a" "range_end (f a) = range_end a"
      "anchor_merkle_root (f a) = anchor_merkle_root a" for a
      using f(3,4) by (cases "anchor_id a = i"; simp)+
    have same: "anchor_ok db' (f a) = anchor_ok db a" for a
      by (simp add: anchor_ok_def fields anchored_rows_same_log [OF f(2)] ledger_rows_def f(2))
    have "anchors_ok db l" using assms(4) f(2) short by (simp add: anchors_true_def)
    then show ?thesis using same by (auto simp: anchors_ok_def f(1) fields)
  qed (use assms(4) short in \<open>simp add: anchors_true_def\<close>)
  with chains_ok_change [OF assms(1)] assms(4) show ?thesis by (simp add: anchors_true_def)
qed

lemma reachable_anchors_true:
  assumes "system_reachable out pb policy dbs s" and "anchors_true (dbs dsn)" and "\<forall>w q. policy w q \<longrightarrow> ends_within w q"
  shows "anchors_true (sys_dbs s dsn)"
  using assms(1,2) by (rule reachable_invariant) (metis anchors_true_change assms(3))

end
