(* ===== verification/Text_Image.thy ===== *)
theory Text_Image
  imports Json_Roundtrip
begin

section \<open>Texts that read the same\<close>

text \<open>
  A writer that passes a JSON text on copies it byte by byte, but for white space outside strings and
  for characters it escapes inside them. The locale \<open>text_image\<close> says what such a writer does at each
  byte; under it, what is read in a text is read again in the written one (\<open>value_again\<close>). The contract
  has two providers: the text itself, which gives that a value's own text reads as the value wherever it
  stands (\<open>verbatim\<close>), and \<open>compact\<close> (in \<open>Compaction\<close>).
\<close>

subsection \<open>Bytes\<close>

text \<open>Bytes with no meaning of their own inside (\<open>q\<close>) or outside a string, white space included.\<close>

definition copied :: "bool \<Rightarrow> char \<Rightarrow> bool" where
  "copied q c \<longleftrightarrow> c \<notin> {CHR ''<'', CHR ''>'', CHR ''&'', CHR 0x22} \<and> (of_char c :: nat) \<noteq> 226
     \<and> (if q then c \<noteq> CHR 0x5C else \<not> is_space c)"

lemma copied_continuation: "cont c \<Longrightarrow> copied q c"
  by (auto simp: cont_def copied_def is_space_def)

lemma hex_value_copied: "hex_value c = Some n \<Longrightarrow> copied q c"
  by (auto simp: hex_value_def copied_def is_space_def is_digit_def Let_def split: if_splits)

subsection \<open>Code points\<close>

text \<open>The width of a code point depends on the continuation bytes after its first byte only.\<close>

lemma tail_ok_takeWhile: "tail_ok n s \<longleftrightarrow> n \<le> length (takeWhile cont s)"
  by (induction n s rule: tail_ok.induct) auto

lemma second_range_cont: "in_range (fst (second_range n)) (snd (second_range n)) d \<Longrightarrow> cont d"
  by (auto simp: second_range_def in_range_def cont_def split: if_splits)

lemma utf8_width_continuation:
  assumes "takeWhile cont xs = takeWhile cont ys"
  shows "utf8_width (c # xs) = utf8_width (c # ys)"
proof -
  let ?second = "\<lambda>d. in_range (fst (second_range (of_char c))) (snd (second_range (of_char c))) d"
  have width: "utf8_width (c # zs) = (let w = lead_width (of_char c) in if w < 2 then w
      else case takeWhile cont zs of [] \<Rightarrow> 0
           | d # ds \<Rightarrow> if ?second d \<and> w - 2 \<le> length ds then w else 0)" for zs
    using second_range_cont [of "of_char c"]
    by (cases zs) (auto simp: utf8_width.simps(2) Let_def tail_ok_takeWhile)
  show ?thesis by (simp only: width assms)
qed

lemma tail_ok_conts: "tail_ok n s \<Longrightarrow> \<forall>c \<in> set (take n s). cont c"
  by (induction n s rule: tail_ok.induct) auto

lemma utf8_width_tail:
  assumes "2 \<le> utf8_width (c # cs)"
  shows "\<forall>b \<in> set (take (utf8_width (c # cs) - 1) cs). cont b"
proof -
  define w where "w = utf8_width (c # cs)"
  obtain d ds where cs: "cs = d # ds" using assms by (cases cs) (auto simp: utf8_width.simps(2) Let_def split: if_splits)
  with assms have "cont d" "tail_ok (w - 2) ds"
    using second_range_cont [of "of_char c" d] by (auto simp: w_def utf8_width.simps(2) Let_def split: if_splits)
  moreover have "w - 1 = Suc (w - 2)" using assms by (simp add: w_def)
  ultimately show ?thesis using tail_ok_conts [of "w - 2" ds] unfolding w_def [symmetric] by (simp add: cs)
qed

subsection \<open>Strings\<close>

text \<open>The body of a string and its compacted form read the same. The first byte decides over the escape
  and the code point before it, so the two also agree on their continuation bytes and on whether they can
  complete a surrogate pair.\<close>

definition body_reads :: "string \<Rightarrow> string \<Rightarrow> string \<Rightarrow> bool" where
  "body_reads s b v \<longleftrightarrow> (\<forall>t. read_string (b @ CHR 0x22 # t) = Some (v, t)
     \<and> takeWhile cont (b @ CHR 0x22 # t) = takeWhile cont s
     \<and> (\<forall>n. surrogate_pair n s = None \<longrightarrow> surrogate_pair n (b @ CHR 0x22 # t) = None))"

lemma body_readsD:
  assumes "body_reads s b v"
  shows "read_string (b @ CHR 0x22 # t) = Some (v, t)" "takeWhile cont (b @ CHR 0x22 # t) = takeWhile cont s"
    "surrogate_pair n s = None \<Longrightarrow> surrogate_pair n (b @ CHR 0x22 # t) = None"
  using assms by (auto simp: body_reads_def)

lemma ascii_no_cont: "(of_char c :: nat) < 128 \<or> 192 \<le> (of_char c :: nat) \<Longrightarrow> takeWhile cont (c # s) = []"
  by (auto simp: cont_def)

lemma surrogate_pair_plain: "c \<noteq> CHR 0x5C \<Longrightarrow> surrogate_pair n (c # s) = None"
  by (auto simp: surrogate_pair_def split: list.split)

lemma surrogate_pair_simple: "e \<noteq> CHR ''u'' \<Longrightarrow> surrogate_pair n (CHR 0x5C # e # s) = None"
  by (simp add: surrogate_pair_def)

lemma surrogate_pair_digits:
  "\<forall>u. hex4 (h @ u) = Some (m, u) \<Longrightarrow> surrogate_pair n (CHR 0x5C # CHR ''u'' # h @ x) = None
     \<longleftrightarrow> \<not> (55296 \<le> n \<and> n < 56320 \<and> 56320 \<le> m \<and> m < 57344)"
  by (simp add: surrogate_pair_def)

lemma hex4_digits:
  assumes "hex4 s = Some (n, t)"
  obtains h where "s = h @ t" "\<forall>c \<in> set h. copied True c" "\<forall>u. hex4 (h @ u) = Some (n, u)"
proof (cases s rule: hex4.cases)
  case (1 a b c d cs)
  with assms have "copied True a" "copied True b" "copied True c" "copied True d"
    by (auto split: option.splits intro: hex_value_copied)
  with 1 assms that [of "[a, b, c, d]"] show thesis by (auto split: option.splits)
qed (use assms in auto)

text \<open>An escape with digits, alone or with the escape that completes its pair.\<close>

lemma escaped_rune_cases:
  assumes "hex4 ds = Some (n, t)"
  obtains (alone) h where "ds = h @ t" "\<forall>c \<in> set h. copied True c" "\<forall>u. hex4 (h @ u) = Some (n, u)"
      "snd (escaped_rune n t) = t" "\<And>u. (surrogate_pair n t = None \<longrightarrow> surrogate_pair n u = None) \<Longrightarrow>
         escaped_rune n u = (fst (escaped_rune n t), u)"
  | (pair) h h' m where "ds = h @ CHR 0x5C # CHR ''u'' # h' @ snd (escaped_rune n t)"
      "\<forall>c \<in> set h. copied True c" "\<forall>c \<in> set h'. copied True c"
      "\<forall>u. hex4 (h @ u) = Some (n, u)" "\<forall>u. hex4 (h' @ u) = Some (m, u)"
      "\<And>u. escaped_rune n (CHR 0x5C # CHR ''u'' # h' @ u) = (fst (escaped_rune n t), u)"
proof -
  obtain h where h: "ds = h @ t" "\<forall>c \<in> set h. copied True c" "\<forall>u. hex4 (h @ u) = Some (n, u)"
    using hex4_digits [OF assms] by metis
  show thesis
  proof (cases "55296 \<le> n \<and> n < 57344 \<and> surrogate_pair n t \<noteq> None")
    case False
    show thesis
    proof (rule alone [OF h])
      show "snd (escaped_rune n t) = t" using False by (auto simp: escaped_rune_def split: option.split)
      show "escaped_rune n u = (fst (escaped_rune n t), u)"
        if "surrogate_pair n t = None \<longrightarrow> surrogate_pair n u = None" for u
        using False that by (auto simp: escaped_rune_def split: option.split)
    qed
  next
    case True
    then obtain cs where t: "t = CHR 0x5C # CHR ''u'' # cs" and some: "surrogate_pair n t \<noteq> None"
      by (auto simp: surrogate_pair_def split: list.splits if_splits)
    then obtain m t' where m: "hex4 cs = Some (m, t')" by (auto simp: surrogate_pair_def split: option.splits)
    then obtain h' where h': "cs = h' @ t'" "\<forall>c \<in> set h'. copied True c" "\<forall>u. hex4 (h' @ u) = Some (m, u)"
      using hex4_digits [OF m] by metis
    have low: "56320 \<le> m" "m < 57344" "n < 56320" using some t m by (auto simp: surrogate_pair_def split: if_splits)
    have rune: "escaped_rune n (CHR 0x5C # CHR ''u'' # h' @ u) = (utf8_encode (65536 + (n - 55296) * 1024 + (m - 56320)), u)" for u
      using True low by (simp add: escaped_rune_def surrogate_pair_def h'(3))
    then have "escaped_rune n t = (utf8_encode (65536 + (n - 55296) * 1024 + (m - 56320)), t')" using t h'(1) by simp
    with rune h t h' show thesis by (intro pair [of h h' m]) simp_all
  qed
qed

text \<open>A code point that is not escaped in the document, and a text that reads as it.\<close>

definition rune_reads :: "nat \<Rightarrow> string \<Rightarrow> string \<Rightarrow> bool" where
  "rune_reads w s x \<longleftrightarrow> (\<forall>t. read_string (x @ t) = prepend (take w s) (read_string t)
     \<and> takeWhile cont (x @ t) = [] \<and> (\<forall>n. surrogate_pair n (x @ t) = None))"

lemma rune_reads_verbatim:
  assumes "utf8_width (c # cs) \<noteq> 0" and "c \<noteq> CHR 0x22" and "c \<noteq> CHR 0x5C" and "32 \<le> (of_char c :: nat)"
  shows "rune_reads (utf8_width (c # cs)) (c # cs) (take (utf8_width (c # cs)) (c # cs))"
proof -
  obtain k where k: "utf8_width (c # cs) = Suc k" using assms(1) by (cases "utf8_width (c # cs)") auto
  have "(of_char c :: nat) < 128 \<or> 192 \<le> (of_char c :: nat)"
    using assms(1) utf8_width_1 [of c cs] utf8_width_ge_2 [of c cs] by (cases "utf8_width (c # cs)" rule: nat.exhaust) auto
  then show ?thesis
    using read_string_rune [of "c # cs"] assms surrogate_pair_plain [of c] ascii_no_cont [of c] by (simp add: rune_reads_def k)
qed


subsection \<open>Numbers\<close>

definition number_char :: "char \<Rightarrow> bool" where
  "number_char c \<longleftrightarrow> is_digit c \<or> c \<in> {CHR ''+'', CHR ''-'', CHR ''.'', CHR ''e'', CHR ''E''}"

lemma read_digits_chars: "read_digits s = (ds, r) \<Longrightarrow> c \<in> set ds \<Longrightarrow> number_char c"
  using read_digits_props [of s ds r] by (auto simp: number_char_def)

lemma read_number_chars:
  assumes "read_number s = Some (n, r)"
  shows "\<forall>c \<in> set n. number_char c"
proof -
  obtain sg s1 ip s2 fp s3 ep where m: "read_minus s = (sg, s1)" and i: "read_int s1 = Some (ip, s2)"
    and f: "read_frac s2 = Some (fp, s3)" and e: "read_exp s3 = Some (ep, r)" and n: "n = sg @ ip @ fp @ ep"
    using assms by (auto simp: read_number_def split: prod.splits option.splits)
  have marks: "number_char (CHR ''+'')" "number_char (CHR ''-'')" "number_char (CHR ''.'')"
    "number_char (CHR ''e'')" "number_char (CHR ''E'')" "number_char (CHR ''0'')"
    by (simp_all add: number_char_def is_digit_def)
  have "\<forall>c \<in> set sg. number_char c" using m marks by (auto simp: read_minus_def split: list.splits if_splits)
  moreover have "\<forall>c \<in> set ip. number_char c"
    using i marks by (auto simp: read_int_def dest: read_digits_chars split: list.splits if_splits)
  moreover have "\<forall>c \<in> set fp. number_char c"
    using f marks by (auto simp: read_frac_def dest: read_digits_chars split: list.splits if_splits prod.splits)
  moreover have "\<forall>c \<in> set ep. number_char c"
    using e marks by (auto simp: read_exp_def dest: read_digits_chars split: list.splits if_splits prod.splits)
  ultimately show ?thesis by (auto simp: n)
qed

lemma number_char_copied: "number_char c \<Longrightarrow> copied False c"
  by (auto simp: number_char_def copied_def is_space_def is_digit_def)

subsection \<open>Values from the texts of their parts\<close>

text \<open>Texts of the elements of an array up to its closing bracket, and of the members of an object up to
  its closing brace, with white space anywhere.\<close>

definition elements_read :: "nat \<Rightarrow> string \<Rightarrow> json list \<Rightarrow> bool" where
  "elements_read d y vs \<longleftrightarrow> (\<forall>f t. Suc (2 * length y) < f \<longrightarrow> pelems f d (y @ t) = Some (vs, t))"

definition members_read :: "nat \<Rightarrow> string \<Rightarrow> (string \<times> json) list \<Rightarrow> bool" where
  "members_read d y ms \<longleftrightarrow> (\<forall>f t. Suc (2 * length y) < f \<longrightarrow> pmembers f d (y @ t) = Some (ms, t))"

abbreviation spaces :: "string \<Rightarrow> bool" where
  "spaces w \<equiv> \<forall>c \<in> set w. is_space c"

lemma skip_spaces: "spaces w \<Longrightarrow> skip_ws (w @ s) = skip_ws s"
  by (simp add: skip_ws_def dropWhile_append2)

lemma reads_as_spaces:
  assumes "spaces w" and "reads_as d y v"
  shows "reads_as d (w @ y) v"
  unfolding reads_as_def
proof (intro allI impI)
  fix f t assume f: "follows v t" "2 * length (w @ y) < f"
  then obtain g where g: "f = Suc g" by (cases f) auto
  have "pval f d (w @ y @ t) = pval f d (y @ t)" by (simp add: g skip_spaces [OF assms(1)])
  then show "pval f d ((w @ y) @ t) = Some (v, t)" using reads_asD [OF assms(2) f(1)] f(2) by simp
qed

lemma follows_mark: "spaces w \<Longrightarrow> c \<in> set '',]}'' \<Longrightarrow> follows v (w @ c # t)"
proof -
  assume w: "spaces w" and c: "c \<in> set '',]}''"
  have "is_space b \<Longrightarrow> number_stop (b # s)" for b s by (auto simp: is_space_def number_stop_def is_digit_def)
  moreover have "number_stop (c # t)" using c by (auto simp: number_stop_def is_digit_def)
  ultimately show "follows v (w @ c # t)" using w by (cases w) (simp_all add: follows_def)
qed

lemma skip_mark: "spaces w \<Longrightarrow> c \<in> set '',:]}'' \<Longrightarrow> skip_ws (w @ c # t) = c # t"
  by (auto simp: skip_spaces intro!: skip_ws_id) (simp_all add: is_space_def)

lemma elements_read_step:
  assumes "reads_as d y v" and "spaces w"
  shows "elements_read d (y @ w @ '']'') [v]"
    and "elements_read d z vs \<Longrightarrow> elements_read d (y @ w @ CHR '','' # z) (v # vs)"
proof -
  have head: "pval g d (y @ w @ c # t) = Some (v, w @ c # t)" if "c \<in> set '',]}''" "2 * length y < g" for g c t
    using assms that by (intro reads_asD follows_mark) auto
  show "elements_read d (y @ w @ '']'') [v]"
    unfolding elements_read_def
  proof (intro allI impI)
    fix f t assume "Suc (2 * length (y @ w @ '']'')) < f"
    then show "pelems f d ((y @ w @ '']'') @ t) = Some ([v], t)"
      using head [of "CHR '']''" "f - 1" t] skip_mark [OF assms(2), of "CHR '']''" t] by (cases f) simp_all
  qed
  show "elements_read d (y @ w @ CHR '','' # z) (v # vs)" if z: "elements_read d z vs"
    unfolding elements_read_def
  proof (intro allI impI)
    fix f t assume "Suc (2 * length (y @ w @ CHR '','' # z)) < f"
    then show "pelems f d ((y @ w @ CHR '','' # z) @ t) = Some (v # vs, t)"
      using head [of "CHR '',''" "f - 1" "z @ t"] skip_mark [OF assms(2), of "CHR '',''" "z @ t"] z
      by (cases f) (simp_all add: elements_read_def)
  qed
qed

lemma members_read_step:
  assumes "spaces u" and "key_reads x k" and "spaces u'" and "reads_as d y v" and "spaces w"
  shows "members_read d (u @ x @ u' @ CHR '':'' # y @ w @ ''}'') [(k, v)]"
    and "members_read d z ms \<Longrightarrow> members_read d (u @ x @ u' @ CHR '':'' # y @ w @ CHR '','' # z) ((k, v) # ms)"
proof -
  obtain b where b: "\<And>t. strip_prefix [CHR 0x22] (skip_ws (x @ t)) = Some (b @ t)" "\<And>t. read_string (b @ t) = Some (k, t)"
    using assms(2) by (auto elim: key_readsE)
  have key: "strip_prefix [CHR 0x22] (skip_ws (u @ x @ t)) = Some (b @ t)" for t by (simp add: skip_spaces [OF assms(1)] b(1))
  have head: "pval g d (y @ w @ c # t) = Some (v, w @ c # t)" if "c \<in> set '',]}''" "2 * length y < g" for g c t
    using assms(4,5) that by (intro reads_asD follows_mark) auto
  show "members_read d (u @ x @ u' @ CHR '':'' # y @ w @ ''}'') [(k, v)]"
    unfolding members_read_def
  proof (intro allI impI)
    fix f t assume "Suc (2 * length (u @ x @ u' @ CHR '':'' # y @ w @ ''}'')) < f"
    then show "pmembers f d ((u @ x @ u' @ CHR '':'' # y @ w @ ''}'') @ t) = Some ([(k, v)], t)"
      using head [of "CHR ''}''" "f - 1" t] skip_mark [OF assms(5), of "CHR ''}''" t]
        skip_mark [OF assms(3), of "CHR '':''" "y @ w @ CHR ''}'' # t"] key b(2) by (cases f) simp_all
  qed
  show "members_read d (u @ x @ u' @ CHR '':'' # y @ w @ CHR '','' # z) ((k, v) # ms)" if z: "members_read d z ms"
    unfolding members_read_def
  proof (intro allI impI)
    fix f t assume "Suc (2 * length (u @ x @ u' @ CHR '':'' # y @ w @ CHR '','' # z)) < f"
    then show "pmembers f d ((u @ x @ u' @ CHR '':'' # y @ w @ CHR '','' # z) @ t) = Some ((k, v) # ms, t)"
      using head [of "CHR '',''" "f - 1" "z @ t"] skip_mark [OF assms(5), of "CHR '',''" "z @ t"]
        skip_mark [OF assms(3), of "CHR '':''" "y @ w @ CHR '','' # z @ t"] key b(2) z
      by (cases f) (simp_all add: members_read_def)
  qed
qed

text \<open>Where elements or members are read, the container is not empty.\<close>

lemma pelems_no_bracket: "pelems f d s = Some p \<Longrightarrow> strip_prefix '']'' (skip_ws s) = None"
proof (rule ccontr)
  assume some: "pelems f d s = Some p" and "strip_prefix '']'' (skip_ws s) \<noteq> None"
  then obtain r where s: "skip_ws s = CHR '']'' # r" by (auto simp: strip_prefix_eq)
  then have "pval g d s = None" for g
    by (cases g) (simp_all add: read_number_def read_minus_def read_int_def is_digit_def)
  with some show False by (cases f) auto
qed

lemma pmembers_no_brace: "pmembers f d s = Some p \<Longrightarrow> strip_prefix ''}'' (skip_ws s) = None"
  by (cases f; cases "skip_ws s") (auto split: if_splits)

lemma reads_as_brackets:
  assumes "elements_read (Suc d) z vs" and "d < max_depth"
  shows "reads_as d (CHR ''['' # z) (JArr vs)"
proof (rule reads_asI)
  fix f t assume "2 * length (CHR ''['' # z) \<le> f"
  with assms(1) have "pelems f (Suc d) (z @ t) = Some (vs, t)" by (simp add: elements_read_def)
  with pelems_no_bracket [OF this] assms(2) show "pval (Suc f) d ((CHR ''['' # z) @ t) = Some (JArr vs, t)"
    by (simp add: skip_ws_id is_space_def)
qed

lemma reads_as_braces:
  assumes "members_read (Suc d) z ms" and "d < max_depth"
  shows "reads_as d (CHR ''{'' # z) (JObj (map_of_members ms))"
proof (rule reads_asI)
  fix f t assume "2 * length (CHR ''{'' # z) \<le> f"
  with assms(1) have "pmembers f (Suc d) (z @ t) = Some (ms, t)" by (simp add: members_read_def)
  with pmembers_no_brace [OF this] assms(2) show "pval (Suc f) d ((CHR ''{'' # z) @ t) = Some (JObj (map_of_members ms), t)"
    by (simp add: skip_ws_id is_space_def)
qed

lemma reads_as_empty:
  assumes "spaces w" and "d < max_depth"
  shows "reads_as d (CHR ''['' # w @ '']'') (JArr [])" and "reads_as d (CHR ''{'' # w @ ''}'') (JObj [])"
proof -
  have e: "skip_ws ((w @ '']'') @ t) = CHR '']'' # t" "skip_ws ((w @ ''}'') @ t) = CHR ''}'' # t" for t
    using skip_mark [OF assms(1)] by simp_all
  have o: "skip_ws (CHR ''['' # s) = CHR ''['' # s" "skip_ws (CHR ''{'' # s) = CHR ''{'' # s" for s
    by (simp_all add: skip_ws_id is_space_def)
  show "reads_as d (CHR ''['' # w @ '']'') (JArr [])"
    using e(1) o(1) assms(2) by (intro reads_asI) simp
  show "reads_as d (CHR ''{'' # w @ ''}'') (JObj [])"
    using e(2) o(2) assms(2) by (intro reads_asI) simp
qed

subsection \<open>The contract of a writer\<close>

locale text_image =
  fixes inner :: "string \<Rightarrow> string" and outer :: "string \<Rightarrow> string"
  assumes inner_quote: "inner (CHR 0x22 # s) = CHR 0x22 # outer s"
    and outer_quote: "outer (CHR 0x22 # s) = CHR 0x22 # inner s"
    and inner_escaped: "inner (CHR 0x5C # e # s) = CHR 0x5C # e # inner s"
    and inner_copy: "copied True c \<Longrightarrow> inner (c # s) = c # inner s"
    and inner_bad: "utf8_width (c # s) = 0 \<Longrightarrow> inner (c # s) = c # inner s"
    and inner_rune: "utf8_width (c # s) \<noteq> 0 \<Longrightarrow> c \<noteq> CHR 0x22 \<Longrightarrow> c \<noteq> CHR 0x5C \<Longrightarrow> 32 \<le> (of_char c :: nat) \<Longrightarrow>
      \<exists>x. inner (c # s) = x @ inner (drop (utf8_width (c # s)) (c # s)) \<and> rune_reads (utf8_width (c # s)) (c # s) x"
    and outer_copy: "copied False c \<Longrightarrow> outer (c # s) = c # outer s"
    and outer_space: "\<exists>w. (\<forall>c \<in> set w. is_space c) \<and> outer s = w @ outer (skip_ws s)"
begin

lemma inner_copies: "\<forall>c \<in> set p. copied True c \<Longrightarrow> inner (p @ s) = p @ inner s"
  by (induction p) (simp_all add: inner_copy)

lemma outer_copies: "\<forall>c \<in> set p. copied False c \<Longrightarrow> outer (p @ s) = p @ outer s"
  by (induction p) (simp_all add: outer_copy)

lemma string_again:
  "read_string s = Some (v, r) \<Longrightarrow> \<exists>b. inner s = b @ CHR 0x22 # outer r \<and> body_reads s b v"
proof (induction s arbitrary: v r rule: read_string.induct)
  case (1 s)
  note IH = "1.IH" and ret = "1.prems"
  obtain c cs where s: "s = c # cs" using ret by (cases s) (auto simp: read_string.simps)
  consider (quote) "c = CHR 0x22"
    | (esc) "c = CHR 0x5C"
    | (bad) "c \<noteq> CHR 0x22" "c \<noteq> CHR 0x5C" "\<not> (of_char c :: nat) < 32" "utf8_width s = 0"
    | (rune) "c \<noteq> CHR 0x22" "c \<noteq> CHR 0x5C" "\<not> (of_char c :: nat) < 32" "utf8_width s \<noteq> 0"
    using ret s by (subst (asm) read_string.simps) (auto split: if_splits)
  then show ?case
  proof cases
    case quote
    with ret s have "body_reads s [] v" "inner s = CHR 0x22 # outer r"
      by (auto simp: body_reads_def read_string_quote ascii_no_cont surrogate_pair_plain inner_quote
          simp del: takeWhile.simps)
    then show ?thesis by (intro exI [of _ "[]"]) simp
  next
    case esc
    obtain e ds where cs: "cs = e # ds" using ret s esc by (cases cs) (auto simp: read_string.simps)
    have no_cont: "takeWhile cont (CHR 0x5C # t) = []" for t by (rule ascii_no_cont) simp
    show ?thesis
    proof (cases "e = CHR ''u''")
      case False
      with ret s esc cs obtain b v' where b: "simple_escape e = Some b"
        and v': "read_string ds = Some (v', r)" "v = b # v'"
        by (subst (asm) read_string.simps) (auto split: option.splits)
      obtain b' where b': "inner ds = b' @ CHR 0x22 # outer r" "body_reads ds b' v'"
        using IH(2) [OF s _ esc cs False b v'(1)] esc by auto
      have "body_reads s (CHR 0x5C # e # b') v"
        using body_readsD(1) [OF b'(2)] b v'(2) False
        by (auto simp: body_reads_def s cs esc read_string_simple surrogate_pair_simple no_cont simp del: takeWhile.simps)
      then show ?thesis using b'(1) s cs esc inner_escaped [of e ds] by (intro exI [of _ "CHR 0x5C # e # b'"]) (simp)
    next
      case True
      with ret s esc cs obtain n t v' where h: "hex4 ds = Some (n, t)"
        and v': "read_string (snd (escaped_rune n t)) = Some (v', r)" "v = fst (escaped_rune n t) @ v'"
        by (subst (asm) read_string.simps) (auto split: option.splits)
      obtain b' where b': "inner (snd (escaped_rune n t)) = b' @ CHR 0x22 # outer r"
        "body_reads (snd (escaped_rune n t)) b' v'"
        using IH(1) [OF s _ esc cs True h refl v'(1)] esc by auto
      have read: "read_string (CHR 0x5C # CHR ''u'' # x) = prepend (fst (escaped_rune m y)) (read_string (snd (escaped_rune m y)))"
        if "hex4 x = Some (m, y)" for x m y
        using that by (subst read_string.simps) simp
      from h show ?thesis
      proof (cases rule: escaped_rune_cases)
        case (alone k)
        have rune: "escaped_rune n (b' @ CHR 0x22 # u) = (fst (escaped_rune n t), b' @ CHR 0x22 # u)" for u
          using body_readsD(3) [OF b'(2), of n u] alone(4) by (intro alone(5)) simp
        let ?b = "CHR 0x5C # CHR ''u'' # k @ b'"
        have "inner s = ?b @ CHR 0x22 # outer r"
          using b'(1) alone(1,4) inner_copies [OF alone(2), of t] inner_escaped [of "CHR ''u''" ds] by (simp add: s cs esc True)
        moreover have "body_reads s ?b v"
          using body_readsD(1) [OF b'(2)] v'(2) alone(1,3) rune
          by (simp add: body_reads_def s cs esc True read no_cont surrogate_pair_digits [OF alone(3)] del: takeWhile.simps)
        ultimately show ?thesis by blast
      next
        case (pair k k' m)
        let ?b = "CHR 0x5C # CHR ''u'' # k @ CHR 0x5C # CHR ''u'' # k' @ b'"
        have "inner s = ?b @ CHR 0x22 # outer r"
          using b'(1) pair(1) inner_copies [OF pair(2)] inner_copies [OF pair(3)] inner_escaped [of "CHR ''u''"]
          by (simp add: s cs esc True)
        moreover have "body_reads s ?b v"
          using body_readsD(1) [OF b'(2)] v'(2) pair(1,4-6)
          by (simp add: body_reads_def s cs esc True read no_cont surrogate_pair_digits [OF pair(4)] del: takeWhile.simps)
        ultimately show ?thesis by blast
      qed
    qed
  next
    case bad
    with ret s obtain v' where v': "read_string cs = Some (v', r)" "v = replacement @ v'"
      by (subst (asm) read_string.simps) auto
    obtain b' where b': "inner cs = b' @ CHR 0x22 # outer r" "body_reads cs b' v'"
      using IH(3) [OF s bad v'(1)] by blast
    have high: "128 \<le> (of_char c :: nat)" using bad(4) utf8_width_1 [of c cs] by (auto simp: s not_le)
    have "inner s = c # inner cs" using inner_bad [of c cs] bad(4) high by (simp add: s)
    moreover have "body_reads s (c # b') v"
    proof -
      have "utf8_width (c # b' @ CHR 0x22 # t) = 0" for t
        using utf8_width_continuation [OF body_readsD(2) [OF b'(2)], of c t] bad(4) by (simp add: s)
      then have "read_string (c # b' @ CHR 0x22 # t) = Some (v, t)" for t
        using bad body_readsD(1) [OF b'(2), of t] v'(2) by (subst read_string.simps) simp
      then show ?thesis
        using body_readsD(2) [OF b'(2)] surrogate_pair_plain [OF bad(2)] by (auto simp: body_reads_def s)
    qed
    ultimately show ?thesis using b'(1) by (intro exI [of _ "c # b'"]) simp
  next
    case rune
    with ret s obtain v' where v': "read_string (drop (utf8_width s) s) = Some (v', r)"
      "v = take (utf8_width s) s @ v'"
      by (subst (asm) read_string.simps) auto
    obtain b' where b': "inner (drop (utf8_width s) s) = b' @ CHR 0x22 # outer r"
      "body_reads (drop (utf8_width s) s) b' v'"
      using IH(4) [OF s rune v'(1)] by blast
    have "(of_char c :: nat) < 128 \<or> 192 \<le> (of_char c :: nat)"
      using rune(4) utf8_width_1 [of c cs] utf8_width_ge_2 [of c cs] by (cases "utf8_width s" rule: nat.exhaust) (auto simp: s)
    then have first: "takeWhile cont s = []" by (simp only: s ascii_no_cont)
    obtain x where x: "inner s = x @ inner (drop (utf8_width s) s)" "rune_reads (utf8_width s) s x"
      using inner_rune [of c cs] rune unfolding s by auto
    have "body_reads s (x @ b') v"
      using x(2) body_readsD(1) [OF b'(2)] v'(2) first by (simp add: body_reads_def rune_reads_def)
    then show ?thesis using x(1) b'(1) by (intro exI [of _ "x @ b'"]) simp
  qed
qed

text \<open>What is read at the front of a text, read again in its image.\<close>

lemma number_again:
  assumes "read_number s = Some (n, r)"
  shows "outer s = n @ outer r" and "reads_as d n (JNum n)"
proof -
  have s: "s = n @ r" using read_number_props [OF assms] by blast
  have "\<forall>c \<in> set n. copied False c" using read_number_chars [OF assms] number_char_copied by blast
  then show "outer s = n @ outer r" using outer_copies s by blast
  show "reads_as d n (JNum n)" using read_number_self [OF assms] by (rule reads_as_number)
qed

lemma quoted_again:
  assumes "read_string s = Some (v, r)"
  obtains y where "outer (CHR 0x22 # s) = y @ outer r" "reads_as d y (JStr v)" "key_reads y v"
proof -
  obtain b where b: "inner s = b @ CHR 0x22 # outer r" "body_reads s b v" using string_again [OF assms] by blast
  let ?y = "CHR 0x22 # b @ [CHR 0x22]"
  have "reads_as d ?y (JStr v)"
    by (rule reads_asI) (simp add: skip_ws_id is_space_def body_readsD(1) [OF b(2)])
  moreover have "key_reads ?y v" using body_readsD(1) [OF b(2)] by (auto simp: key_reads_def)
  ultimately show thesis using that [of ?y] b(1) by (simp add: outer_quote)
qed

lemma mark_again:
  assumes "skip_ws s = c # cs" and "c \<in> set '',:[]{}''"
  shows "\<exists>w. spaces w \<and> outer s = w @ c # outer cs"
proof -
  have "outer (c # cs) = c # outer cs" using assms(2) by (intro outer_copy) (auto simp: copied_def is_space_def)
  then show ?thesis using outer_space [of s] assms(1) by auto
qed

text \<open>The same of the elements and the members in a list, and of a value.\<close>

definition again :: "(string \<Rightarrow> bool) \<Rightarrow> string \<Rightarrow> string \<Rightarrow> bool" where
  "again R s r \<longleftrightarrow> (\<exists>y. outer s = y @ outer r \<and> R y)"

lemma againI: "outer s = y @ outer r \<Longrightarrow> R y \<Longrightarrow> again R s r"
  by (auto simp: again_def)

lemma word_again:
  assumes "x \<in> {''true'', ''false'', ''null''}" and "v = (if x = ''null'' then JNull else JBool (x = ''true''))"
  shows "again (\<lambda>y. reads_as d y v) (x @ r) r"
proof (rule againI)
  have "\<forall>c \<in> set x. copied False c" using assms(1) by (auto simp: copied_def is_space_def)
  then show "outer (x @ r) = x @ outer r" by (rule outer_copies)
  show "reads_as d x v" using assms by (intro reads_asI) (auto simp: skip_ws_id is_space_def)
qed

lemma elements_again_step:
  assumes "again (\<lambda>y. reads_as d y v) s t" and "skip_ws t = c # cs"
  shows "c = CHR '']'' \<Longrightarrow> again (\<lambda>y. elements_read d y [v]) s cs"
    and "c = CHR '','' \<Longrightarrow> again (\<lambda>y. elements_read d y vs) cs r \<Longrightarrow> again (\<lambda>y. elements_read d y (v # vs)) s r"
proof -
  obtain y where y: "outer s = y @ outer t" "reads_as d y v" using assms(1) by (auto simp: again_def)
  show "again (\<lambda>y. elements_read d y [v]) s cs" if c: "c = CHR '']''"
  proof -
    obtain w where w: "spaces w" "outer t = w @ c # outer cs" using mark_again [OF assms(2)] c by auto
    show ?thesis using elements_read_step(1) [OF y(2) w(1)] y(1) w(2) c by (intro againI) auto
  qed
  show "again (\<lambda>y. elements_read d y (v # vs)) s r"
    if c: "c = CHR '',''" and rest: "again (\<lambda>y. elements_read d y vs) cs r"
  proof -
    obtain w where w: "spaces w" "outer t = w @ c # outer cs" using mark_again [OF assms(2)] c by auto
    obtain z where z: "outer cs = z @ outer r" "elements_read d z vs" using rest by (auto simp: again_def)
    show ?thesis using elements_read_step(2) [OF y(2) w(1) z(2)] y(1) w(2) z(1) c by (intro againI) auto
  qed
qed

lemma members_again_step:
  assumes "skip_ws s = CHR 0x22 # t0" and "read_string t0 = Some (k, t1)" and "skip_ws t1 = CHR '':'' # t2"
    and "again (\<lambda>y. reads_as d y v) t2 t" and "skip_ws t = c # cs"
  shows "c = CHR ''}'' \<Longrightarrow> again (\<lambda>y. members_read d y [(k, v)]) s cs"
    and "c = CHR '','' \<Longrightarrow> again (\<lambda>y. members_read d y ms) cs r \<Longrightarrow> again (\<lambda>y. members_read d y ((k, v) # ms)) s r"
proof -
  obtain u where u: "spaces u" "outer s = u @ outer (CHR 0x22 # t0)" using outer_space [of s] assms(1) by auto
  obtain x where x: "outer (CHR 0x22 # t0) = x @ outer t1" "key_reads x k" using quoted_again [OF assms(2)] by metis
  obtain u' where u': "spaces u'" "outer t1 = u' @ CHR '':'' # outer t2" using mark_again [OF assms(3)] by auto
  obtain y where y: "outer t2 = y @ outer t" "reads_as d y v" using assms(4) by (auto simp: again_def)
  have s: "outer s = u @ x @ u' @ CHR '':'' # y @ outer t" by (simp add: u(2) x(1) u'(2) y(1))
  show "again (\<lambda>y. members_read d y [(k, v)]) s cs" if c: "c = CHR ''}''"
  proof -
    obtain w where w: "spaces w" "outer t = w @ c # outer cs" using mark_again [OF assms(5)] c by auto
    show ?thesis using members_read_step(1) [OF u(1) x(2) u'(1) y(2) w(1)] s w(2) c by (intro againI) auto
  qed
  show "again (\<lambda>y. members_read d y ((k, v) # ms)) s r"
    if c: "c = CHR '',''" and rest: "again (\<lambda>y. members_read d y ms) cs r"
  proof -
    obtain w where w: "spaces w" "outer t = w @ c # outer cs" using mark_again [OF assms(5)] c by auto
    obtain z where z: "outer cs = z @ outer r" "members_read d z ms" using rest by (auto simp: again_def)
    show ?thesis using members_read_step(2) [OF u(1) x(2) u'(1) y(2) w(1) z(2)] s w(2) z(1) c by (intro againI) auto
  qed
qed

lemma container_again:
  assumes "d < max_depth"
  shows "again (\<lambda>y. elements_read (Suc d) y vs) cs r \<Longrightarrow> again (\<lambda>y. reads_as d y (JArr vs)) (CHR ''['' # cs) r"
    and "again (\<lambda>y. members_read (Suc d) y ms) cs r \<Longrightarrow> again (\<lambda>y. reads_as d y (JObj (map_of_members ms))) (CHR ''{'' # cs) r"
    and "skip_ws cs = CHR '']'' # r \<Longrightarrow> again (\<lambda>y. reads_as d y (JArr [])) (CHR ''['' # cs) r"
    and "skip_ws cs = CHR ''}'' # r \<Longrightarrow> again (\<lambda>y. reads_as d y (JObj [])) (CHR ''{'' # cs) r"
proof -
  have open_again: "outer (c # cs) = c # outer cs" if "c \<in> set ''[{''" for c
    using that by (intro outer_copy) (auto simp: copied_def is_space_def)
  show "again (\<lambda>y. reads_as d y (JArr vs)) (CHR ''['' # cs) r" if "again (\<lambda>y. elements_read (Suc d) y vs) cs r"
    using that open_again reads_as_brackets [OF _ assms] by (force simp: again_def)
  show "again (\<lambda>y. reads_as d y (JObj (map_of_members ms))) (CHR ''{'' # cs) r" if "again (\<lambda>y. members_read (Suc d) y ms) cs r"
    using that open_again reads_as_braces [OF _ assms] by (force simp: again_def)
  show "again (\<lambda>y. reads_as d y (JArr [])) (CHR ''['' # cs) r" if r: "skip_ws cs = CHR '']'' # r"
  proof -
    obtain w where "spaces w" "outer cs = w @ CHR '']'' # outer r" using mark_again [OF r] by auto
    then show ?thesis using open_again [of "CHR ''[''"] reads_as_empty(1) [OF _ assms] by (force simp: again_def)
  qed
  show "again (\<lambda>y. reads_as d y (JObj [])) (CHR ''{'' # cs) r" if r: "skip_ws cs = CHR ''}'' # r"
  proof -
    obtain w where "spaces w" "outer cs = w @ CHR ''}'' # outer r" using mark_again [OF r] by auto
    then show ?thesis using open_again [of "CHR ''{''"] reads_as_empty(2) [OF _ assms] by (force simp: again_def)
  qed
qed

theorem values_again:
  "pval f d s = Some (v, r) \<Longrightarrow> again (\<lambda>y. reads_as d y v) s r"
  "pelems f d s = Some (vs, r) \<Longrightarrow> again (\<lambda>y. elements_read d y vs) s r"
  "pmembers f d s = Some (ms, r) \<Longrightarrow> again (\<lambda>y. members_read d y ms) s r"
proof (induction f d s and f d s and f d s arbitrary: v r and vs r and ms r rule: pval_pelems_pmembers.induct)
  case (2 f d s)
  from "2.prems" obtain c cs where s: "skip_ws s = c # cs" by (auto split: list.splits)
  have "again (\<lambda>y. reads_as d y v) (c # cs) r"
  proof -
    consider (obj) "c = CHR ''{''" | (arr) "c = CHR ''[''" | (str) "c = CHR 0x22" | (t) "c = CHR ''t''"
      | (f) "c = CHR ''f''" | (n) "c = CHR ''n''" | (num) "c \<notin> {CHR ''{'', CHR ''['', CHR 0x22, CHR ''t'', CHR ''f'', CHR ''n''}"
      by blast
    then show ?thesis
    proof cases
      case obj
      with "2.prems" s have d: "d < max_depth" by (auto split: if_splits)
      show ?thesis
      proof (cases "strip_prefix ''}'' (skip_ws cs)")
        case None
        with "2.prems" s obj d obtain ms where "pmembers f (Suc d) cs = Some (ms, r)" "v = JObj (map_of_members ms)" by auto
        with "2.IH"(1) [OF s obj] None d show ?thesis by (simp add: obj container_again(2))
      qed (use "2.prems" s obj d container_again(4) in \<open>auto simp: strip_prefix_eq\<close>)
    next
      case arr
      with "2.prems" s have d: "d < max_depth" by (auto split: if_splits)
      show ?thesis
      proof (cases "strip_prefix '']'' (skip_ws cs)")
        case None
        with "2.prems" s arr d obtain vs where "pelems f (Suc d) cs = Some (vs, r)" "v = JArr vs" by auto
        with "2.IH"(2) [OF s _ arr] None d arr show ?thesis by (simp add: container_again(1))
      qed (use "2.prems" s arr d container_again(3) in \<open>auto simp: strip_prefix_eq\<close>)
    next
      case str
      with "2.prems" s obtain k where k: "read_string cs = Some (k, r)" "v = JStr k" by auto
      from quoted_again [OF k(1)] show ?thesis using k(2) str by (metis againI)
    next
      case num
      with "2.prems" s obtain k where k: "read_number (c # cs) = Some (k, r)" "v = JNum k" by auto
      from number_again [OF k(1)] show ?thesis using k(2) by (metis againI)
    qed (use "2.prems" s word_again [of "''true''" v d r] word_again [of "''false''" v d r]
        word_again [of "''null''" v d r] in \<open>auto simp: strip_prefix_eq\<close>)
  qed
  then obtain y where y: "outer (skip_ws s) = y @ outer r" "reads_as d y v" by (auto simp: s again_def)
  obtain w where w: "spaces w" "outer s = w @ outer (skip_ws s)" using outer_space by blast
  show ?case using reads_as_spaces [OF w(1) y(2)] w(2) y(1) by (intro againI) auto
next
  case (4 f d s)
  from "4.prems" obtain v' r' where p: "pval f d s = Some (v', r')" by (auto split: option.splits)
  from "4.prems" p obtain c cs where w: "skip_ws r' = c # cs" by (auto split: list.splits)
  show ?case
    using "4.prems" p w "4.IH"(2) [OF p refl w] elements_again_step [OF "4.IH"(1) [OF p] w] by (auto split: if_splits)
next
  case (6 f d s)
  from "6.prems" obtain t where t: "strip_prefix [CHR 0x22] (skip_ws s) = Some t" by (auto split: option.splits)
  from "6.prems" t obtain k t1 where k: "read_string t = Some (k, t1)" by (auto split: option.splits)
  from "6.prems" t k obtain t2 where t2: "strip_prefix '':'' (skip_ws t1) = Some t2" by (auto split: option.splits)
  from "6.prems" t k t2 obtain v' r' where p: "pval f d t2 = Some (v', r')" by (auto split: option.splits)
  from "6.prems" t k t2 p obtain c cs where w: "skip_ws r' = c # cs" by (auto split: list.splits)
  have marks: "skip_ws s = CHR 0x22 # t" "skip_ws t1 = CHR '':'' # t2" using t t2 by (simp_all add: strip_prefix_eq)
  show ?case
    using "6.prems" t k t2 p w "6.IH"(2) [OF t k refl t2 p refl w]
      members_again_step [OF marks(1) k marks(2) "6.IH"(1) [OF t k refl t2 p] w] by (auto split: if_splits)
qed auto

lemma value_again:
  assumes "pval f d s = Some (v, r)"
  obtains y where "outer s = y @ outer r" "reads_as d y v"
  using values_again(1) [OF assms] by (auto simp: again_def)

end

interpretation verbatim: text_image "\<lambda>s. s" "\<lambda>s. s"
proof
  fix s :: string
  have "\<forall>c \<in> set (takeWhile is_space s). is_space c" by (auto dest: set_takeWhileD)
  moreover have "s = takeWhile is_space s @ skip_ws s" by (simp add: skip_ws_def)
  ultimately show "\<exists>w. (\<forall>c \<in> set w. is_space c) \<and> s = w @ skip_ws s" by blast
next
  fix c s
  assume "utf8_width (c # s) \<noteq> 0" "c \<noteq> CHR 0x22" "c \<noteq> CHR 0x5C" "32 \<le> (of_char c :: nat)"
  then have "rune_reads (utf8_width (c # s)) (c # s) (take (utf8_width (c # s)) (c # s))" by (rule rune_reads_verbatim)
  then show "\<exists>x. c # s = x @ drop (utf8_width (c # s)) (c # s) \<and> rune_reads (utf8_width (c # s)) (c # s) x"
    by (metis append_take_drop_id)
qed simp_all

end
