(* ===== verification/Compaction.thy ===== *)
theory Compaction
  imports Raw_Json Text_Image
begin

section \<open>Raw JSON keeps its value\<close>

text \<open>
  \<open>compact\<close>, the writer of raw messages, meets the contract of \<open>Text_Image\<close>: a raw message reads as the
  same value after \<open>json.Marshal\<close> as before (\<open>raw_marshal_reads\<close>). The text of a value that
  \<open>json.RawMessage\<close> cuts out of a document reads as that value (\<open>value_text_whole\<close>).
\<close>

lemma separator_texts: "utf8_encode 8232 = [CHR 0xE2, CHR 0x80, CHR 0xA8]" "utf8_encode 8233 = [CHR 0xE2, CHR 0x80, CHR 0xA9]"
  by (simp_all add: utf8_encode_def char_of_eq_char)

lemma separator_head: "(of_char c :: nat) \<noteq> 226 \<Longrightarrow> take 3 (c # cs) \<noteq> utf8_encode 8232 \<and> take 3 (c # cs) \<noteq> utf8_encode 8233"
  by (auto simp: separator_texts)

lemma compact_copy: "copied q c \<Longrightarrow> compact q (c # cs) = c # compact q cs"
  using separator_head [of c cs] by (auto simp: copied_def)

lemma compact_copies: "\<forall>c \<in> set p. copied q c \<Longrightarrow> compact q (p @ s) = p @ compact q s"
  by (induction p) (simp_all add: compact_copy del: compact.simps(2))

lemma compact_skip_ws: "compact False (skip_ws s) = compact False s"
proof (induction s)
  case (Cons c cs)
  show ?case
  proof (cases "is_space c")
    case True
    then have "(of_char c :: nat) \<noteq> 226" "c \<notin> {CHR ''<'', CHR ''>'', CHR ''&'', CHR 0x22}" by (auto simp: is_space_def)
    with Cons True separator_head [of c cs] show ?thesis by (simp add: skip_ws_def)
  qed (simp add: skip_ws_def del: compact.simps)
qed (simp add: skip_ws_def)

lemma compact_quote: "compact q (CHR 0x22 # cs) = CHR 0x22 # compact (\<not> q) cs"
  using separator_head [of "CHR 0x22" cs] by (simp add: is_space_def)

lemma compact_escaped: "compact True (CHR 0x5C # e # cs) = CHR 0x5C # e # compact True cs"
  using separator_head [of "CHR 0x5C" "e # cs"] by simp

lemma rune_reads_escape:
  assumes "m < 55296" and "take w s = utf8_encode m"
  shows "rune_reads w s (u_escape m)"
  unfolding rune_reads_def
proof (intro allI conjI)
  show "read_string (u_escape m @ t) = prepend (take w s) (read_string t)" for t
    using assms by (simp add: read_string_u_escape)
  show "takeWhile cont (u_escape m @ t) = []" for t by (simp add: u_escape_def cont_def)
  show "surrogate_pair n (u_escape m @ t) = None" for n t
    using assms(1) hex4_u_escape [of m t] by (simp add: u_escape_def surrogate_pair_def)
qed

lemma compact_rune:
  assumes "utf8_width (c # cs) \<noteq> 0" and "c \<noteq> CHR 0x22" and "c \<noteq> CHR 0x5C" and "32 \<le> (of_char c :: nat)"
  shows "\<exists>x. compact True (c # cs) = x @ compact True (drop (utf8_width (c # cs)) (c # cs))
    \<and> rune_reads (utf8_width (c # cs)) (c # cs) x"
proof -
  let ?w = "utf8_width (c # cs)" and ?s = "c # cs"
  consider (escaped) "c \<in> {CHR ''<'', CHR ''>'', CHR ''&''}" | (separator) m where "m = 8232 \<or> m = 8233" "take 3 ?s = utf8_encode m"
    | (plain) "c \<notin> {CHR ''<'', CHR ''>'', CHR ''&''}" "take 3 ?s \<noteq> utf8_encode 8232" "take 3 ?s \<noteq> utf8_encode 8233"
    by blast
  then show ?thesis
  proof cases
    case escaped
    then have c: "(of_char c :: nat) < 128" by auto
    then have w: "?w = 1" by (simp only: utf8_width_1)
    with c have "rune_reads ?w ?s (u_escape (of_char c))" by (intro rune_reads_escape) (simp_all add: utf8_encode_def)
    then show ?thesis using escaped w by (intro exI [of _ "u_escape (of_char c)"]) auto
  next
    case separator
    have "utf8_width (utf8_encode m @ drop 3 ?s) = 3"
      using separator(1) utf8_encode_width [of m "drop 3 ?s"] by (auto simp: separator_texts)
    then have w: "?w = 3" using separator(2) by (metis append_take_drop_id)
    have "c = CHR 0xE2" using separator by (auto simp: separator_texts)
    then have "compact True ?s = u_escape m @ compact True (drop 3 ?s)" using separator by (auto simp: separator_texts)
    moreover have "rune_reads ?w ?s (u_escape m)" using separator w by (intro rune_reads_escape) auto
    ultimately show ?thesis using w by auto
  next
    case plain
    obtain k where k: "?w = Suc k" using assms(1) by (cases ?w) auto
    have "\<forall>b \<in> set (take k cs). copied True b"
      using utf8_width_tail [of c cs] k copied_continuation by (cases k) auto
    then have "compact True (take k cs @ drop k cs) = take k cs @ compact True (drop k cs)" by (rule compact_copies)
    then have "compact True ?s = take ?w ?s @ compact True (drop ?w ?s)" using plain assms(2,3) k by simp
    then show ?thesis using rune_reads_verbatim [OF assms] by blast
  qed
qed

interpretation compacted: text_image "compact True" "compact False"
proof
  fix s :: string
  show "\<exists>w. (\<forall>c \<in> set w. is_space c) \<and> compact False s = w @ compact False (skip_ws s)"
    by (intro exI [of _ "[]"]) (simp add: compact_skip_ws)
next
  fix c s
  assume bad: "utf8_width (c # s) = 0"
  have "take 3 (c # s) \<noteq> utf8_encode m" if "m = 8232 \<or> m = 8233" for m
  proof
    assume "take 3 (c # s) = utf8_encode m"
    then have "utf8_width (utf8_encode m @ drop 3 (c # s)) = 0" using bad by (metis append_take_drop_id)
    then show False using that utf8_encode_width [of m "drop 3 (c # s)"] by (auto simp: separator_texts)
  qed
  then have "take 3 (c # s) \<noteq> utf8_encode 8232" "take 3 (c # s) \<noteq> utf8_encode 8233" by blast+
  moreover have "c \<notin> {CHR ''<'', CHR ''>'', CHR ''&'', CHR 0x22, CHR 0x5C}" using bad utf8_width_1 [of c s] by auto
  ultimately show "compact True (c # s) = c # compact True s" by (simp del: take_Suc_Cons)
qed (simp_all only: compact_quote not_True_eq_False not_False_eq_True compact_escaped compact_copy compact_rune)

subsection \<open>Whole values\<close>

text \<open>A message with nothing but a value in it, readable below \<open>d\<close> open containers.\<close>

definition reads_whole :: "nat \<Rightarrow> bytes \<Rightarrow> json \<Rightarrow> bool" where
  "reads_whole d m v \<longleftrightarrow> (\<exists>r. pval (Suc (2 * length m)) d m = Some (v, r) \<and> skip_ws r = [])"

lemma whole_value_iff: "whole_value m = Some v \<longleftrightarrow> reads_whole 0 m v"
  by (auto simp: whole_value_def reads_whole_def split: option.splits)

lemma reads_whole_wf: "reads_whole d m v \<Longrightarrow> json_wf v d"
  unfolding reads_whole_def using pval_wf(1) by blast

lemma reads_as_whole: "reads_as d y v \<Longrightarrow> reads_whole d y v"
  using reads_asD [of d y v "[]" "Suc (2 * length y)"] by (auto simp: reads_whole_def follows_def number_stop_def skip_ws_def)

text \<open>Fewer open containers do not hurt, nor do more around a text too short to reach the limit.\<close>

lemma pval_depth:
  "pval f d s = Some p \<Longrightarrow> d' \<le> d \<or> d' + length s \<le> max_depth \<Longrightarrow> pval f d' s = Some p"
  "pelems f d s = Some q \<Longrightarrow> d' \<le> d \<or> d' + length s \<le> max_depth \<Longrightarrow> pelems f d' s = Some q"
  "pmembers f d s = Some u \<Longrightarrow> d' \<le> d \<or> d' + length s \<le> max_depth \<Longrightarrow> pmembers f d' s = Some u"
proof (induction f d s and f d s and f d s arbitrary: p d' and q d' and u d' rule: pval_pelems_pmembers.induct)
  case (2 f d s)
  from "2.prems"(1) obtain c cs where s: "skip_ws s = c # cs" by (auto split: list.splits)
  have len: "Suc (length cs) \<le> length s" using skip_ws_Cons_length [OF s] by simp
  have up: "Suc d' \<le> Suc d \<or> Suc d' + length cs \<le> max_depth" "d < max_depth \<Longrightarrow> d' < max_depth"
    using "2.prems"(2) len by auto
  consider (obj) "c = CHR ''{''" | (arr) "c = CHR ''[''" | (other) "c \<noteq> CHR ''{''" "c \<noteq> CHR ''[''" by blast
  then show ?case
  proof cases
    case obj
    with "2.prems"(1) s have d: "d < max_depth" by (auto split: if_splits)
    show ?thesis
    proof (cases "strip_prefix ''}'' (skip_ws cs)")
      case None
      with "2.prems"(1) s obj d obtain u where u: "pmembers f (Suc d) cs = Some u" "p = map_prod (\<lambda>ms. JObj (map_of_members ms)) id u"
        by auto
      then show ?thesis using "2.IH"(1) [OF s obj _ None u(1) up(1)] up(2) [OF d] d None s obj by simp
    qed (use "2.prems"(1) up(2) [OF d] d s obj in auto)
  next
    case arr
    with "2.prems"(1) s have d: "d < max_depth" by (auto split: if_splits)
    show ?thesis
    proof (cases "strip_prefix '']'' (skip_ws cs)")
      case None
      with "2.prems"(1) s arr d obtain q where q: "pelems f (Suc d) cs = Some q" "p = map_prod JArr id q" by auto
      then show ?thesis using "2.IH"(2) [OF s _ arr _ None q(1) up(1)] up(2) [OF d] d None s arr by simp
    qed (use "2.prems"(1) up(2) [OF d] d s arr in auto)
  next
    case other
    with "2.prems"(1) s show ?thesis by simp
  qed
next
  case (4 f d s)
  from "4.prems"(1) obtain v r where p: "pval f d s = Some (v, r)" by (auto split: option.splits)
  from "4.prems"(1) p obtain c cs where w: "skip_ws r = c # cs" by (auto split: list.splits)
  have less: "d' \<le> d \<or> d' + length cs \<le> max_depth"
    using "4.prems"(2) pval_length(1) [OF p] skip_ws_Cons_length [OF w] by auto
  show ?case
  proof (cases "c = CHR '']''")
    case False
    with "4.prems"(1) p w obtain q' where q': "c = CHR '',''" "pelems f d cs = Some q'" "q = map_prod ((#) v) id q'"
      by (auto split: if_splits)
    then show ?thesis using "4.IH"(1) [OF p "4.prems"(2)] "4.IH"(2) [OF p refl w False q'(1,2) less] w by simp
  qed (use "4.prems" "4.IH"(1) [OF p "4.prems"(2)] p w in auto)
next
  case (6 f d s)
  from "6.prems"(1) obtain t where t: "strip_prefix [CHR 0x22] (skip_ws s) = Some t" by (auto split: option.splits)
  from "6.prems"(1) t obtain k t1 where k: "read_string t = Some (k, t1)" by (auto split: option.splits)
  from "6.prems"(1) t k obtain t2 where t2: "strip_prefix '':'' (skip_ws t1) = Some t2" by (auto split: option.splits)
  from "6.prems"(1) t k t2 obtain v r where p: "pval f d t2 = Some (v, r)" by (auto split: option.splits)
  from "6.prems"(1) t k t2 p obtain c cs where w: "skip_ws r = c # cs" by (auto split: list.splits)
  have l2: "length t2 < length s"
    using read_lengths(2) [OF t] read_lengths(2) [OF t2] read_lengths(4) [OF k] by simp
  have less2: "d' \<le> d \<or> d' + length t2 \<le> max_depth" using "6.prems"(2) l2 by auto
  have less: "d' \<le> d \<or> d' + length cs \<le> max_depth"
    using less2 pval_length(1) [OF p] skip_ws_Cons_length [OF w] by auto
  note v = "6.IH"(1) [OF t k refl t2 p less2]
  show ?case
  proof (cases "c = CHR ''}''")
    case False
    with "6.prems"(1) t k t2 p w obtain u' where u': "c = CHR '',''" "pmembers f d cs = Some u'" "u = map_prod ((#) (k, v)) id u'"
      by (auto split: if_splits)
    then show ?thesis using v "6.IH"(2) [OF t k refl t2 p refl w False u'(1,2) less] t k t2 w by simp
  qed (use "6.prems"(1) v t k t2 p w in auto)
qed auto

lemma reads_whole_depth: "reads_whole d m v \<Longrightarrow> d' \<le> d \<or> d' + length m \<le> max_depth \<Longrightarrow> reads_whole d' m v"
  unfolding reads_whole_def using pval_depth(1) by blast

text \<open>A raw message is written with the value it was read with, wherever it is put.\<close>

lemma compact_whole:
  assumes "reads_whole d m v"
  shows "reads_as d (compact False m) v"
proof -
  obtain r where r: "pval (Suc (2 * length m)) d m = Some (v, r)" "skip_ws r = []" using assms by (auto simp: reads_whole_def)
  have "compact False r = []" using compact_skip_ws [of r] r(2) by simp
  with compacted.value_again [OF r(1)] show ?thesis by auto
qed

lemma raw_marshal_reads:
  assumes "reads_whole d m v"
  shows "raw_marshal m = Inr (compact False m)" and "reads_as d (compact False m) v"
  using reads_whole_depth [OF assms, of 0] compact_whole [OF assms] by (auto simp: raw_marshal_def simp flip: whole_value_iff)

text \<open>The text that is cut out for a value.\<close>

lemma value_text_whole:
  assumes "pval f d s = Some (v, r)" and "2 * length s < f"
  obtains x where "value_text d s = Some (x, r)" "reads_whole d x v"
proof -
  have p: "pval (Suc (2 * length s)) d s = Some (v, r)" using pval_fuel [OF assms(2)] assms(1) by simp
  then have "pval (Suc (2 * length s)) d (skip_ws s) = Some (v, r)" by (simp add: skip_ws_def)
  then obtain y where "skip_ws s = y @ r" "reads_as d y v" by (rule verbatim.value_again)
  with p that [of y] show thesis by (simp add: value_text_def reads_as_whole)
qed

subsection \<open>Objects of raw members\<close>

text \<open>A decoded map of raw messages and the object it was decoded from: the same keys, and each text
  reads as the member's value below \<open>d\<close> open containers.\<close>

definition raw_member :: "nat \<Rightarrow> string \<times> bytes \<Rightarrow> string \<times> json \<Rightarrow> bool" where
  "raw_member d p q \<longleftrightarrow> fst p = fst q \<and> reads_whole d (snd p) (snd q)"

lemma raw_member_pair [simp]: "raw_member d (k, x) (k', v) \<longleftrightarrow> k = k' \<and> reads_whole d x v"
  by (simp add: raw_member_def)

lemma raw_memberD: "raw_member d p q \<Longrightarrow> fst p = fst q \<and> reads_whole d (snd p) (snd q)"
  by (simp add: raw_member_def)

abbreviation raw_object :: "nat \<Rightarrow> (string \<times> bytes) list \<Rightarrow> (string \<times> json) list \<Rightarrow> bool" where
  "raw_object d \<equiv> list_all2 (raw_member d)"

lemma raw_object_put:
  "raw_object d ps ms \<Longrightarrow> reads_whole d x v \<Longrightarrow> raw_object d (map_put k x ps) (map_put k v ms)"
  by (induction rule: list_all2_induct) (auto dest: raw_memberD)

lemma raw_object_keys: "raw_object d ps ms \<Longrightarrow> map fst ps = map fst ms"
  by (induction rule: list_all2_induct) (auto dest: raw_memberD)

lemma raw_object_get:
  "raw_object d ps ms \<Longrightarrow> map_get ps k = Some x \<Longrightarrow> \<exists>v. map_get ms k = Some v \<and> reads_whole d x v"
  by (induction rule: list_all2_induct) (auto simp: map_get_def dest: raw_memberD split: if_splits)

lemma raw_object_members:
  assumes "raw_object d ps ms"
  shows "raw_object d (map_of_members ps) (map_of_members ms)"
proof -
  have "raw_object d (fold (\<lambda>(k, v). map_put k v) ps a) (fold (\<lambda>(k, v). map_put k v) ms b)" if "raw_object d a b" for a b
    using assms that
  proof (induction arbitrary: a b rule: list_all2_induct)
    case (Cons p ps q ms)
    then show ?case by (auto simp: split_beta raw_object_put dest!: raw_memberD)
  qed simp
  from this [of "[]" "[]"] show ?thesis by (simp add: map_of_members_def)
qed

lemma raw_members_reads:
  assumes "pmembers f (Suc d) s = Some (ms, r)" and "Suc (2 * length s) < f" and "length s < g"
  shows "\<exists>ps. raw_members g s = Some ps \<and> raw_object (Suc d) ps ms"
  using assms
proof (induction g arbitrary: s f ms)
  case (Suc g)
  obtain f' where f: "f = Suc f'" using Suc.prems(2) by (cases f) auto
  from Suc.prems(1) f obtain t where t: "strip_prefix [CHR 0x22] (skip_ws s) = Some t" by (auto split: option.splits)
  from Suc.prems(1) f t obtain k t1 where k: "read_string t = Some (k, t1)" by (auto split: option.splits)
  from Suc.prems(1) f t k obtain t2 where t2: "strip_prefix '':'' (skip_ws t1) = Some t2" by (auto split: option.splits)
  from Suc.prems(1) f t k t2 obtain v u where p: "pval f' (Suc d) t2 = Some (v, u)" by (auto split: option.splits)
  from Suc.prems(1) f t k t2 p obtain c cs where w: "skip_ws u = c # cs" by (auto split: list.splits)
  have l2: "length t2 < length s"
    using read_lengths(2) [OF t] read_lengths(2) [OF t2] read_lengths(4) [OF k] by simp
  have lc: "length cs < length t2" using pval_length(1) [OF p] skip_ws_Cons_length [OF w] by simp
  have f': "2 * length t2 < f'" using l2 Suc.prems(2) f by simp
  obtain x where x: "value_text (Suc d) t2 = Some (x, u)" "reads_whole (Suc d) x v"
    using value_text_whole [OF p f'] by metis
  have "pval f' 1 t2 = Some (v, u)" using pval_depth(1) [OF p] by simp
  with x(1) f' have one: "value_text 1 t2 = Some (x, u)"
    using p pval_fuel [of t2 f' "Suc d"] pval_fuel [of t2 f' 1] by (simp add: value_text_def)
  show ?case
  proof (cases "c = CHR ''}''")
    case True
    with Suc.prems(1) f t k t2 p w have "ms = [(k, v)]" by simp
    with True show ?thesis using t k t2 w x(2) one by simp
  next
    case False
    with Suc.prems(1) f t k t2 p w obtain ms' where ms': "c = CHR '',''" "pmembers f' (Suc d) cs = Some (ms', r)" "ms = (k, v) # ms'"
      by (auto split: if_splits)
    obtain ps where "raw_members g cs = Some ps" "raw_object (Suc d) ps ms'"
      using Suc.IH [OF ms'(2)] lc l2 Suc.prems(2,3) f by auto
    then show ?thesis using ms' t k t2 w x(2) one by simp
  qed
qed simp

lemma unmarshal_raw_reads:
  assumes "reads_whole d s (JObj ms)"
  shows "\<exists>ps. unmarshal_raw_map s = Inr (Some ps) \<and> raw_object (Suc d) ps ms"
proof -
  have whole: "whole_value s = Some (JObj ms)" using reads_whole_depth [OF assms, of 0] by (simp add: whole_value_iff)
  show ?thesis
  proof (cases "ms = []")
    case False
    obtain r where p: "pval (Suc (2 * length s)) d s = Some (JObj ms, r)" using assms by (auto simp: reads_whole_def)
    then obtain c cs where s: "skip_ws s = c # cs" by (auto split: list.splits)
    with p False obtain ms0 where ms0: "pmembers (2 * length s) (Suc d) cs = Some (ms0, r)" "ms = map_of_members ms0"
      by (auto split: if_splits option.splits)
    have "length cs < length s" using skip_ws_Cons_length [OF s] .
    with raw_members_reads [OF ms0(1), of "Suc (length s)"] obtain ps where
      "raw_members (Suc (length s)) cs = Some ps" "raw_object (Suc d) ps ms0" by auto
    then show ?thesis
      using whole False s ms0(2) raw_object_members [of "Suc d" ps ms0] by (simp add: unmarshal_raw_map_def)
  qed (use whole in \<open>simp add: unmarshal_raw_map_def\<close>)
qed

text \<open>A map of raw messages is written as the object it stands for.\<close>

lemma raw_texts_reads:
  "raw_object d ps ms \<Longrightarrow>
   raw_texts ps = Inr (map (\<lambda>p. quoted (fst p) @ CHR '':'' # compact False (snd p)) ps)"
  by (induction rule: list_all2_induct) (auto simp: raw_marshal_reads)

lemma marshal_raw_reads:
  assumes "raw_object (Suc d) ps ms" and "\<forall>m \<in> set ms. valid_utf8 (fst m)" and "sorted_keys ms" and "d < max_depth"
  obtains t where "marshal_raw_map (Some ps) = Inr t" "reads_as d t (JObj ms)"
proof -
  let ?es = "map (\<lambda>(p, q). (fst p, compact False (snd p), snd q)) (zip ps ms)"
  have len: "length ps = length ms" using assms(1) by (rule list_all2_lengthD)
  have "entry_reads (Suc d) (fst p, compact False (snd p), snd q)" if "(p, q) \<in> set (zip ps ms)" for p q
  proof -
    have "raw_member (Suc d) p q" using assms(1) that by (auto simp: list_all2_iff)
    moreover have "valid_utf8 (fst q)" using assms(2) set_zip_rightD [OF that] by blast
    ultimately show ?thesis by (auto simp: entry_reads_def compact_whole dest: raw_memberD)
  qed
  then have "\<forall>e \<in> set ?es. entry_reads (Suc d) e" by auto
  from reads_as_object [OF this assms(4)]
  have "reads_as d (CHR ''{'' # commas (map entry_string ?es) @ ''}'') (JObj (map_of_members (map entry_value ?es)))" .
  moreover have "map entry_string ?es = map (\<lambda>p. quoted (fst p) @ CHR '':'' # compact False (snd p)) ps"
    by (rule nth_equalityI) (simp_all add: len)
  moreover have "map entry_value ?es = ms"
    using assms(1) by (intro nth_equalityI) (simp_all add: len list_all2_conv_all_nth raw_member_def prod_eq_iff)
  ultimately show thesis
    using that raw_texts_reads [OF assms(1)] by (simp add: marshal_raw_map_def map_of_members_sorted [OF assms(3)])
qed

end
