(* ===== verification/Redaction.thy ===== *)
theory Redaction
  imports Compaction Canonical
begin

section \<open>Redaction\<close>

text \<open>
  \<open>ApplyRedactions\<close> of \<^verbatim>\<open>steps/public_receipt.go\<close>: top-level fields of a payload are replaced by the
  pseudonyms \<open>contributor_1\<close>, \<open>contributor_2\<close> and so on, equal values by the same one.
\<close>

record redaction =
  rd_obj :: "(string \<times> bytes) list"
  rd_map :: "(string \<times> string) list"
  rd_seen :: "(bytes \<times> string) list"
  rd_counter :: nat

text \<open>\<open>strconv.Quote\<close> of a pseudonym, which has printable ASCII characters only.\<close>

definition go_quote :: "string \<Rightarrow> string" where
  "go_quote s = CHR 0x22 # s @ [CHR 0x22]"

definition pseudonym :: "nat \<Rightarrow> string" where
  "pseudonym n = ''contributor_'' @ format_nat n"

definition redact_field :: "string \<Rightarrow> redaction \<Rightarrow> redaction" where
  "redact_field field st =
     (case map_get (rd_obj st) field of
        None \<Rightarrow> st
      | Some raw \<Rightarrow>
          (case map_get (rd_seen st) raw of
             Some p \<Rightarrow>
               st\<lparr>rd_map := map_put field p (rd_map st), rd_obj := map_put field (go_quote p) (rd_obj st)\<rparr>
           | None \<Rightarrow>
               let p = pseudonym (rd_counter st)
               in st\<lparr>rd_seen := map_put raw p (rd_seen st), rd_counter := Suc (rd_counter st),
                     rd_map := map_put field p (rd_map st), rd_obj := map_put field (go_quote p) (rd_obj st)\<rparr>))"

definition redact_all :: "string list \<Rightarrow> (string \<times> bytes) list \<Rightarrow> redaction" where
  "redact_all redactFields obj = fold redact_field redactFields \<lparr>rd_obj = obj, rd_map = [], rd_seen = [], rd_counter = 1\<rparr>"

text \<open>A nil map has no fields to replace. The second result is \<open>None\<close> where the code returns nil.\<close>

definition ApplyRedactions :: "bytes \<Rightarrow> string list \<Rightarrow> (bytes \<times> (string \<times> string) list option) result" where
  "ApplyRedactions payload redactFields =
     (if redactFields = [] \<or> payload = [] then Inr (payload, None)
      else case unmarshal_raw_map payload of
             Inl e \<Rightarrow> Inl (Errorf ''unmarshal payload: %w'' [ArgE e])
           | Inr obj \<Rightarrow>
               let st = redact_all redactFields (case obj of None \<Rightarrow> [] | Some ps \<Rightarrow> ps)
               in case marshal_raw_map (map_option (\<lambda>ps. rd_obj st) obj) of
                    Inl e \<Rightarrow> Inl (Errorf ''marshal redacted payload: %w'' [ArgE e])
                  | Inr redacted \<Rightarrow> Inr (redacted, Some (rd_map st)))"

subsection \<open>Pseudonyms\<close>

lemma format_nat_inj: "format_nat m = format_nat n \<Longrightarrow> m = n"
proof (induction m arbitrary: n rule: format_nat.induct)
  case (1 m)
  have digits: "format_nat k = (if k < 10 then [] else format_nat (k div 10)) @ [digit_char (k mod 10)]" for k
    by (subst format_nat.simps) simp
  have ne: "format_nat k \<noteq> []" for k by (subst digits) simp
  have "digit_char (m mod 10) = digit_char (n mod 10)"
    and up: "(if m < 10 then [] else format_nat (m div 10)) = (if n < 10 then [] else format_nat (n div 10))"
    using "1.prems" digits [of m] digits [of n] by (simp_all only: append1_eq_conv)
  then have last: "m mod 10 = n mod 10"
    by (simp add: digit_char_def char_of_nat_eq_iff)
  show ?case
  proof (cases "m < 10")
    case True
    with up ne have "n < 10" by metis
    with True last show ?thesis by simp
  next
    case False
    with up ne have "\<not> n < 10" "format_nat (m div 10) = format_nat (n div 10)" by metis+
    with "1.IH" [OF False] last show ?thesis by (metis div_mult_mod_eq)
  qed
qed

lemma pseudonym_inj: "pseudonym m = pseudonym n \<longleftrightarrow> m = n"
  by (auto simp: pseudonym_def dest: format_nat_inj)

subsection \<open>The loop\<close>

text \<open>The state after a list \<open>ps\<close> of distinct fields of \<open>obj\<close>.\<close>

definition redacted :: "(string \<times> bytes) list \<Rightarrow> string set \<Rightarrow> redaction \<Rightarrow> bool" where
  "redacted obj P st \<longleftrightarrow>
     sorted_keys (rd_obj st) \<and> sorted_keys (rd_map st) \<and> sorted_keys (rd_seen st)
   \<and> map fst (rd_obj st) = map fst obj
   \<and> (\<forall>f. map_get (rd_map st) f = (if f \<in> P then Option.bind (map_get obj f) (map_get (rd_seen st)) else None))
   \<and> (\<forall>f. f \<in> P \<longrightarrow> map_get obj f \<noteq> None \<longrightarrow> map_get (rd_map st) f \<noteq> None)
   \<and> (\<forall>f. map_get (rd_obj st) f = (if f \<in> P then map_option go_quote (map_get (rd_map st) f) else map_get obj f))
   \<and> (\<forall>raw p. map_get (rd_seen st) raw = Some p \<longrightarrow> (\<exists>k < rd_counter st. p = pseudonym k))
   \<and> (\<forall>r s p. map_get (rd_seen st) r = Some p \<and> map_get (rd_seen st) s = Some p \<longrightarrow> r = s)"

lemma map_fst_map_put: "sorted_keys ps \<Longrightarrow> map_get ps k \<noteq> None \<Longrightarrow> map fst (map_put k v ps) = map fst ps"
proof (induction ps)
  case (Cons p ps)
  show ?case
  proof (cases "fst p = k")
    case False
    with Cons.prems have "map_get ps k \<noteq> None" by (auto simp: map_get_def split: if_splits)
    then have "k \<in> fst ` set ps" by (auto simp: map_get_def dest: map_of_SomeD intro: rev_image_eqI)
    then have "fst p < k" using Cons.prems(1) by (auto simp: sorted_keys_Cons)
    with Cons False \<open>map_get ps k \<noteq> None\<close> show ?thesis by (simp add: sorted_keys_Cons)
  qed simp
qed (simp add: map_get_def)

lemma redacted_field:
  assumes inv: "redacted obj P st" and "f \<notin> P"
  shows "redacted obj (insert f P) (redact_field f st)"
proof (cases "map_get obj f")
  case None
  then have "redact_field f st = st" using inv assms(2) by (simp add: redacted_def redact_field_def)
  moreover have "map_get (rd_map st) f = None" using inv assms(2) by (simp add: redacted_def)
  ultimately show ?thesis using inv None unfolding redacted_def by auto
next
  case (Some raw)
  have sorted: "sorted_keys (rd_obj st)" "sorted_keys (rd_map st)" "sorted_keys (rd_seen st)"
    and obj: "map_get (rd_obj st) f = Some raw" using inv assms(2) Some by (simp_all add: redacted_def)
  have facts: "map fst (rd_obj st) = map fst obj"
    "\<And>g. map_get (rd_map st) g = (if g \<in> P then Option.bind (map_get obj g) (map_get (rd_seen st)) else None)"
    "\<And>g. g \<in> P \<Longrightarrow> map_get obj g \<noteq> None \<Longrightarrow> map_get (rd_map st) g \<noteq> None"
    "\<And>g. map_get (rd_obj st) g = (if g \<in> P then map_option go_quote (map_get (rd_map st) g) else map_get obj g)"
    "\<And>r p. map_get (rd_seen st) r = Some p \<Longrightarrow> \<exists>k < rd_counter st. p = pseudonym k"
    "\<And>r s p. map_get (rd_seen st) r = Some p \<Longrightarrow> map_get (rd_seen st) s = Some p \<Longrightarrow> r = s"
    using inv unfolding redacted_def by blast+
  show ?thesis
  proof (cases "map_get (rd_seen st) raw")
    case seen: (Some p)
    then have "redact_field f st = st\<lparr>rd_map := map_put f p (rd_map st), rd_obj := map_put f (go_quote p) (rd_obj st)\<rparr>"
      by (simp add: redact_field_def obj)
    moreover have "\<exists>k < rd_counter st. p = pseudonym k" using inv seen unfolding redacted_def by blast
    ultimately show ?thesis
      using facts sorted Some seen obj unfolding redacted_def
      by (auto simp: map_get_map_put sorted_keys_map_put map_fst_map_put)
  next
    case new: None
    have step: "redact_field f st = st\<lparr>rd_seen := map_put raw (pseudonym (rd_counter st)) (rd_seen st),
        rd_counter := Suc (rd_counter st), rd_map := map_put f (pseudonym (rd_counter st)) (rd_map st),
        rd_obj := map_put f (go_quote (pseudonym (rd_counter st))) (rd_obj st)\<rparr>"
      by (simp add: redact_field_def obj new Let_def)
    have kept: "Option.bind (map_get obj g) (map_get (map_put raw (pseudonym (rd_counter st)) (rd_seen st)))
        = Option.bind (map_get obj g) (map_get (rd_seen st))" if "g \<in> P" for g
    proof (cases "map_get obj g")
      case (Some r)
      with that facts(2,3) [of g] have "map_get (rd_seen st) r \<noteq> None" by auto
      with new have "r \<noteq> raw" by auto
      with Some show ?thesis by (simp add: map_get_map_put sorted)
    qed simp
    have fresh: "map_get (rd_seen st) r \<noteq> Some (pseudonym (rd_counter st))" for r
      by (metis facts(5) pseudonym_inj less_irrefl)
    show ?thesis
      unfolding redacted_def step
    proof (intro conjI allI impI, goal_cases)
      case (5 g)
      show ?case
        using kept [of g] facts(2) [of g] Some by (cases "g = f") (auto simp: map_get_map_put sorted)
    next
      case (6 g)
      then show ?case using facts(3) [of g] by (auto simp: map_get_map_put sorted)
    next
      case (7 g)
      show ?case
        using facts(4) [of g] obj by (cases "g = f") (auto simp: map_get_map_put sorted)
    next
      case (8 r p)
      then show ?case using facts(5) [of r p] by (auto simp: map_get_map_put sorted less_Suc_eq split: if_splits)
    next
      case (9 r s p)
      then show ?case using facts(6) [of r p s] fresh by (auto simp: map_get_map_put sorted split: if_splits)
    qed (use facts(1) obj in \<open>simp_all add: sorted sorted_keys_map_put map_fst_map_put\<close>)
  qed
qed

lemma redacted_all:
  assumes "distinct fs" and "sorted_keys obj"
  shows "redacted obj (set fs) (redact_all fs obj)"
proof -
  have all: "redacted obj (P \<union> set fs) (fold redact_field fs st)"
    if "redacted obj P st" and "distinct fs" and "P \<inter> set fs = {}" for P st
    using that
  proof (induction fs arbitrary: P st)
    case (Cons f fs)
    then have "redacted obj (insert f P) (redact_field f st)" by (intro redacted_field) auto
    then have "redacted obj (insert f P \<union> set fs) (fold redact_field fs (redact_field f st))"
      by (rule Cons.IH) (use Cons.prems in auto)
    then show ?case by simp
  qed simp
  have "redacted obj {} \<lparr>rd_obj = obj, rd_map = [], rd_seen = [], rd_counter = 1\<rparr>"
    using assms(2) by (simp add: redacted_def map_get_def)
  from all [OF this assms(1)] show ?thesis by (simp add: redact_all_def)
qed

subsection \<open>The redacted document\<close>

text \<open>A pseudonym reads as itself.\<close>

lemma read_plain_string:
  "\<forall>c \<in> set p. c \<noteq> CHR 0x22 \<and> c \<noteq> CHR 0x5C \<and> 32 \<le> (of_char c :: nat) \<and> (of_char c :: nat) < 128 \<Longrightarrow>
   read_string (p @ CHR 0x22 # t) = Some (p, t)"
proof (induction p)
  case Nil
  show ?case by (simp add: read_string_quote)
next
  case (Cons c p)
  then show ?case using read_string_rune [of "[c]" "p @ CHR 0x22 # t"] utf8_width_1 [of c "[]"] by simp
qed

lemma go_quote_reads: "reads_as d (go_quote (pseudonym n)) (JStr (pseudonym n))"
proof (rule reads_asI)
  have "\<forall>c \<in> set (format_nat n). 48 \<le> (of_char c :: nat) \<and> (of_char c :: nat) \<le> 57"
    using format_nat_digits by (force simp: is_digit_def less_eq_char_def)
  then have "\<forall>c \<in> set (pseudonym n). c \<noteq> CHR 0x22 \<and> c \<noteq> CHR 0x5C \<and> 32 \<le> (of_char c :: nat) \<and> (of_char c :: nat) < 128"
    by (force simp: pseudonym_def)
  then show "pval (Suc f) d (go_quote (pseudonym n) @ t) = Some (JStr (pseudonym n), t)" for f t
    by (simp add: go_quote_def skip_ws_id is_space_def read_plain_string)
qed

lemma sorted_keys_nth: "sorted_keys ps \<Longrightarrow> i < length ps \<Longrightarrow> map_get ps (fst (ps ! i)) = Some (snd (ps ! i))"
  using sorted_keys_distinct [of ps] by (simp add: map_get_def)

definition redacted_value :: "string set \<Rightarrow> (string \<times> string) list \<Rightarrow> string \<times> json \<Rightarrow> string \<times> json" where
  "redacted_value P names m = (fst m, if fst m \<in> P then JStr (the (map_get names (fst m))) else snd m)"

lemma redacted_object:
  assumes "redacted obj P st" and "sorted_keys obj" and "raw_object d obj ms"
  shows "raw_object d (rd_obj st) (map (redacted_value P (rd_map st)) ms)"
proof (rule list_all2_all_nthI)
  have keys: "map fst (rd_obj st) = map fst obj" using assms(1) by (simp add: redacted_def)
  then have len: "length (rd_obj st) = length obj" by (metis length_map)
  have ms: "length ms = length obj" using assms(3) list_all2_lengthD by metis
  then show "length (rd_obj st) = length (map (redacted_value P (rd_map st)) ms)" by (simp add: len)
  fix i
  assume i: "i < length (rd_obj st)"
  let ?k = "fst (obj ! i)"
  have k: "fst (rd_obj st ! i) = ?k" using keys i len by (metis nth_map)
  have m: "fst (ms ! i) = ?k" "reads_whole d (snd (obj ! i)) (snd (ms ! i))"
    using list_all2_nthD [OF assms(3), of i] i len by (auto dest: raw_memberD)
  have obj: "map_get obj ?k = Some (snd (obj ! i))" using sorted_keys_nth [OF assms(2)] i len by simp
  have got: "map_get (rd_obj st) ?k = Some (snd (rd_obj st ! i))"
    using sorted_keys_nth [of "rd_obj st" i] assms(1) i k by (simp add: redacted_def)
  have val: "map_get (rd_obj st) ?k = (if ?k \<in> P then map_option go_quote (map_get (rd_map st) ?k) else map_get obj ?k)"
    using assms(1) by (simp add: redacted_def)
  show "raw_member d (rd_obj st ! i) (map (redacted_value P (rd_map st)) ms ! i)"
  proof (cases "?k \<in> P")
    case True
    with got val obtain p where p: "map_get (rd_map st) ?k = Some p" "snd (rd_obj st ! i) = go_quote p" by auto
    moreover have "map_get (rd_map st) ?k = map_get (rd_seen st) (snd (obj ! i))"
      using assms(1) True obj by (simp add: redacted_def)
    ultimately obtain n where "p = pseudonym n" using assms(1) unfolding redacted_def by metis
    then show ?thesis
      using p i len ms True k m(1) go_quote_reads [of d n] by (simp add: raw_member_def redacted_value_def reads_as_whole)
  next
    case False
    then show ?thesis using got val obj i len ms k m by (simp add: raw_member_def redacted_value_def)
  qed
qed

text \<open>Whatever the list of fields, listed fields are hidden and nothing else changes.\<close>

definition redacts :: "string set \<Rightarrow> (string \<times> json) list \<Rightarrow> (string \<times> json) list \<Rightarrow> bool" where
  "redacts P ms ms' \<longleftrightarrow> map fst ms' = map fst ms \<and> (\<forall>f. f \<notin> P \<longrightarrow> map_get ms' f = map_get ms f)
     \<and> (\<forall>f \<in> P. map_get ms f \<noteq> None \<longrightarrow> (\<exists>n. map_get ms' f = Some (JStr (pseudonym n))))"

definition known_names :: "redaction \<Rightarrow> bool" where
  "known_names st \<longleftrightarrow> sorted_keys (rd_seen st) \<and> (\<forall>r p. map_get (rd_seen st) r = Some p \<longrightarrow> (\<exists>n. p = pseudonym n))"

lemma redact_field_reads:
  assumes "raw_object d (rd_obj st) ms'" and "redacts P ms ms'" and "known_names st" and "sorted_keys ms"
  shows "\<exists>ms''. raw_object d (rd_obj (redact_field f st)) ms'' \<and> redacts (insert f P) ms ms'' \<and> known_names (redact_field f st)"
proof (cases "map_get (rd_obj st) f")
  case None
  have "map_get ms' f = None"
    using None raw_object_keys [OF assms(1)] by (metis map_get_def map_of_eq_None_iff set_map)
  moreover from this have "map_get ms f = None"
    using assms(2) by (metis redacts_def map_get_def map_of_eq_None_iff set_map)
  ultimately show ?thesis using assms None by (intro exI [of _ ms']) (auto simp: redact_field_def redacts_def)
next
  case (Some raw)
  obtain n where n: "rd_obj (redact_field f st) = map_put f (go_quote (pseudonym n)) (rd_obj st)"
    "known_names (redact_field f st)"
  proof (cases "map_get (rd_seen st) raw")
    case None
    then have step: "redact_field f st = st\<lparr>rd_seen := map_put raw (pseudonym (rd_counter st)) (rd_seen st),
        rd_counter := Suc (rd_counter st), rd_map := map_put f (pseudonym (rd_counter st)) (rd_map st),
        rd_obj := map_put f (go_quote (pseudonym (rd_counter st))) (rd_obj st)\<rparr>"
      using Some by (simp add: redact_field_def Let_def)
    have "known_names (redact_field f st)"
      using assms(3) unfolding known_names_def step by (auto simp: sorted_keys_map_put map_get_map_put)
    with step show thesis by (intro that) simp_all
  next
    case seen: (Some p)
    then obtain k where "p = pseudonym k" using assms(3) by (auto simp: known_names_def)
    with Some seen assms(3) that [of k] show thesis by (simp add: redact_field_def known_names_def)
  qed
  have keys: "map fst ms' = map fst ms" using assms(2) by (simp add: redacts_def)
  then have sorted: "sorted_keys ms'" using assms(4) by (simp add: sorted_keys_def)
  have ex: "map_get ms' f \<noteq> None" using raw_object_get [OF assms(1) Some] by auto
  have "redacts (insert f P) ms (map_put f (JStr (pseudonym n)) ms')"
    using assms(2) keys map_fst_map_put [OF sorted ex] by (auto simp: redacts_def map_get_map_put sorted)
  moreover have "raw_object d (rd_obj (redact_field f st)) (map_put f (JStr (pseudonym n)) ms')"
    unfolding n(1) by (rule raw_object_put [OF assms(1) reads_as_whole [OF go_quote_reads]])
  ultimately show ?thesis using n(2) by blast
qed

lemma redact_all_reads:
  assumes "raw_object d obj ms" and "sorted_keys ms"
  shows "\<exists>ms'. raw_object d (rd_obj (redact_all fs obj)) ms' \<and> redacts (set fs) ms ms'"
proof -
  have "\<exists>ms''. raw_object d (rd_obj (fold redact_field fs st)) ms'' \<and> redacts (P \<union> set fs) ms ms''"
    if "raw_object d (rd_obj st) ms'" "redacts P ms ms'" "known_names st" for st ms' P
    using that
  proof (induction fs arbitrary: st ms' P)
    case (Cons f fs)
    obtain ms'' where "raw_object d (rd_obj (redact_field f st)) ms''" "redacts (insert f P) ms ms''" "known_names (redact_field f st)"
      using redact_field_reads [OF Cons.prems assms(2)] by blast
    from Cons.IH [OF this] show ?case by simp
  qed auto
  from this [of "\<lparr>rd_obj = obj, rd_map = [], rd_seen = [], rd_counter = 1\<rparr>" ms "{}"] show ?thesis
    using assms by (simp add: redact_all_def redacts_def known_names_def map_get_def)
qed

lemma ApplyRedactions_reads:
  assumes "ApplyRedactions payload fs = Inr (out, pm)" and "reads_whole d payload v"
  shows "\<exists>v'. reads_whole d out v' \<and> (fs = [] \<longrightarrow> v' = v) \<and> (\<forall>ms. v = JObj ms \<longrightarrow> (\<exists>ms'. v' = JObj ms' \<and> redacts (set fs) ms ms'))"
proof (cases "fs = []")
  case True
  with assms show ?thesis by (auto simp: ApplyRedactions_def redacts_def)
next
  case False
  have ne: "payload \<noteq> []" using assms(2) by (auto simp: reads_whole_def skip_ws_def)
  have whole: "whole_value payload = Some v" using reads_whole_depth [OF assms(2), of 0] by (simp add: whole_value_iff)
  show ?thesis
  proof (cases v)
    case (JObj ms)
    have wf: "d < max_depth" "sorted_keys ms" "\<forall>p \<in> set ms. valid_utf8 (fst p)"
      using reads_whole_wf [OF assms(2)] JObj by simp_all
    obtain obj where obj: "unmarshal_raw_map payload = Inr (Some obj)" "raw_object (Suc d) obj ms"
      using unmarshal_raw_reads [OF assms(2) [unfolded JObj]] by blast
    obtain ms' where ms': "raw_object (Suc d) (rd_obj (redact_all fs obj)) ms'" "redacts (set fs) ms ms'"
      using redact_all_reads [OF obj(2) wf(2)] by blast
    then have keys: "map fst ms' = map fst ms" by (simp add: redacts_def)
    then have "\<forall>m \<in> set ms'. valid_utf8 (fst m)" using wf(3) by (metis in_set_conv_nth length_map nth_map nth_mem)
    moreover have "sorted_keys ms'" using keys wf(2) by (simp add: sorted_keys_def)
    ultimately obtain t where t: "marshal_raw_map (Some (rd_obj (redact_all fs obj))) = Inr t" "reads_as d t (JObj ms')"
      using marshal_raw_reads [OF ms'(1) _ _ wf(1)] by blast
    then have "out = t" using assms(1) False ne obj(1) by (simp add: ApplyRedactions_def Let_def)
    then show ?thesis using reads_as_whole [OF t(2)] ms'(2) False JObj by auto
  next
    case JNull
    then have "unmarshal_raw_map payload = Inr None" using whole by (simp add: unmarshal_raw_map_def)
    then have "out = ''null''" using assms(1) False ne by (simp add: ApplyRedactions_def Let_def marshal_raw_map_def)
    moreover have "reads_as d ''null'' JNull" using reads_back_all [of JNull] by (simp add: reads_back_def)
    ultimately show ?thesis using JNull False reads_as_whole by auto
  qed (use assms(1) False ne whole in \<open>simp_all add: ApplyRedactions_def unmarshal_raw_map_def\<close>)
qed

text \<open>Redacting an object never fails and gives an object, wherever it stands.\<close>

lemma ApplyRedactions_object:
  assumes "distinct fs" and "fs \<noteq> []" and "reads_whole d payload (JObj ms)"
  shows "\<exists>out names ms'. ApplyRedactions payload fs = Inr (out, Some names) \<and> reads_as d out (JObj ms')
    \<and> map fst ms' = map fst ms
    \<and> (\<forall>f. map_get names f \<noteq> None \<longleftrightarrow> f \<in> set fs \<and> map_get ms f \<noteq> None)
    \<and> (\<forall>f. map_get ms' f = (if f \<in> set fs then map_option JStr (map_get names f) else map_get ms f))"
proof -
  obtain obj where obj: "unmarshal_raw_map payload = Inr (Some obj)" "raw_object (Suc d) obj ms"
    using unmarshal_raw_reads [OF assms(3)] by blast
  have sorted: "sorted_keys obj" using unmarshal_raw_map_sorted [OF obj(1)] .
  define st where "st = redact_all fs obj"
  have inv: "redacted obj (set fs) st" unfolding st_def using assms(1) sorted by (rule redacted_all)
  let ?ms = "map (redacted_value (set fs) (rd_map st)) ms"
  have wf: "d < max_depth" "sorted_keys ms" "\<forall>p \<in> set ms. valid_utf8 (fst p)"
    using reads_whole_wf [OF assms(3)] by simp_all
  have keys: "map fst ?ms = map fst ms" by (simp add: redacted_value_def comp_def)
  have "\<forall>m \<in> set ?ms. valid_utf8 (fst m)" "sorted_keys ?ms"
    using wf(2,3) keys by (simp_all add: redacted_value_def sorted_keys_def comp_def)
  from marshal_raw_reads [OF redacted_object [OF inv sorted obj(2)] this wf(1)]
  obtain out where out: "marshal_raw_map (Some (rd_obj st)) = Inr out" "reads_as d out (JObj ?ms)" by blast
  have "payload \<noteq> []" using assms(3) by (auto simp: reads_whole_def skip_ws_def)
  then have run: "ApplyRedactions payload fs = Inr (out, Some (rd_map st))"
    using assms(2) obj(1) out(1) by (simp add: ApplyRedactions_def Let_def st_def)
  have same: "map_get obj f = None \<longleftrightarrow> map_get ms f = None" for f
    using raw_object_keys [OF obj(2)] by (metis map_get_def map_of_eq_None_iff set_map)
  have dom: "map_get (rd_map st) f \<noteq> None \<longleftrightarrow> f \<in> set fs \<and> map_get ms f \<noteq> None" for f
    using inv unfolding redacted_def by (metis bind_eq_None_conv same)
  have get: "map_get ?ms f = (if f \<in> set fs then map_option JStr (map_get (rd_map st) f) else map_get ms f)" for f
  proof -
    have "map_get ?ms f = map_option (\<lambda>v. snd (redacted_value (set fs) (rd_map st) (f, v))) (map_get ms f)"
      by (induction ms) (auto simp: map_get_def redacted_value_def)
    then show ?thesis using dom [of f] by (cases "map_get ms f") (auto simp: redacted_value_def)
  qed
  show ?thesis
    by (intro exI [of _ out] exI [of _ "rd_map st"] exI [of _ ?ms] conjI allI run out(2) keys dom get)
qed

subsection \<open>Properties\<close>

text \<open>On the level of texts: every listed field that exists is replaced by a quoted pseudonym, every other
  value keeps its text, exactly the replaced fields are reported, and two fields get the same pseudonym
  exactly when their values have the same text.\<close>

lemma ApplyRedactions_effect:
  assumes "distinct fs" and "fs \<noteq> []" and "payload \<noteq> []"
    and "unmarshal_raw_map payload = Inr (Some obj)" and "ApplyRedactions payload fs = Inr (out, pm)"
  shows "\<exists>obj' names. marshal_raw_map (Some obj') = Inr out \<and> pm = Some names
    \<and> map fst obj' = map fst obj
    \<and> (\<forall>f. map_get names f \<noteq> None \<longleftrightarrow> f \<in> set fs \<and> map_get obj f \<noteq> None)
    \<and> (\<forall>f. map_get obj' f = (if f \<in> set fs then map_option go_quote (map_get names f) else map_get obj f))
    \<and> (\<forall>f g. map_get names f \<noteq> None \<and> map_get names g \<noteq> None \<longrightarrow>
         (map_get names f = map_get names g \<longleftrightarrow> map_get obj f = map_get obj g))"
proof -
  let ?st = "redact_all fs obj"
  have run: "marshal_raw_map (Some (rd_obj ?st)) = Inr out" "pm = Some (rd_map ?st)"
    using assms(2-5) by (auto simp: ApplyRedactions_def Let_def split: sum.splits)
  have inv: "redacted obj (set fs) ?st"
    using assms(1) unmarshal_raw_map_sorted [OF assms(4)] by (rule redacted_all)
  have dom: "map_get (rd_map ?st) f \<noteq> None \<longleftrightarrow> f \<in> set fs \<and> map_get obj f \<noteq> None" for f
    using inv unfolding redacted_def by (metis bind_eq_None_conv)
  have "map_get (rd_map ?st) f = map_get (rd_map ?st) g \<longleftrightarrow> map_get obj f = map_get obj g"
    if "map_get (rd_map ?st) f \<noteq> None" "map_get (rd_map ?st) g \<noteq> None" for f g
  proof -
    from that obtain p q where p: "map_get (rd_map ?st) f = Some p" "map_get (rd_map ?st) g = Some q" by blast
    from that dom [of f] dom [of g] obtain r s where r: "map_get obj f = Some r" "map_get obj g = Some s"
      and "f \<in> set fs" "g \<in> set fs" by blast
    with p have "map_get (rd_seen ?st) r = Some p" "map_get (rd_seen ?st) s = Some q"
      using inv unfolding redacted_def by (metis bind.bind_lunit)+
    then have "p = q \<longleftrightarrow> r = s" using inv unfolding redacted_def by (metis option.inject)
    with r p show ?thesis by simp
  qed
  then show ?thesis
    using run dom inv unfolding redacted_def by (intro exI [of _ "rd_obj ?st"] exI [of _ "rd_map ?st"]) blast
qed

lemmas raw_eval =
  json_eval whole_value_def value_text_def unmarshal_raw_map_def map_get_def
  raw_members.simps(2) [of "pred_numeral k", folded numeral_eq_Suc] for k

lemma unmarshal_sample: \<open>unmarshal_raw_map ''{"a":7}'' = Inr (Some [(''a'', ''7'')])\<close>
  by (simp add: raw_eval)

lemma pseudonym_samples: "pseudonym (Suc 0) = ''contributor_1''" "pseudonym (Suc (Suc 0)) = ''contributor_2''"
  by code_simp+

lemma redact_samples:
  "redact_all [''a'', ''a''] [(''a'', ''7'')] = \<lparr>rd_obj = [(''a'', go_quote ''contributor_2'')],
     rd_map = [(''a'', ''contributor_2'')], rd_seen = map_put (go_quote ''contributor_1'') ''contributor_2'' [(''7'', ''contributor_1'')],
     rd_counter = 3\<rparr>"
  "redact_all [''a''] [(''a'', ''7'')] = \<lparr>rd_obj = [(''a'', go_quote ''contributor_1'')],
     rd_map = [(''a'', ''contributor_1'')], rd_seen = [(''7'', ''contributor_1'')], rd_counter = 2\<rparr>"
  by (simp_all add: redact_all_def redact_field_def map_get_def pseudonym_samples go_quote_def Let_def)

lemma whole_samples:
  "whole_value (go_quote ''contributor_1'') = Some (JStr ''contributor_1'')"
  "whole_value (go_quote ''contributor_2'') = Some (JStr ''contributor_2'')"
  by (simp_all add: go_quote_def raw_eval)

lemma raw_marshal_samples:
  "raw_marshal (go_quote ''contributor_2'') = Inr (go_quote ''contributor_2'')"
  "raw_marshal (go_quote ''contributor_1'') = Inr (go_quote ''contributor_1'')"
  by (simp_all add: raw_marshal_def whole_samples) (simp_all add: go_quote_def separator_texts is_space_def)

lemma redaction_samples:
  \<open>ApplyRedactions ''{"a":7}'' [''a'', ''a''] = Inr (''{"a":"contributor_2"}'', Some [(''a'', ''contributor_2'')])\<close>
  \<open>ApplyRedactions ''{"a":7}'' [''a''] = Inr (''{"a":"contributor_1"}'', Some [(''a'', ''contributor_1'')])\<close>
  by (simp_all add: ApplyRedactions_def unmarshal_sample redact_samples marshal_raw_map_def raw_marshal_samples)
    (simp_all add: quoted_def go_quote_def utf8_width.simps(2) lead_width_def escape_rune_def escape_ascii_def)

text \<open>C36. Redaction of a JSON object by a list of different fields always succeeds with a JSON object of
  the same keys: read back, each listed field that exists is the pseudonym that is reported for it, every
  other field has the value it had, and exactly the listed fields that exist are reported. Two fields get
  the same pseudonym exactly when the texts of their values are the same, and then their values are.\<close>

theorem ApplyRedactions_document:
  assumes "distinct fs" and "fs \<noteq> []" and "whole_value payload = Some (JObj ms)"
  shows "\<exists>out names ms' obj. ApplyRedactions payload fs = Inr (out, Some names) \<and> whole_value out = Some (JObj ms')
    \<and> map fst ms' = map fst ms
    \<and> (\<forall>f. map_get names f \<noteq> None \<longleftrightarrow> f \<in> set fs \<and> map_get ms f \<noteq> None)
    \<and> (\<forall>f. map_get ms' f = (if f \<in> set fs then map_option JStr (map_get names f) else map_get ms f))
    \<and> unmarshal_raw_map payload = Inr (Some obj)
    \<and> (\<forall>f g. map_get names f \<noteq> None \<and> map_get names g \<noteq> None \<longrightarrow>
         (map_get names f = map_get names g \<longleftrightarrow> map_get obj f = map_get obj g)
       \<and> (map_get names f = map_get names g \<longrightarrow> map_get ms f = map_get ms g))"
proof -
  have whole: "reads_whole 0 payload (JObj ms)" using assms(3) by (simp add: whole_value_iff)
  obtain obj where obj: "unmarshal_raw_map payload = Inr (Some obj)" "raw_object (Suc 0) obj ms"
    using unmarshal_raw_reads [OF whole] by blast
  obtain out names ms' where doc: "ApplyRedactions payload fs = Inr (out, Some names)" "reads_as 0 out (JObj ms')"
    "map fst ms' = map fst ms" "\<forall>f. map_get names f \<noteq> None \<longleftrightarrow> f \<in> set fs \<and> map_get ms f \<noteq> None"
    "\<forall>f. map_get ms' f = (if f \<in> set fs then map_option JStr (map_get names f) else map_get ms f)"
    using ApplyRedactions_object [OF assms(1,2) whole] by blast
  have ne: "payload \<noteq> []" using assms(3) by (auto simp: whole_value_def skip_ws_def)
  have dom: "\<forall>f. map_get names f \<noteq> None \<longleftrightarrow> f \<in> set fs \<and> map_get obj f \<noteq> None"
    and eq: "\<forall>f g. map_get names f \<noteq> None \<and> map_get names g \<noteq> None \<longrightarrow>
      (map_get names f = map_get names g \<longleftrightarrow> map_get obj f = map_get obj g)"
    using ApplyRedactions_effect [OF assms(1,2) ne obj(1) doc(1)] unfolding option.inject by blast+
  have "map_get ms f = map_get ms g" if "map_get obj f = map_get obj g" "map_get obj f \<noteq> None" for f g
  proof -
    from that obtain x where "map_get obj f = Some x" "map_get obj g = Some x" by auto
    then obtain v u where "map_get ms f = Some v" "reads_whole (Suc 0) x v" "map_get ms g = Some u" "reads_whole (Suc 0) x u"
      using raw_object_get [OF obj(2)] by metis
    then show ?thesis by (auto simp: reads_whole_def)
  qed
  with dom eq have "\<forall>f g. map_get names f \<noteq> None \<and> map_get names g \<noteq> None \<longrightarrow>
      (map_get names f = map_get names g \<longleftrightarrow> map_get obj f = map_get obj g)
    \<and> (map_get names f = map_get names g \<longrightarrow> map_get ms f = map_get ms g)" by metis
  moreover have "whole_value out = Some (JObj ms')" using reads_as_whole [OF doc(2)] by (simp add: whole_value_iff)
  ultimately show ?thesis
    using doc(1,3-5) obj(1) by (intro exI [of _ out] exI [of _ names] exI [of _ ms'] exI [of _ obj] conjI)
qed

lemma whole_sample: \<open>whole_value ''{"a":7}'' = Some (JObj [(''a'', JNum ''7'')])\<close>
  by (simp add: raw_eval)

theorem ApplyRedactions_document_witness:
  \<open>\<exists>ms'. whole_value ''{"a":"contributor_1"}'' = Some (JObj ms') \<and> map fst ms' = [''a'']
     \<and> map_get ms' ''a'' = Some (JStr ''contributor_1'')\<close>
proof -
  have "distinct [''a'']" "[''a''] \<noteq> []" by simp_all
  from ApplyRedactions_document [OF this whole_sample] obtain out names ms' where
    \<open>ApplyRedactions ''{"a":7}'' [''a''] = Inr (out, Some names)\<close> "whole_value out = Some (JObj ms')"
    "map fst ms' = map fst [(''a'', JNum ''7'')]"
    "\<forall>f. map_get ms' f = (if f \<in> set [''a''] then map_option JStr (map_get names f) else map_get [(''a'', JNum ''7'')] f)"
    by blast
  then show ?thesis by (intro exI [of _ ms']) (simp add: redaction_samples, auto simp: map_get_def)
qed

text \<open>A field that is listed twice is replaced twice: the second time its value is the first
  pseudonym, which counts as a new value and gets the next number.\<close>

theorem ApplyRedactions_listed_twice:
  \<open>ApplyRedactions ''{"a":7}'' [''a'', ''a''] = Inr (''{"a":"contributor_2"}'', Some [(''a'', ''contributor_2'')])\<close>
  by (rule redaction_samples)

end
