(* ===== verification/Step_Receipt.thy ===== *)
theory Step_Receipt
  imports Step_Proof Redaction
begin

section \<open>step.audit.public_receipt\<close>

text \<open>
  \<^verbatim>\<open>steps/public_receipt.go\<close>: the receipt of an entry as a JSON document with the (possibly redacted)
  payload, the Merkle path of the first covering anchor, and all covering anchors, and the document's
  hash. The request is merged from configuration and input as in the poll step, except that the
  configuration's sequence number is text.
\<close>

subsection \<open>The documents\<close>

record receiptEntry =
  re_Sequence :: int64
  re_Ledger :: string
  re_EventType :: string
  re_EntryHash :: string
  re_PrevEntryHash :: string
  re_Payload :: bytes
  re_CreatedAt :: string

record receiptMerkleProof =
  rm_MerkleRoot :: string
  rm_MerklePath :: "string list"

record receiptAnchor =
  ra_Provider :: string
  ra_ExternalID :: string
  ra_Confirmation :: string
  ra_AnchoredAt :: string

record receiptDocument =
  rd_Entry :: receiptEntry
  rd_MerkleProof :: receiptMerkleProof
  rd_Anchors :: "receiptAnchor list"
  rd_PseudonymMap :: "(string \<times> string) list option"
  rd_GeneratedAt :: string

text \<open>\<open>json.Marshal\<close> of the structs: the fields in the order of their declaration, the pseudonyms left
  out when there are none. Only the raw payload can fail.\<close>

definition entry_text :: "receiptEntry \<Rightarrow> bytes \<Rightarrow> bytes" where
  "entry_text e payload = json_object
     [json_member ''sequence'' (format_int (sint (re_Sequence e))), json_member ''ledger'' (quoted (re_Ledger e)),
      json_member ''event_type'' (quoted (re_EventType e)), json_member ''entry_hash'' (quoted (re_EntryHash e)),
      json_member ''prev_entry_hash'' (quoted (re_PrevEntryHash e)), json_member ''payload'' payload,
      json_member ''created_at'' (quoted (re_CreatedAt e))]"

definition proof_text :: "receiptMerkleProof \<Rightarrow> bytes" where
  "proof_text p = json_object
     [json_member ''merkle_root'' (quoted (rm_MerkleRoot p)),
      json_member ''merkle_path'' (json_array (map quoted (rm_MerklePath p)))]"

definition anchor_text :: "receiptAnchor \<Rightarrow> bytes" where
  "anchor_text a = json_object
     [json_member ''provider'' (quoted (ra_Provider a)), json_member ''external_id'' (quoted (ra_ExternalID a)),
      json_member ''confirmation'' (quoted (ra_Confirmation a)), json_member ''anchored_at'' (quoted (ra_AnchoredAt a))]"

definition pseudonym_members :: "(string \<times> string) list option \<Rightarrow> bytes list" where
  "pseudonym_members pm =
     (case pm of
        None \<Rightarrow> []
      | Some ps \<Rightarrow> if ps = [] then []
          else [json_member ''pseudonym_map'' (json_object (map (\<lambda>(k, p). json_member k (quoted p)) ps))])"

definition receipt_text :: "receiptDocument \<Rightarrow> bytes result" where
  "receipt_text doc =
     (case raw_marshal (re_Payload (rd_Entry doc)) of
        Inl e \<Rightarrow> Inl e
      | Inr payload \<Rightarrow> Inr (json_object
          ([json_member ''entry'' (entry_text (rd_Entry doc) payload),
            json_member ''merkle_proof'' (proof_text (rd_MerkleProof doc)),
            json_member ''anchors'' (json_array (map anchor_text (rd_Anchors doc)))]
           @ pseudonym_members (rd_PseudonymMap doc)
           @ [json_member ''generated_at'' (quoted (rd_GeneratedAt doc))])))"

subsection \<open>The request\<close>

definition mergePublicReceipt ::
  "PublicReceiptConfig option \<Rightarrow> PublicReceiptRequest option \<Rightarrow> PublicReceiptRequest result" where
  "mergePublicReceipt cfg inp =
     (let merged = (case inp of
          None \<Rightarrow> \<lparr>cq_Ledger = [], cq_Sequence = 0, cq_RedactFields = []\<rparr>
        | Some r \<Rightarrow> r)
      in case cfg of
           None \<Rightarrow> Inr merged
         | Some c \<Rightarrow>
             let ledger = (if cc_Ledger c \<noteq> [] then cc_Ledger c else cq_Ledger merged);
                 fields' = (if cc_RedactFields c \<noteq> [] then cc_RedactFields c else cq_RedactFields merged)
             in if cc_Sequence c \<noteq> []
                then case parse_int64 (cc_Sequence c) of
                       Inl e \<Rightarrow> Inl (Errorf ''invalid sequence %q: %w'' [ArgS (cc_Sequence c), ArgE e])
                     | Inr seq \<Rightarrow> Inr \<lparr>cq_Ledger = ledger, cq_Sequence = seq, cq_RedactFields = fields'\<rparr>
                else Inr \<lparr>cq_Ledger = ledger, cq_Sequence = cq_Sequence merged, cq_RedactFields = fields'\<rparr>)"

subsection \<open>The handler\<close>

definition receipt_anchor :: "AnchorRecord \<Rightarrow> receiptAnchor" where
  "receipt_anchor r =
     \<lparr>ra_Provider = rec_Provider r, ra_ExternalID = rec_ExternalId r, ra_Confirmation = rec_Confirmation r,
      ra_AnchoredAt = rec_AnchoredAt r\<rparr>"

definition receipt_document ::
  "Entry \<Rightarrow> bytes \<Rightarrow> (string \<times> string) list option \<Rightarrow> string list \<Rightarrow> string \<Rightarrow> anchorRow list \<Rightarrow> go_time \<Rightarrow> receiptDocument" where
  "receipt_document entry redactedPayload pseudonymMap merklePath merkleRoot anchors clock =
     \<lparr>rd_Entry =
        \<lparr>re_Sequence = en_Sequence entry, re_Ledger = en_Ledger entry, re_EventType = en_EventType entry,
         re_EntryHash = en_EntryHash entry, re_PrevEntryHash = en_PrevEntryHash entry,
         re_Payload = redactedPayload, re_CreatedAt = en_CreatedAt entry\<rparr>,
      rd_MerkleProof = \<lparr>rm_MerkleRoot = merkleRoot, rm_MerklePath = merklePath\<rparr>,
      rd_Anchors = map (receipt_anchor \<circ> aw_record) anchors, rd_PseudonymMap = pseudonymMap,
      rd_GeneratedAt = format_rfc3339 clock\<rparr>"

definition PublicReceiptHandler ::
  "pg \<Rightarrow> go_time \<Rightarrow> world \<Rightarrow> PublicReceiptConfig option \<Rightarrow> PublicReceiptRequest option
    \<Rightarrow> PublicReceiptResponse result" where
  "PublicReceiptHandler pg clock w cfg inp =
     (case mergePublicReceipt cfg inp of
        Inl e \<Rightarrow> Inl (Errorf ''step.audit.public_receipt: %w'' [ArgE e])
      | Inr input \<Rightarrow>
      if cq_Ledger input = [] then Inl (Errorf ''step.audit.public_receipt: ledger is required'' [])
      else case GetDB (w_registry w) (cq_Ledger input) of
             None \<Rightarrow>
               Inl (Errorf ''step.audit.public_receipt: ledger %q not registered; ensure the audit.ledger module is initialised''
                      [ArgS (cq_Ledger input)])
           | Some d \<Rightarrow>
     (case fetchEntry pg (pool_db w d) (cq_Ledger input) (cq_Sequence input) of
        Inl e \<Rightarrow> Inl (Errorf ''step.audit.public_receipt: %w'' [ArgE e])
      | Inr entry \<Rightarrow>
     (case fetchAnchorsForSequence pg (pool_db w d) (cq_Ledger input) (cq_Sequence input) of
        Inl e \<Rightarrow> Inl (Errorf ''step.audit.public_receipt: %w'' [ArgE e])
      | Inr anchors \<Rightarrow>
     (case first_anchor_path ''step.audit.public_receipt'' pg (pool_db w d) (cq_Ledger input) (cq_Sequence input) anchors of
        Inl e \<Rightarrow> Inl e
      | Inr (merklePath, merkleRoot) \<Rightarrow>
     (case ApplyRedactions (en_Payload entry) (cq_RedactFields input) of
        Inl e \<Rightarrow> Inl (Errorf ''step.audit.public_receipt: redact: %w'' [ArgE e])
      | Inr (redactedPayload, pseudonymMap) \<Rightarrow>
     (case receipt_text (receipt_document entry redactedPayload pseudonymMap merklePath merkleRoot anchors clock) of
        Inl e \<Rightarrow> Inl (Errorf ''step.audit.public_receipt: marshal receipt: %w'' [ArgE e])
      | Inr receiptBytes \<Rightarrow> Inr
          \<lparr>cr_ReceiptUrl = [], cr_ReceiptJson = receiptBytes,
           cr_ReceiptHash = hex_encode (sha256 receiptBytes)\<rparr>))))))"

text \<open>What the configuration does not set comes from the input.\<close>

lemma mergePublicReceipt_cases:
  "mergePublicReceipt None (Some r) = Inr r"
  "cc_Sequence c = [] \<Longrightarrow> mergePublicReceipt (Some c) (Some r) = Inr
     \<lparr>cq_Ledger = (if cc_Ledger c = [] then cq_Ledger r else cc_Ledger c), cq_Sequence = cq_Sequence r,
      cq_RedactFields = (if cc_RedactFields c = [] then cq_RedactFields r else cc_RedactFields c)\<rparr>"
  by (simp_all add: mergePublicReceipt_def Let_def)

text \<open>The configuration's text of a sequence number is read back exactly.\<close>

lemma mergePublicReceipt_sequence:
  "mergePublicReceipt (Some (c\<lparr>cc_Sequence := format_int (sint n)\<rparr>)) inp = Inr m \<Longrightarrow> cq_Sequence m = n"
proof -
  have "format_int (sint n) \<noteq> []" using parse_format_int64 [of n] by (auto simp: parse_int64_def split_sign_def)
  moreover assume "mergePublicReceipt (Some (c\<lparr>cc_Sequence := format_int (sint n)\<rparr>)) inp = Inr m"
  ultimately show "cq_Sequence m = n" by (auto simp: mergePublicReceipt_def Let_def parse_format_int64)
qed

lemma PublicReceipt_InrD:
  assumes "PublicReceiptHandler pg clock w cfg inp = Inr resp"
  obtains input d entry anchors path root payload pm where "mergePublicReceipt cfg inp = Inr input"
    "GetDB (w_registry w) (cq_Ledger input) = Some d"
    "fetchEntry pg (pool_db w d) (cq_Ledger input) (cq_Sequence input) = Inr entry"
    "fetchAnchorsForSequence pg (pool_db w d) (cq_Ledger input) (cq_Sequence input) = Inr anchors"
    "first_anchor_path ''step.audit.public_receipt'' pg (pool_db w d) (cq_Ledger input) (cq_Sequence input) anchors = Inr (path, root)"
    "ApplyRedactions (en_Payload entry) (cq_RedactFields input) = Inr (payload, pm)"
    "receipt_text (receipt_document entry payload pm path root anchors clock) = Inr (cr_ReceiptJson resp)"
    "cr_ReceiptHash resp = sha256Hex (cr_ReceiptJson resp)" "cr_ReceiptUrl resp = []"
  using assms
  by (auto simp: PublicReceiptHandler_def sha256Hex_def split: if_splits option.splits sum.splits prod.splits)

text \<open>What an answer holds: the JSON text of a document and its SHA-256. On a sound ledger the document holds
  the entry of the requested sequence number, its payload as \<open>ApplyRedactions\<close> left it (untouched
  without fields to redact), the pseudonyms, and one record per covering anchor; its Merkle path
  verifies for the entry's hash against its root exactly when the first covering anchor's root is
  still the root over that anchor's range.\<close>

lemma PublicReceiptHandler_spec:
  assumes "PublicReceiptHandler pg clock w cfg inp = Inr resp" and "mergePublicReceipt cfg inp = Inr q"
    and "GetDB (w_registry w) (cq_Ledger q) = Some d" and "chain_ok (pool_db w d) (cq_Ledger q)"
  shows "\<exists>doc r. receipt_text doc = Inr (cr_ReceiptJson resp) \<and> cr_ReceiptHash resp = sha256Hex (cr_ReceiptJson resp)
    \<and> r \<in> set (ledger_rows (pool_db w d) (cq_Ledger q)) \<and> log_sequence r = cq_Sequence q
    \<and> re_Sequence (rd_Entry doc) = cq_Sequence q \<and> re_EntryHash (rd_Entry doc) = log_entry_hash r
    \<and> re_EventType (rd_Entry doc) = log_event_type r \<and> re_PrevEntryHash (rd_Entry doc) = log_prev_entry_hash r
    \<and> ApplyRedactions (log_payload r) (cq_RedactFields q) = Inr (re_Payload (rd_Entry doc), rd_PseudonymMap doc)
    \<and> (cq_RedactFields q = [] \<longrightarrow> re_Payload (rd_Entry doc) = log_payload r)
    \<and> length (rd_Anchors doc) = length (covering_rows (pool_db w d) (cq_Ledger q) (cq_Sequence q))
    \<and> (case covering_rows (pool_db w d) (cq_Ledger q) (cq_Sequence q) of
         [] \<Rightarrow> rm_MerklePath (rd_MerkleProof doc) = []
       | a # as \<Rightarrow> rm_MerkleRoot (rd_MerkleProof doc) = anchor_merkle_root a
           \<and> (VerifyInclusion (re_EntryHash (rd_Entry doc)) (rm_MerklePath (rd_MerkleProof doc)) (rm_MerkleRoot (rd_MerkleProof doc))
              \<longleftrightarrow> (\<exists>now. current_root (pool_db w d) (cq_Ledger q) (range_start a) (range_end a) = Inr now
                   \<and> hex_decode (rm_MerkleRoot (rd_MerkleProof doc)) = hex_decode now)))"
proof -
  let ?db = "pool_db w d" and ?l = "cq_Ledger q" and ?t = "cq_Sequence q"
  obtain entry anchors path root payload pm where
    entry: "fetchEntry pg ?db ?l ?t = Inr entry" and fetched: "fetchAnchorsForSequence pg ?db ?l ?t = Inr anchors"
    and path: "first_anchor_path ''step.audit.public_receipt'' pg ?db ?l ?t anchors = Inr (path, root)"
    and red: "ApplyRedactions (en_Payload entry) (cq_RedactFields q) = Inr (payload, pm)"
    and doc: "receipt_text (receipt_document entry payload pm path root anchors clock) = Inr (cr_ReceiptJson resp)"
    and hash: "cr_ReceiptHash resp = sha256Hex (cr_ReceiptJson resp)"
    using assms(1-3) by (auto elim!: PublicReceipt_InrD)
  obtain r where r: "r \<in> set (audit_log ?db)" "log_ledger r = ?l" "log_sequence r = ?t" "en_Sequence entry = ?t"
    "en_EntryHash entry = log_entry_hash r" "en_EventType entry = log_event_type r"
    "en_PrevEntryHash entry = log_prev_entry_hash r" "en_Payload entry = log_payload r"
    using fetchEntry_InrD [OF entry] by metis
  note path_spec = first_anchor_path_spec [OF assms(4) r(1-3) fetched path]
  have "cq_RedactFields q = [] \<longrightarrow> payload = log_payload r" using red r(8) by (auto simp: ApplyRedactions_def)
  then show ?thesis
    using doc hash r red path_spec
    by (intro exI [of _ "receipt_document entry payload pm path root anchors clock"] exI [of _ r])
      (cases "covering_rows ?db ?l ?t"; auto simp: receipt_document_def ledger_rows_def)
qed

subsection \<open>A sample receipt\<close>

lemma sample_receipt:
  "\<exists>resp. PublicReceiptHandler steady_pg 0 proof_world None
       (Some \<lparr>cq_Ledger = ''l'', cq_Sequence = 1, cq_RedactFields = []\<rparr>) = Inr resp"
proof -
  let ?q = "\<lparr>cq_Ledger = ''l'', cq_Sequence = 1, cq_RedactFields = []\<rparr>"
  let ?db = "sample_db\<lparr>audit_anchors := [sample_anchor]\<rparr>"
  have m: "mergePublicReceipt None (Some ?q) = Inr ?q" by (simp add: mergePublicReceipt_def)
  obtain entry where e: "fetchEntry steady_pg ?db ''l'' 1 = Inr entry"
    using fetchEntry_healthy [OF healthy_steady sample_columns, of 1] by (auto simp: entry_rows_def is_ok_iff)
  then have payload: "en_Payload entry = ''[1]''"
    by (rule fetchEntry_InrD) (simp add: sample_row_def)
  obtain anchors where a: "fetchAnchorsForSequence steady_pg ?db ''l'' 1 = Inr anchors"
    using fetchAnchors_healthy [OF healthy_steady sample_columns, of 1] by (auto simp: is_ok_iff)
  obtain path root where p: "first_anchor_path ''step.audit.public_receipt'' steady_pg ?db ''l'' 1 anchors = Inr (path, root)"
    using first_anchor_path_healthy [OF healthy_steady, of "''step.audit.public_receipt''" ?db "''l''" 1 anchors]
    by (auto simp: is_ok_iff)
  show ?thesis
    by (simp add: PublicReceiptHandler_def m e a p payload ApplyRedactions_def receipt_text_def receipt_document_def
        raw_marshal_def sample_whole)
qed

end
