(* ===== verification/Receipt_Reading.thy ===== *)
theory Receipt_Reading
  imports Step_Receipt
begin

section \<open>What the holder of a receipt reads\<close>

text \<open>
  A receipt leaves the system as JSON text and is checked elsewhere, from the text alone. Here the text is
  read back: \<open>receipt_json\<close> is the value the document's fields are found in, and \<open>receipt_reads\<close> says that
  a standard reader finds it in the text \<open>json.Marshal\<close> writes.
\<close>

subsection \<open>Following member names\<close>

fun json_at :: "string list \<Rightarrow> json \<Rightarrow> json option" where
  "json_at [] v = Some v"
| "json_at (k # ks) v = (case v of JObj ms \<Rightarrow> Option.bind (map_get ms k) (json_at ks) | _ \<Rightarrow> None)"

definition json_struct :: "(string \<times> json) list \<Rightarrow> json" where
  "json_struct ms = JObj (map_of_members ms)"

lemma json_at_struct: "json_at (k # ks) (json_struct ms) = Option.bind (map_of (rev ms) k) (json_at ks)"
  by (simp add: json_struct_def map_get_map_of_members)

subsection \<open>The document as a value\<close>

definition text_json :: "string \<Rightarrow> json" where
  "text_json s = JStr (coerce_utf8 s)"

definition entry_json :: "receiptEntry \<Rightarrow> json \<Rightarrow> json" where
  "entry_json e payload = json_struct
     [(''sequence'', JNum (format_int (sint (re_Sequence e)))), (''ledger'', text_json (re_Ledger e)),
      (''event_type'', text_json (re_EventType e)), (''entry_hash'', text_json (re_EntryHash e)),
      (''prev_entry_hash'', text_json (re_PrevEntryHash e)), (''payload'', payload),
      (''created_at'', text_json (re_CreatedAt e))]"

definition proof_json :: "receiptMerkleProof \<Rightarrow> json" where
  "proof_json p = json_struct
     [(''merkle_root'', text_json (rm_MerkleRoot p)), (''merkle_path'', JArr (map text_json (rm_MerklePath p)))]"

definition anchor_json :: "receiptAnchor \<Rightarrow> json" where
  "anchor_json a = json_struct
     [(''provider'', text_json (ra_Provider a)), (''external_id'', text_json (ra_ExternalID a)),
      (''confirmation'', text_json (ra_Confirmation a)), (''anchored_at'', text_json (ra_AnchoredAt a))]"

definition pseudonyms_json :: "(string \<times> string) list option \<Rightarrow> (string \<times> json) list" where
  "pseudonyms_json pm =
     (case pm of
        None \<Rightarrow> []
      | Some ps \<Rightarrow> if ps = [] then []
          else [(''pseudonym_map'', json_struct (map (\<lambda>(k, p). (coerce_utf8 k, text_json p)) ps))])"

definition receipt_json :: "receiptDocument \<Rightarrow> json \<Rightarrow> json" where
  "receipt_json doc payload = json_struct
     ([(''entry'', entry_json (rd_Entry doc) payload), (''merkle_proof'', proof_json (rd_MerkleProof doc)),
       (''anchors'', JArr (map anchor_json (rd_Anchors doc)))]
      @ pseudonyms_json (rd_PseudonymMap doc) @ [(''generated_at'', text_json (rd_GeneratedAt doc))])"

text \<open>Where the fields of a receipt are found.\<close>

lemma pseudonyms_key: "k \<noteq> ''pseudonym_map'' \<Longrightarrow> map_of (rev (pseudonyms_json pm)) k = None"
  by (auto simp: pseudonyms_json_def split: option.split)

lemma receipt_fields_at:
  "json_at [''entry'', ''sequence''] (receipt_json doc payload) = Some (JNum (format_int (sint (re_Sequence (rd_Entry doc)))))"
  "json_at [''entry'', ''entry_hash''] (receipt_json doc payload) = Some (text_json (re_EntryHash (rd_Entry doc)))"
  "json_at [''entry'', ''payload''] (receipt_json doc payload) = Some payload"
  "json_at [''merkle_proof'', ''merkle_root''] (receipt_json doc payload) = Some (text_json (rm_MerkleRoot (rd_MerkleProof doc)))"
  "json_at [''merkle_proof'', ''merkle_path''] (receipt_json doc payload) = Some (JArr (map text_json (rm_MerklePath (rd_MerkleProof doc))))"
  "json_at [''anchors''] (receipt_json doc payload) = Some (JArr (map anchor_json (rd_Anchors doc)))"
  by (simp_all add: receipt_json_def entry_json_def proof_json_def json_at_struct map_add_def pseudonyms_key
      del: json_at.simps(2))

subsection \<open>Reading the text\<close>

lemma text_reads [simp]: "reads_as d (quoted s) (text_json s)"
  by (simp add: text_json_def reads_as_coerced)

lemma number_reads [simp]: "reads_as d (format_int i) (JNum (format_int i))"
  by (rule reads_as_number [OF read_number_format_int])

text \<open>Members by name, text and value; a name may be any string.\<close>

lemma json_object_reads:
  assumes "\<forall>(k, t, v) \<in> set es. reads_as (Suc d) t v" and "d < max_depth"
  shows "reads_as d (json_object (map (\<lambda>(k, t, v). json_member k t) es)) (json_struct (map (\<lambda>(k, t, v). (coerce_utf8 k, v)) es))"
proof -
  let ?ps = "map (\<lambda>(k, t, v). ((quoted k, coerce_utf8 k), t, v)) es"
  have "\<forall>p \<in> set ?ps. keyed_reads (Suc d) p" using assms(1) by (auto simp: keyed_reads_def key_reads_coerced)
  from reads_as_members [OF this assms(2)] show ?thesis
    by (simp add: json_object_def json_member_def json_struct_def comp_def case_prod_unfold)
qed

definition plain_name :: "string \<Rightarrow> bool" where
  "plain_name k \<longleftrightarrow> (\<forall>c \<in> set k. c \<in> set ''abcdefghijklmnopqrstuvwxyz_'')"

lemma plain_name_valid: "plain_name k \<Longrightarrow> coerce_utf8 k = k"
proof (intro coerce_utf8_valid ascii_valid ballI)
  fix c
  assume "plain_name k" and "c \<in> set k"
  then have "c \<in> set ''abcdefghijklmnopqrstuvwxyz_''" by (simp only: plain_name_def)
  moreover have "\<forall>c \<in> set ''abcdefghijklmnopqrstuvwxyz_''. (of_char c :: nat) < 128" by simp
  ultimately show "(of_char c :: nat) < 128" by blast
qed

lemma json_struct_reads:
  assumes "\<forall>(k, t, v) \<in> set es. plain_name k \<and> reads_as (Suc d) t v" and "d < max_depth"
  shows "reads_as d (json_object (map (\<lambda>(k, t, v). json_member k t) es)) (json_struct (map (\<lambda>(k, t, v). (k, v)) es))"
proof -
  have "map (\<lambda>(k, t, v). (coerce_utf8 k, v)) es = map (\<lambda>(k, t, v). (k, v)) es"
    using assms(1) by (auto simp: plain_name_valid)
  moreover have "\<forall>(k, t, v) \<in> set es. reads_as (Suc d) t v" using assms(1) by auto
  ultimately show ?thesis using json_object_reads [OF _ assms(2)] by metis
qed

lemma json_array_reads:
  assumes "\<forall>x \<in> set xs. reads_as (Suc d) (f x) (g x) \<and> starts_value (f x)" and "d < max_depth"
  shows "reads_as d (json_array (map f xs)) (JArr (map g xs))"
  using reads_as_array [of "map (\<lambda>x. (f x, g x)) xs" d] assms by (simp add: json_array_def comp_def)

lemma starts_json_object [simp]: "starts_value (json_object ts)"
  by (simp add: json_object_def)

lemma entry_text_reads:
  assumes "reads_as (Suc d) t v" and "d < max_depth"
  shows "reads_as d (entry_text e t) (entry_json e v)"
  using json_struct_reads [of
      "[(''sequence'', format_int (sint (re_Sequence e)), JNum (format_int (sint (re_Sequence e)))),
        (''ledger'', quoted (re_Ledger e), text_json (re_Ledger e)),
        (''event_type'', quoted (re_EventType e), text_json (re_EventType e)),
        (''entry_hash'', quoted (re_EntryHash e), text_json (re_EntryHash e)),
        (''prev_entry_hash'', quoted (re_PrevEntryHash e), text_json (re_PrevEntryHash e)),
        (''payload'', t, v), (''created_at'', quoted (re_CreatedAt e), text_json (re_CreatedAt e))]" d] assms
  by (simp add: entry_text_def entry_json_def plain_name_def)

lemma proof_text_reads:
  assumes "Suc d < max_depth"
  shows "reads_as d (proof_text p) (proof_json p)"
  using json_struct_reads [of
      "[(''merkle_root'', quoted (rm_MerkleRoot p), text_json (rm_MerkleRoot p)),
        (''merkle_path'', json_array (map quoted (rm_MerklePath p)), JArr (map text_json (rm_MerklePath p)))]" d] assms
  by (simp add: proof_text_def proof_json_def plain_name_def json_array_reads)

lemma anchor_text_reads:
  assumes "d < max_depth"
  shows "reads_as d (anchor_text a) (anchor_json a)" and "starts_value (anchor_text a)"
  using json_struct_reads [of
      "[(''provider'', quoted (ra_Provider a), text_json (ra_Provider a)),
        (''external_id'', quoted (ra_ExternalID a), text_json (ra_ExternalID a)),
        (''confirmation'', quoted (ra_Confirmation a), text_json (ra_Confirmation a)),
        (''anchored_at'', quoted (ra_AnchoredAt a), text_json (ra_AnchoredAt a))]" d] assms
  by (simp_all add: anchor_text_def anchor_json_def plain_name_def)

text \<open>The optional member has a text exactly when it has a value, and its text is read as that value.\<close>

definition pseudonyms_entry :: "(string \<times> string) list option \<Rightarrow> (string \<times> bytes \<times> json) list" where
  "pseudonyms_entry pm =
     (case pm of
        None \<Rightarrow> []
      | Some ps \<Rightarrow> if ps = [] then []
          else [(''pseudonym_map'', json_object (map (\<lambda>(k, p). json_member k (quoted p)) ps),
                 json_struct (map (\<lambda>(k, p). (coerce_utf8 k, text_json p)) ps))])"

lemma pseudonyms_entry_parts:
  "map (\<lambda>(k, t, v). json_member k t) (pseudonyms_entry pm) = pseudonym_members pm"
  "map (\<lambda>(k, t, v). (k, v)) (pseudonyms_entry pm) = pseudonyms_json pm"
  by (simp_all add: pseudonyms_entry_def pseudonym_members_def pseudonyms_json_def split: option.split)

lemma pseudonyms_entry_reads:
  assumes "d < max_depth"
  shows "\<forall>(k, t, v) \<in> set (pseudonyms_entry pm). plain_name k \<and> reads_as d t v"
proof -
  have "reads_as d (json_object (map (\<lambda>(k, p). json_member k (quoted p)) ps))
      (json_struct (map (\<lambda>(k, p). (coerce_utf8 k, text_json p)) ps))" for ps
    using json_object_reads [of "map (\<lambda>(k, p). (k, quoted p, text_json p)) ps" d] assms
    by (simp add: case_prod_unfold comp_def)
  moreover have "plain_name ''pseudonym_map''" by (simp add: plain_name_def)
  ultimately show ?thesis by (cases pm) (simp_all add: pseudonyms_entry_def)
qed

text \<open>The text of a receipt is read as its document, if its payload is readable two levels down.\<close>

theorem receipt_reads:
  assumes "receipt_text doc = Inr txt" and "reads_whole 2 (re_Payload (rd_Entry doc)) v"
  shows "whole_value txt = Some (receipt_json doc v)"
proof -
  let ?payload = "compact False (re_Payload (rd_Entry doc))"
  let ?es = "[(''entry'', entry_text (rd_Entry doc) ?payload, entry_json (rd_Entry doc) v),
      (''merkle_proof'', proof_text (rd_MerkleProof doc), proof_json (rd_MerkleProof doc)),
      (''anchors'', json_array (map anchor_text (rd_Anchors doc)), JArr (map anchor_json (rd_Anchors doc)))]
     @ pseudonyms_entry (rd_PseudonymMap doc)
     @ [(''generated_at'', quoted (rd_GeneratedAt doc), text_json (rd_GeneratedAt doc))]"
  have depth: "Suc (Suc (Suc 0)) < max_depth" by (simp add: max_depth_def)
  have payload: "raw_marshal (re_Payload (rd_Entry doc)) = Inr ?payload" "reads_as (Suc (Suc 0)) ?payload v"
    using raw_marshal_reads [OF assms(2)] by (simp_all add: numeral_2_eq_2)
  have "reads_as (Suc 0) (entry_text (rd_Entry doc) ?payload) (entry_json (rd_Entry doc) v)"
    using payload(2) depth by (intro entry_text_reads) simp_all
  moreover have "reads_as (Suc 0) (proof_text (rd_MerkleProof doc)) (proof_json (rd_MerkleProof doc))"
    using depth by (intro proof_text_reads) simp
  moreover have "reads_as (Suc 0) (json_array (map anchor_text (rd_Anchors doc))) (JArr (map anchor_json (rd_Anchors doc)))"
    using depth by (intro json_array_reads) (simp_all add: anchor_text_reads)
  ultimately have "\<forall>(k, t, u) \<in> set ?es. plain_name k \<and> reads_as (Suc 0) t u"
    using pseudonyms_entry_reads [of "Suc 0" "rd_PseudonymMap doc"] depth by (auto simp: plain_name_def)
  from json_struct_reads [OF this] have "reads_as 0 (json_object (map (\<lambda>(k, t, v). json_member k t) ?es))
      (json_struct (map (\<lambda>(k, t, v). (k, v)) ?es))" using depth by simp
  moreover have "txt = json_object (map (\<lambda>(k, t, v). json_member k t) ?es)"
    using assms(1) payload(1) by (simp add: receipt_text_def pseudonyms_entry_parts)
  moreover have "receipt_json doc v = json_struct (map (\<lambda>(k, t, v). (k, v)) ?es)"
    by (simp add: receipt_json_def pseudonyms_entry_parts)
  ultimately have "reads_as 0 txt (receipt_json doc v)" by (simp only:)
  then show ?thesis using reads_as_whole by (simp add: whole_value_iff)
qed

subsection \<open>Texts of a proof\<close>

text \<open>A root and a path that verify are texts of hexadecimal digits, which every reader finds unchanged.\<close>

lemma hex_decode_valid: "hex_decode s = Inr b \<Longrightarrow> valid_utf8 s"
  using hex_decode_ascii by (intro ascii_valid) blast

lemma walk_path_valid: "walk_path current path = Some c \<Longrightarrow> p \<in> set path \<Longrightarrow> valid_utf8 p"
proof (induction path arbitrary: current)
  case (Cons x path)
  have "valid_utf8 x"
  proof -
    obtain b where b: "hex_decode (tl x) = Inr b" "x \<noteq> []" "hd x = CHR ''L'' \<or> hd x = CHR ''R''"
      using Cons.prems(1) by (cases x) (auto split: if_splits sum.splits)
    then obtain h t where "x = h # t" "(of_char h :: nat) < 128" "hex_decode t = Inr b" by (cases x) auto
    then show ?thesis using valid_utf8_ascii hex_decode_valid by metis
  qed
  then show ?case using Cons by (auto split: if_splits sum.splits)
qed simp

lemma VerifyInclusion_texts:
  assumes "VerifyInclusion leaf path root"
  shows "valid_utf8 root" and "\<forall>p \<in> set path. valid_utf8 p"
proof -
  obtain b where b: "hex_decode root = Inr b" "walk_path (leafNode leaf) path = Some b"
    using assms by (auto simp: VerifyInclusion_def split: sum.splits option.splits if_splits)
  show "valid_utf8 root" using b(1) by (rule hex_decode_valid)
  show "\<forall>p \<in> set path. valid_utf8 p" using walk_path_valid [OF b(2)] by blast
qed

end
