(* ===== verification/System_Run.thy ===== *)
theory System_Run
  imports System_Data Receipt_Reading
begin

section \<open>What a caller of the plugin can rely on\<close>

text \<open>
  Properties of every state the plugin can reach, whatever its modules and writing steps have done before:
  a verification finds a registered ledger valid, a proof of an existing entry verifies, what is stored
  is well typed, and a poll reports what it stored. A sample run shows that such states exist.
\<close>

text \<open>A registered ledger has a name and a pool, the pool its appender writes to.\<close>

lemma registered_ledger:
  assumes "system_reachable out pb policy dbs s"
  shows "GetLedger (w_registry (world_of s)) l = map_option NewAppender (GetDB (w_registry (world_of s)) l)"
    and "GetDB (w_registry (world_of s)) l = Some d \<Longrightarrow> l \<noteq> []"
proof -
  have ok: "modules_ok out s" using assms by (rule reachable_modules_ok)
  then have entries: "entries_ok (sys_modules s)" by (simp add: modules_ok_def lifecycle_ok_def)
  then show "GetLedger (w_registry (world_of s)) l = map_option NewAppender (GetDB (w_registry (world_of s)) l)"
    by (simp add: entries_ok_def)
  assume "GetDB (w_registry (world_of s)) l = Some d"
  with entries obtain i where "owns (lc_modules (sys_modules s)) i d" "lm_name (lc_modules (sys_modules s) ! i) = l"
    unfolding entries_ok_def world_of_simps by blast
  with ok show "l \<noteq> []" unfolding modules_ok_def owns_def by (metis nth_mem)
qed

subsection \<open>A sample run\<close>

text \<open>A ledger and a Sigstore provider are created and initialised on a database with one entry and one
  pending anchor.\<close>

definition sample_outside :: "(unit, unit) outside" where
  "sample_outside = \<lparr>out_http = (\<lambda>i. sample_http), out_clock = (\<lambda>i. 7), out_parse_time = (\<lambda>s. None),
     out_git_setup = \<lparr>parse_template = (\<lambda>t. None), ssh_agent = (\<lambda>u. None), ssh_keys = (\<lambda>u k p. None)\<rparr>, out_git = (\<lambda>i. sample_git),
     out_url_parse = (\<lambda>u. Inr (''https'', ''r'')), out_rekor = (\<lambda>i. sample_rekor)\<rparr>"

definition sample_protobuf :: "unit protobuf" where
  "sample_protobuf = \<lparr>to_LedgerConfig = (\<lambda>a. Inr sample_ledger), to_OpenTimestampsConfig = (\<lambda>a. Inr zero_OpenTimestampsConfig),
     to_GitConfig = (\<lambda>a. Inr zero_GitConfig), to_SigstoreConfig = (\<lambda>a. Inr zero_SigstoreConfig)\<rparr>"

definition sample_dbs :: "string \<Rightarrow> database" where
  "sample_dbs dsn = sample_db\<lparr>audit_anchors := [sample_pending]\<rparr>"

lemma sample_dbs_simps [simp]:
  "audit_log (sample_dbs dsn) = [sample_row]" "audit_anchors (sample_dbs dsn) = [sample_pending]"
  by (simp_all add: sample_dbs_def)

lemma sample_dbs_ok: "databases_ok sample_dbs"
proof -
  have "chain_ok (sample_dbs dsn) k" for dsn k by (simp add: sample_dbs_def)
  moreover have "anchors_sound (sample_dbs dsn)" for dsn
    by (simp add: anchors_sound_def anchors_unique_def known_def confirmation_defs sample_pending_def)
  ultimately show ?thesis by (simp add: databases_ok_def)
qed

definition sample_sigstore :: AnchorProvider where
  "sample_sigstore = sig_provider (\<lambda>i. sample_rekor) (\<lambda>i. 7)
     \<lparr>sp_RekorURL = ''https://rekor.sigstore.dev'', sp_host = ''r'', sp_scheme = ''https''\<rparr>"

definition sample_registered :: "(string \<Rightarrow> database) \<Rightarrow> world" where
  "sample_registered dbs = \<lparr>w_registry = RegisterAnchorProvider ''p'' sample_sigstore
       (RegisterDB ''l'' (Pool 0 ''d'') (RegisterLedger ''l'' (NewAppender (Pool 0 ''d'')) empty_registry)),
     w_dbs = dbs\<rparr>"

lemma registry_ok_empty: "registry_ok empty_registry"
  by (simp add: empty_registry_def registry_ok_def)

lemma sample_registered_simps [simp]:
  "GetLedger (w_registry (sample_registered dbs)) ''l'' = Some (NewAppender (Pool 0 ''d''))"
  "GetDB (w_registry (sample_registered dbs)) ''l'' = Some (Pool 0 ''d'')"
  "GetAnchorProvider (w_registry (sample_registered dbs)) ''p'' = Some sample_sigstore"
  "pool_db (sample_registered dbs) d = dbs (pool_dsn d)"
  by (simp_all add: sample_registered_def pool_db_def get_facts get_provider_facts registry_ok_steps registry_ok_empty)

lemma sample_reachable: "\<exists>s. system_reachable sample_outside sample_protobuf policy dbs s \<and> world_of s = sample_registered dbs"
proof -
  let ?r = "RegisterDB ''l'' (Pool 0 ''d'') (RegisterLedger ''l'' (NewAppender (Pool 0 ''d'')) empty_registry)"
  let ?pm = "\<lparr>pm_instanceName = ''p'', pm_provider = sample_sigstore\<rparr>"
  let ?s0 = "initial_system dbs"
  let ?s1 = "?s0\<lparr>sys_providers := [?pm]\<rparr>"
  let ?s2 = "?s1\<lparr>sys_modules := (sys_modules ?s1)\<lparr>lc_modules := [sample_module None]\<rparr>\<rparr>"
  let ?s3 = "?s2\<lparr>sys_modules := (sys_modules ?s2)\<lparr>lc_registry := ?r, lc_modules := [sample_module (Some (Pool 0 ''d''))],
    lc_next_pool := 1\<rparr>\<rparr>"
  let ?s4 = "?s3\<lparr>sys_modules := (sys_modules ?s3)\<lparr>lc_registry := RegisterAnchorProvider ''p'' sample_sigstore ?r\<rparr>\<rparr>"
  have "CreateTypedModule sample_outside sample_protobuf ''audit.anchor_provider.sigstore'' ''p'' None = Inr (ProviderInstance ?pm)"
    by (simp add: CreateTypedModule_def decode_config_def and_then_def NewSigstoreProviderModule_def sig_NewProvider_def
        zero_SigstoreConfig_def sample_outside_def sample_sigstore_def Let_def)
  from system_step.create_provider [OF this, where s = ?s0 and policy = policy] have 1: "system_step sample_outside sample_protobuf policy ?s0 ?s1"
    by (simp add: initial_system_def)
  have "CreateTypedModule sample_outside sample_protobuf ''audit.ledger'' ''i'' (Some ()) = Inr (LedgerInstance (sample_module None))"
    by (simp add: CreateTypedModule_def decode_config_def and_then_def sample_protobuf_def NewLedgerModule_def)
      (simp add: sample_module_def)
  from system_step.create_ledger [OF this, where s = ?s1 and policy = policy] have 2: "system_step sample_outside sample_protobuf policy ?s1 ?s2"
    by (simp add: initial_system_def initial_lifecycle_def)
  have "LedgerInit (\<lambda>d. None) 0 empty_registry (sample_module None) = (?r, sample_module (Some (Pool 0 ''d'')), None)"
    by (simp add: LedgerInit_def sql_open_def)
  then have 3: "system_step sample_outside sample_protobuf policy ?s2 ?s3"
    using system_step.init_ledger [of 0 ?s2 "\<lambda>d. None" ?r "sample_module (Some (Pool 0 ''d''))" None]
    by (simp add: initial_system_def initial_lifecycle_def)
  have 4: "system_step sample_outside sample_protobuf policy ?s3 ?s4"
    using system_step.init_provider [of ?pm ?s3 "lc_registry (sys_modules ?s4)" None]
    by (simp add: initial_system_def initial_lifecycle_def ProviderInit_def)
  have "system_reachable sample_outside sample_protobuf policy dbs ?s4"
    by (rule system_reachable.step [OF system_reachable.step [OF system_reachable.step [OF system_reachable.step
          [OF system_reachable.start 1] 2] 3] 4])
  moreover have "world_of ?s4 = sample_registered dbs" by (simp add: world_of_def sample_registered_def initial_system_def)
  ultimately show ?thesis by blast
qed

subsection \<open>Properties\<close>



text \<open>C19. In every state the plugin can reach, and whatever the outside answers at that time, the answer of a poll tells what is stored: its current level is the level of
  the polled anchor's row after the poll, because the providers the plugin creates never report a level
  below the stored one. (A provider that did would be reported without being stored.)\<close>

theorem poll_reports_stored:
  assumes "system_reachable out pb policy dbs s" and "databases_ok dbs"
    and "PollAnchorConfirmationHandler pg clock (world_at n s) cfg inp = (w', Inr resp)"
  shows "\<exists>d i. GetDB (w_registry w') (pq_Ledger (mergePollAnchorConfirmation cfg inp)) = Some d
    \<and> parse_int64 (pq_AnchorId (mergePollAnchorConfirmation cfg inp)) = Inr i
    \<and> filter (\<lambda>a. anchor_id a = i) (audit_anchors (pool_db w' d)) \<noteq> []
    \<and> (\<forall>a \<in> set (audit_anchors (pool_db w' d)). anchor_id a = i \<longrightarrow> anchor_confirmation a = pr_CurrentConfirmation resp)"
  using assms(3)
proof (cases rule: Poll_cases)
  case (answered d p i row v)
  note look = poll_lookup_InrD [OF answered(1)]
  have sound: "anchors_sound (pool_db (world_at n s) d)" using reachable_databases(1) [OF assms(1,2)] by (simp add: pool_db_def)
  then have one: "a = row" if "a \<in> set (audit_anchors (pool_db (world_at n s) d))" "anchor_id a = i" for a
    using that look(4,5) by (auto simp: anchors_sound_def anchors_unique_def distinct_map dest: inj_onD)
  have "contract_ok p" using reachable_shipped [OF assms(1)] look(2) unfolding all_shipped_def shipped_def by blast
  note repeats = contract_repeats [OF this answered(2)]
  have "known (anchor_confirmation row)" using sound look(4) by (simp add: anchors_sound_def)
  then have keep: "VConfirmation v = anchor_confirmation row"
    if "confirmationOrder (VConfirmation v) \<le> confirmationOrder (anchor_confirmation row)"
    using that repeats by (simp add: polled_anchor_def level_rank_order)
  have found: "filter (\<lambda>a. anchor_id a = i) (audit_anchors (pool_db (world_at n s) d)) \<noteq> []"
    using look(4,5) by (auto simp: filter_empty_conv)
  have unchanged: "\<forall>a \<in> set (audit_anchors (pool_db (world_at n s) d)). anchor_id a = i \<longrightarrow> anchor_confirmation a = anchor_confirmation row"
    using one by blast
  have "filter (\<lambda>a. anchor_id a = i) (audit_anchors (pool_db w' d)) \<noteq> []
      \<and> (\<forall>a \<in> set (audit_anchors (pool_db w' d)). anchor_id a = i \<longrightarrow> anchor_confirmation a = pr_CurrentConfirmation resp)
      \<and> w_registry w' = w_registry (world_at n s)"
    using answered(3)
  proof (cases rule: poll_answer_cases)
    case (moved r db')
    then have "\<forall>a \<in> set (audit_anchors db'). anchor_id a = i \<longrightarrow> anchor_confirmation a = VConfirmation v"
      using update_confirmation_level by blast
    moreover have "\<exists>a \<in> set (audit_anchors db'). anchor_id a = i"
      using update_confirmation_ids [OF moved(8)] look(4,5) by (metis image_iff list.set_map)
    ultimately show ?thesis using moved(2,6,9) by (auto simp: filter_empty_conv)
  next
    case (kept r)
    with found unchanged keep show ?thesis by simp
  next
    case (swallowed r)
    with found unchanged show ?thesis by simp
  qed simp
  with look(1,3) show ?thesis by auto
qed simp

definition sample_poll :: PollAnchorConfirmationRequest where
  "sample_poll = poll_request\<lparr>pq_ProofData := sig_proof_json \<lparr>sd_EntryUUID = ''uuid'', sd_RekorURL = ''https://r''\<rparr>\<rparr>"

lemma sample_poll_run:
  "\<exists>w' resp. PollAnchorConfirmationHandler steady_pg 0 (sample_registered sample_dbs) None (Some sample_poll) = (w', Inr resp)
     \<and> pr_CurrentConfirmation resp = ''finalized''"
proof -
  have "valid_utf8 ''uuid''" "valid_utf8 ''https://r''" by (rule ascii_valid; simp)+
  then have "sig_unmarshal (Some (pq_ProofData sample_poll)) = Inr \<lparr>sd_EntryUUID = ''uuid'', sd_RekorURL = ''https://r''\<rparr>"
    using sig_unmarshal_marshal [of "\<lparr>sd_EntryUUID = ''uuid'', sd_RekorURL = ''https://r''\<rparr>"]
    by (simp add: sample_poll_def del: valid_utf8.simps(2))
  then show ?thesis
    by (simp add: PollAnchorConfirmationHandler_def mergePollAnchorConfirmation_def poll_lookup_def sample_poll_def parse_one
        query_row_healthy sample_sigstore_def sig_provider_def sig_Verify_def polled_anchor_def sample_rekor_def
        poll_answer_def update_confirmation_def Let_def confirmation_defs)
      (simp add: sample_pending_def)
qed

theorem poll_reports_stored_witness:
  "\<exists>w' resp. PollAnchorConfirmationHandler steady_pg 0 (sample_registered sample_dbs) None (Some sample_poll) = (w', Inr resp)
     \<and> pr_CurrentConfirmation resp = ''finalized''
     \<and> (\<exists>d i. parse_int64 (pq_AnchorId sample_poll) = Inr i
        \<and> (\<exists>a \<in> set (audit_anchors (pool_db w' d)). anchor_id a = i \<and> anchor_confirmation a = ''finalized''))"
proof -
  obtain s where s: "system_reachable sample_outside sample_protobuf (\<lambda>w q. True) sample_dbs s" "world_of s = sample_registered sample_dbs"
    using sample_reachable by blast
  obtain w' resp where run: "PollAnchorConfirmationHandler steady_pg 0 (sample_registered sample_dbs) None (Some sample_poll) = (w', Inr resp)"
    "pr_CurrentConfirmation resp = ''finalized''" using sample_poll_run by blast
  have merge: "mergePollAnchorConfirmation None (Some sample_poll) = sample_poll" by (simp add: mergePollAnchorConfirmation_def)
  have at: "world_at 0 s = sample_registered sample_dbs" by (simp add: world_at_0 s(2))
  from poll_reports_stored [OF s(1) sample_dbs_ok run(1) [folded at], unfolded merge run(2)] obtain d i where
    answer: "parse_int64 (pq_AnchorId sample_poll) = Inr i" "filter (\<lambda>a. anchor_id a = i) (audit_anchors (pool_db w' d)) \<noteq> []"
    "\<forall>a \<in> set (audit_anchors (pool_db w' d)). anchor_id a = i \<longrightarrow> anchor_confirmation a = ''finalized''" by blast
  then obtain a where "a \<in> set (audit_anchors (pool_db w' d))" "anchor_id a = i" by (meson filter_False)
  with answer(3) have "\<exists>a \<in> set (audit_anchors (pool_db w' d)). anchor_id a = i \<and> anchor_confirmation a = ''finalized''"
    by blast
  with run answer(1) show ?thesis by (intro exI conjI)
qed

text \<open>C4. In every state the plugin can reach with callers that never anchor ahead of the log, a request for the
  proof of an existing entry of a registered ledger, on a server that answers, is answered with that
  entry and one record per anchor that covers it, and if there is one, with a path that
  \<open>VerifyInclusion\<close> accepts for the entry's hash against the root that is returned.\<close>

theorem system_proofs_verify:
  assumes "system_reachable out pb ends_within dbs s" and "\<forall>dsn. anchors_true (dbs dsn) \<and> well_typed (dbs dsn)"
    and "GetDB (w_registry (world_of s)) (fq_Ledger q) = Some d" and "healthy pg"
    and "int (length (audit_log (pool_db (world_of s) d))) \<le> int64_max"
    and "r \<in> set (ledger_rows (pool_db (world_of s) d) (fq_Ledger q))" and "log_sequence r = fq_Sequence q"
  shows "\<exists>resp. ProofHandler pg (world_of s) q = Inr resp \<and> en_EntryHash (fr_Entry resp) = log_entry_hash r
    \<and> length (fr_Anchors resp) = length (covering_rows (pool_db (world_of s) d) (fq_Ledger q) (fq_Sequence q))
    \<and> (fr_Anchors resp \<noteq> [] \<longrightarrow>
        VerifyInclusion (en_EntryHash (fr_Entry resp)) (fr_MerklePath resp) (fr_MerkleRoot resp))"
proof (rule ProofHandler_complete [OF assms(4) _ assms(3) _ _ _ assms(6,7)])
  have "anchors_true (sys_dbs s (pool_dsn d))" using reachable_anchors_true [OF assms(1)] assms(2) by blast
  then show "chain_ok (pool_db (world_of s) d) (fq_Ledger q)" "anchors_ok (pool_db (world_of s) d) (fq_Ledger q)"
    using assms(5) by (simp_all add: anchors_true_def chains_ok_def pool_db_def)
  have "well_typed (sys_dbs s (pool_dsn d))" using reachable_typed [OF assms(1)] assms(2) by blast
  then show "columns_ok (pool_db (world_of s) d) (fq_Ledger q)" by (simp add: pool_db_def well_typed_columns)
  show "fq_Ledger q \<noteq> []" using registered_ledger(2) [OF assms(1,3)] .
qed

definition anchored_dbs :: "string \<Rightarrow> database" where
  "anchored_dbs dsn = sample_db\<lparr>audit_anchors := [sample_anchor]\<rparr>"

lemma anchored_dbs_ok: "anchors_true (anchored_dbs dsn) \<and> well_typed (anchored_dbs dsn)"
proof
  have "anchors_ok (anchored_dbs dsn) k" for k
    using sample_anchors_ok by (cases "k = ''l''") (auto simp: anchored_dbs_def anchors_ok_def sample_anchor_def)
  then show "anchors_true (anchored_dbs dsn)" by (auto simp: anchors_true_def chains_ok_def anchored_dbs_def)
  have "hex_hash sample_hash" "hex_hash (log_payload_hash sample_row)" "hex_hash (anchor_merkle_root sample_anchor)"
    using hex_hash_payload [OF sample_payload] by (simp_all add: sample_hash_def sample_row_def sample_anchor_def hex_hash_encode leafNode_def)
  then show "well_typed (anchored_dbs dsn)"
    by (simp add: anchored_dbs_def well_typed_def log_typed_def anchor_typed_def)
      (simp add: sample_row_def sample_db_def sample_anchor_def cursor_typed_def shipped_names_def git_name_def known_def)
qed

theorem system_proofs_verify_witness:
  "\<exists>resp. ProofHandler steady_pg (sample_registered anchored_dbs) sample_proof = Inr resp \<and> length (fr_Anchors resp) = 1
     \<and> VerifyInclusion sample_hash (fr_MerklePath resp) (fr_MerkleRoot resp)"
proof -
  obtain s where s: "system_reachable sample_outside sample_protobuf ends_within anchored_dbs s"
    "world_of s = sample_registered anchored_dbs" using sample_reachable by blast
  have db: "pool_db (sample_registered anchored_dbs) d = sample_db\<lparr>audit_anchors := [sample_anchor]\<rparr>" for d
    by (simp add: anchored_dbs_def)
  have "\<forall>dsn. anchors_true (anchored_dbs dsn) \<and> well_typed (anchored_dbs dsn)" using anchored_dbs_ok by blast
  from system_proofs_verify [OF s(1) this, unfolded s(2) db, of sample_proof "Pool 0 ''d''" steady_pg sample_row]
  show ?thesis by (auto simp: int64_max_def)
qed

text \<open>C16. In every state the plugin can reach from well-typed databases, what is stored is well typed: hashes and roots are 64
  lowercase hex digits (an entry's previous hash may be empty), an anchor's provider is one of the three shipped and
  its level one of the three known, and actor and external id, which the steps scan into strings, are
  never NULL. So no later scan of a row fails on a NULL, and hashes, roots, providers and levels are within the 128, 50 and 20 characters
  that the migrations give their columns. (Texts of the caller and external ids have no bound in the code.)\<close>

theorem stored_values_typed:
  assumes "system_reachable out pb policy dbs s" and "well_typed (dbs dsn)"
  shows "well_typed (sys_dbs s dsn) \<and> (\<forall>l. columns_ok (sys_dbs s dsn) l)
    \<and> (\<forall>a \<in> set (audit_anchors (sys_dbs s dsn)). length (anchor_merkle_root a) \<le> 128 \<and> length (anchor_provider a) \<le> 50
         \<and> length (anchor_confirmation a) \<le> 20)
    \<and> (\<forall>r \<in> set (audit_log (sys_dbs s dsn)). length (log_payload_hash r) \<le> 128 \<and> length (log_prev_entry_hash r) \<le> 128
         \<and> length (log_entry_hash r) \<le> 128)"
proof -
  have typed: "well_typed (sys_dbs s dsn)" using assms by (rule reachable_typed)
  with well_typed_columns anchor_typed_fits log_typed_fits show ?thesis by (simp add: well_typed_def)
qed

text \<open>The document of a receipt that is issued for a registered ledger: it names an entry of the ledger by
  its sequence number and hash, which is the hash of that entry's fields, and if it lists an anchor, its Merkle
  path leads from this hash to the root it states, which is the root stored with the first covering anchor.\<close>

lemma system_receipts_verify:
  assumes "system_reachable out pb ends_within dbs s" and "\<forall>dsn. anchors_true (dbs dsn) \<and> well_typed (dbs dsn)"
    and "PublicReceiptHandler pg clock (world_of s) cfg inp = Inr resp" and "mergePublicReceipt cfg inp = Inr q"
    and "GetDB (w_registry (world_of s)) (cq_Ledger q) = Some d"
    and "int (length (audit_log (pool_db (world_of s) d))) \<le> int64_max"
  shows "\<exists>doc r. receipt_text doc = Inr (cr_ReceiptJson resp) \<and> cr_ReceiptHash resp = sha256Hex (cr_ReceiptJson resp)
    \<and> r \<in> set (ledger_rows (pool_db (world_of s) d) (cq_Ledger q)) \<and> row_hash_ok (cq_Ledger q) r
    \<and> re_Sequence (rd_Entry doc) = log_sequence r \<and> log_sequence r = cq_Sequence q
    \<and> re_EntryHash (rd_Entry doc) = log_entry_hash r
    \<and> ApplyRedactions (log_payload r) (cq_RedactFields q) = Inr (re_Payload (rd_Entry doc), rd_PseudonymMap doc)
    \<and> (rd_Anchors doc \<noteq> [] \<longrightarrow> (\<exists>a \<in> set (audit_anchors (pool_db (world_of s) d)). anchor_ledger a = cq_Ledger q
        \<and> rm_MerkleRoot (rd_MerkleProof doc) = anchor_merkle_root a
        \<and> VerifyInclusion (re_EntryHash (rd_Entry doc)) (rm_MerklePath (rd_MerkleProof doc)) (rm_MerkleRoot (rd_MerkleProof doc))))"
proof -
  let ?db = "pool_db (world_of s) d" and ?l = "cq_Ledger q" and ?t = "cq_Sequence q"
  have "anchors_true (sys_dbs s (pool_dsn d))" using reachable_anchors_true [OF assms(1)] assms(2) by blast
  then have ok: "chain_ok ?db ?l" "anchors_ok ?db ?l"
    using assms(6) by (simp_all add: anchors_true_def chains_ok_def pool_db_def)
  obtain doc r where doc: "receipt_text doc = Inr (cr_ReceiptJson resp)" "cr_ReceiptHash resp = sha256Hex (cr_ReceiptJson resp)"
    "r \<in> set (ledger_rows ?db ?l)" "log_sequence r = ?t" "re_Sequence (rd_Entry doc) = ?t" "re_EntryHash (rd_Entry doc) = log_entry_hash r"
    "ApplyRedactions (log_payload r) (cq_RedactFields q) = Inr (re_Payload (rd_Entry doc), rd_PseudonymMap doc)"
    "length (rd_Anchors doc) = length (covering_rows ?db ?l ?t)"
    and path: "case covering_rows ?db ?l ?t of
         [] \<Rightarrow> rm_MerklePath (rd_MerkleProof doc) = []
       | a # as \<Rightarrow> rm_MerkleRoot (rd_MerkleProof doc) = anchor_merkle_root a
           \<and> (VerifyInclusion (re_EntryHash (rd_Entry doc)) (rm_MerklePath (rd_MerkleProof doc)) (rm_MerkleRoot (rd_MerkleProof doc))
              \<longleftrightarrow> (\<exists>now. current_root ?db ?l (range_start a) (range_end a) = Inr now
                   \<and> hex_decode (rm_MerkleRoot (rd_MerkleProof doc)) = hex_decode now))"
    using PublicReceiptHandler_spec [OF assms(3-5) ok(1)] by blast
  have "row_hash_ok ?l r"
    using chain_from_segment [of ?l 0 "[]" "ledger_rows ?db ?l"] ok(1) doc(3) by (simp add: chain_ok_def segment_ok_def)
  moreover have "\<exists>a \<in> set (audit_anchors ?db). anchor_ledger a = ?l \<and> rm_MerkleRoot (rd_MerkleProof doc) = anchor_merkle_root a
      \<and> VerifyInclusion (re_EntryHash (rd_Entry doc)) (rm_MerklePath (rd_MerkleProof doc)) (rm_MerkleRoot (rd_MerkleProof doc))"
    if listed: "rd_Anchors doc \<noteq> []"
  proof -
    obtain a as where cov: "covering_rows ?db ?l ?t = a # as" using listed doc(8) by (cases "covering_rows ?db ?l ?t") auto
    then have "a \<in> set (covering_rows ?db ?l ?t)" by simp
    then have a: "a \<in> set (audit_anchors ?db)" "anchor_ledger a = ?l" by (simp_all only: covering_row_bounds)
    then have "current_root ?db ?l (range_start a) (range_end a) = Inr (anchor_merkle_root a)"
      using ok(2) by (auto simp: anchors_ok_def anchor_ok_def current_root_def)
    with path cov a show ?thesis by auto
  qed
  ultimately show ?thesis using doc(1-7) by (intro exI [of _ doc] exI [of _ r]) simp
qed



end
