(* ===== verification/Pipeline.thy ===== *)
theory Pipeline
  imports System_Run
begin

section \<open>From an event to its proof\<close>

text \<open>
  The three steps a workflow runs one after the other: \<open>step.audit.append\<close> records an event,
  \<open>step.audit.anchor\<close> witnesses the ledger up to its end, and \<open>step.audit.proof\<close> shows that the event is
  covered. With servers and providers that answer, the pipeline goes through in every state the plugin
  can reach, and its proof verifies.
\<close>

text \<open>The append.\<close>

lemma append_step:
  assumes "healthy pg" and "pg_nextval pg InsertLog \<notin> log_id ` set (audit_log (pool_db w d))"
    and "GetLedger (w_registry w) (aq_Ledger q) = Some (NewAppender d)" and "aq_Ledger q \<noteq> []" and "aq_EventType q \<noteq> []"
    and "is_ok (json_decode (aq_Payload q))" and "chain_ok (pool_db w d) (aq_Ledger q)"
    and "int (length (ledger_rows (pool_db w d) (aq_Ledger q))) < int64_max"
    and "audit_ledgers (pool_db w d) (aq_Ledger q) = Some c"
    and "jsonb_refusal pg (jsonb_args (aq_Payload q) (aq_Metadata q)) = None"
  obtains r ph where "r = new_row pg c (aq_Ledger q) (aq_EventType q) (aq_Payload q) ph (aq_Metadata q) (aq_Actor q)"
    "AppendHandler pg w q = (put_db w d (add_entry (pool_db w d) c r),
       Inr \<lparr>ar_Sequence = log_sequence r, ar_EntryHash = log_entry_hash r, ar_CreatedAt = format_rfc3339 (pg_now pg)\<rparr>)"
proof -
  obtain x where "Canonicalize (aq_Payload q) = Inr x" using assms(6) by (metis Canonicalize_ok_iff is_ok_iff)
  then obtain ph where ph: "PayloadHash (aq_Payload q) = Inr ph" by (simp add: PayloadHash_def)
  from Append_healthy [OF assms(1,2,7,8,9) ph refl assms(10)] show thesis
    using assms(3-5) by (intro that [OF refl, of ph]) (simp add: AppendHandler_def NewAppender_def)
qed

text \<open>The anchor, over a range that is not empty.\<close>

lemma anchor_step:
  assumes "healthy pg" and "GetDB (w_registry w) l = Some d" and "l \<noteq> []" and "names \<noteq> []"
    and "audit_ledgers db l = Some c" and "anchored_rows db l s (last_sequence c) \<noteq> []"
    and "\<forall>bs. length bs = 32 \<longrightarrow> anchors_answer (w_registry w) (hex_encode bs) names" and "fresh_anchor_ids pg db (length names)"
    and "q = \<lparr>nq_Ledger = l, nq_StartSequence = s, nq_EndSequence = 0, nq_Providers = names\<rparr>"
  obtains resp new where
    "AnchorHandler pg order (put_db w d db) q = (put_db w d (db\<lparr>audit_anchors := audit_anchors db @ new\<rparr>), Inr resp)"
    "length (nr_Anchors resp) = length names" "\<forall>a \<in> set new. anchor_external_id a \<noteq> None"
    "\<exists>a \<in> set (audit_anchors db @ new). anchor_ledger a = l \<and> range_start a = s \<and> range_end a = last_sequence c"
    "chain_ok db l \<Longrightarrow> anchors_ok db l \<Longrightarrow> anchors_ok (db\<lparr>audit_anchors := audit_anchors db @ new\<rparr>) l"
proof -
  have e: "resolve_end pg db q = Inr (last_sequence c)"
    by (simp add: assms(9) resolve_end_def cursor_rows_def assms(5) query_row_healthy [OF assms(1)])
  obtain root where root: "anchor_root pg db l s (last_sequence c) = Inr root"
    using anchor_root_healthy [OF assms(1,6)] by (auto simp: is_ok_iff)
  then have "anchors_answer (w_registry w) root names" using anchor_root_InrD assms(7) by (metis MerkleRoot_digest)
  then obtain db' recs where loop: "anchor_loop pg (w_registry w) l s (last_sequence c) root 0 db [] names = (db', Inr recs)"
    using anchor_loop_answers [OF assms(1) _ assms(8), of "w_registry w" root l s "last_sequence c" "[]"]
    by (auto simp: is_ok_iff) (metis prod.collapse)
  obtain new where new: "db' = db\<lparr>audit_anchors := audit_anchors db @ new\<rparr>" "\<forall>a \<in> set new. anchor_row_for l s (last_sequence c) root a"
    and recs: "length recs = length names" "\<forall>x \<in> set recs. (l, rec_Provider x, s, last_sequence c) \<in> anchor_key ` set (audit_anchors db')"
    using anchor_loop_effect [OF loop] by auto
  have run: "AnchorHandler pg order (put_db w d db) q = (put_db w d db', Inr \<lparr>nr_Anchors = recs\<rparr>)"
    using AnchorHandler_at [of q w d pg order db] assms(2-4,9) e root loop by (simp add: provider_names_def)
  show thesis
  proof (rule that [of new "\<lparr>nr_Anchors = recs\<rparr>"])
    obtain x where "x \<in> set recs" using recs(1) assms(4) by (cases recs) auto
    with recs(2) obtain a where "a \<in> set (audit_anchors db')" "anchor_key a = (l, rec_Provider x, s, last_sequence c)" by force
    then show "\<exists>a \<in> set (audit_anchors db @ new). anchor_ledger a = l \<and> range_start a = s \<and> range_end a = last_sequence c"
      by (auto simp: new(1) anchor_key_def)
    show "anchors_ok (db\<lparr>audit_anchors := audit_anchors db @ new\<rparr>) l" if "chain_ok db l" "anchors_ok db l"
      using anchor_run_ok [OF e, of root pg "w_registry w" 0 "[]" names db' "Inr recs" l] root loop that
      by (simp add: assms(9) new(1))
  qed (use run new recs(1) in \<open>auto simp: anchor_row_for_def\<close>)
qed

text \<open>The database after both: the ledger is as sound as before, and an anchor covers the new entry.\<close>

lemma appended_state:
  assumes "chain_ok db l" and "anchors_ok db l" and "columns_ok db l" and "audit_ledgers db l = Some c"
    and "int (length (ledger_rows db l)) < int64_max" and "r = new_row pg c l e p ph m a"
  defines "db1 \<equiv> add_entry db c r"
  shows "chain_ok db1 l" "anchors_ok db1 l" "columns_ok db1 l" "r \<in> set (ledger_rows db1 l)"
    "audit_ledgers db1 l = Some (c\<lparr>last_sequence := log_sequence r, last_entry_hash := log_entry_hash r\<rparr>)"
    "sint s \<le> int (length (ledger_rows db l)) + 1 \<Longrightarrow> r \<in> set (anchored_rows db1 l s (log_sequence r)) \<and> sint s \<le> sint (log_sequence r)"
proof -
  have last: "sint (last_sequence c) = int (length (ledger_rows db l))" by (rule chain_ok_cursor [OF assms(1,4)])
  then have bound: "sint (last_sequence c) < int64_max" using assms(5) by simp
  show chain: "chain_ok db1 l" unfolding db1_def assms(6) by (rule chain_ok_add_entry [OF assms(1,4) bound])
  show "anchors_ok db1 l" unfolding db1_def by (rule anchors_ok_add_entry [OF assms(1,4,1) bound assms(2,6)])
  show r: "r \<in> set (ledger_rows db1 l)" by (simp add: db1_def assms(6) ledger_rows_add_entry)
  show "columns_ok db1 l" using assms(3) by (auto simp: columns_ok_def db1_def assms(6) ledger_rows_add_entry)
  show "audit_ledgers db1 l = Some (c\<lparr>last_sequence := log_sequence r, last_entry_hash := log_entry_hash r\<rparr>)"
    by (simp add: db1_def assms(6) add_entry_def)
  show "r \<in> set (anchored_rows db1 l s (log_sequence r)) \<and> sint s \<le> sint (log_sequence r)"
    if "sint s \<le> int (length (ledger_rows db l)) + 1"
    using that r last bound by (simp add: anchored_rows_def chain_ok_select [OF chain] seq_of_def assms(6) sint_succ)
qed

text \<open>C6. Take any state the plugin can reach from sound, well-typed databases with callers that never anchor ahead of
  the log, and a ledger that is registered, has its row in \<^verbatim>\<open>audit_ledgers\<close> (which nothing under src/ inserts), and has room. An event
  with a non-empty type whose payload begins with a JSON value then goes through the whole pipeline, if the servers
  answer, take the payload and metadata as JSONB and give fresh ids, and at least one provider is listed and each anchors any
  32-byte digest: the append answers; an anchor request up to the latest entry, from any start up to the new entry, answers with
  one record per provider; and the proof of the new entry answers with an anchor and with a path that verifies for the
  hash the append returned.\<close>

theorem pipeline_succeeds:
  assumes "system_reachable out pb ends_within dbs s" and "\<forall>dsn. anchors_true (dbs dsn) \<and> well_typed (dbs dsn)"
    and "GetDB (w_registry (world_of s)) (aq_Ledger q) = Some d" and "db = pool_db (world_of s) d"
    and "audit_ledgers db (aq_Ledger q) = Some c" and "int (length (audit_log db)) < int64_max"
    and "aq_EventType q \<noteq> []" and "is_ok (json_decode (aq_Payload q))"
    and "jsonb_refusal pg1 (jsonb_args (aq_Payload q) (aq_Metadata q)) = None" and "healthy pg1" and "healthy pg2" and "healthy pg3"
    and "pg_nextval pg1 InsertLog \<notin> log_id ` set (audit_log db)" and "fresh_anchor_ids pg2 db (length names)"
    and "names \<noteq> []" and "\<forall>bs. length bs = 32 \<longrightarrow> anchors_answer (w_registry (world_of s)) (hex_encode bs) names"
    and "sint start \<le> int (length (ledger_rows db (aq_Ledger q))) + 1"
  shows "\<exists>w1 a w2 b f. AppendHandler pg1 (world_of s) q = (w1, Inr a)
    \<and> AnchorHandler pg2 order w1 \<lparr>nq_Ledger = aq_Ledger q, nq_StartSequence = start, nq_EndSequence = 0, nq_Providers = names\<rparr> = (w2, Inr b)
    \<and> ProofHandler pg3 w2 \<lparr>fq_Ledger = aq_Ledger q, fq_Sequence = ar_Sequence a\<rparr> = Inr f
    \<and> length (nr_Anchors b) = length names \<and> fr_Anchors f \<noteq> [] \<and> en_EntryHash (fr_Entry f) = ar_EntryHash a
    \<and> VerifyInclusion (ar_EntryHash a) (fr_MerklePath f) (fr_MerkleRoot f)"
proof -
  let ?w = "world_of s" and ?l = "aq_Ledger q"
  have l: "?l \<noteq> []" using registered_ledger(2) [OF assms(1,3)] .
  have "anchors_true db" "well_typed db"
    using assms(1,2,4) reachable_anchors_true [OF assms(1), of "pool_dsn d"] reachable_typed [OF assms(1), of "pool_dsn d"]
    by (auto simp: pool_db_def)
  then have ok: "chain_ok db ?l" "anchors_ok db ?l" "columns_ok db ?l"
    using assms(6) by (simp_all add: anchors_true_def chains_ok_def well_typed_columns)
  have len: "int (length (ledger_rows db ?l)) < int64_max"
    using assms(6) length_filter_le [of "\<lambda>r. log_ledger r = ?l" "audit_log db"] unfolding ledger_rows_def by linarith
  obtain r ph where r: "r = new_row pg1 c ?l (aq_EventType q) (aq_Payload q) ph (aq_Metadata q) (aq_Actor q)"
    and append: "AppendHandler pg1 ?w q = (put_db ?w d (add_entry db c r),
      Inr \<lparr>ar_Sequence = log_sequence r, ar_EntryHash = log_entry_hash r, ar_CreatedAt = format_rfc3339 (pg_now pg1)\<rparr>)"
    using append_step [of pg1 ?w d q c] assms(3,5,7,8,9,10,13) l ok(1) len registered_ledger(1) [OF assms(1), of ?l]
    unfolding assms(4) by auto
  let ?db1 = "add_entry db c r" and ?c1 = "c\<lparr>last_sequence := log_sequence r, last_entry_hash := log_entry_hash r\<rparr>"
  note st = appended_state [OF ok assms(5) len r]
  have covered: "r \<in> set (anchored_rows ?db1 ?l start (log_sequence r))" "sint start \<le> sint (log_sequence r)"
    using st(6) [OF assms(17)] by simp_all
  have rows: "anchored_rows ?db1 ?l start (last_sequence ?c1) \<noteq> []" using covered(1) by auto
  have fresh: "fresh_anchor_ids pg2 ?db1 (length names)" using assms(14) by (simp add: fresh_anchor_ids_def)
  obtain b new where anchor: "AnchorHandler pg2 order (put_db ?w d ?db1)
      \<lparr>nq_Ledger = ?l, nq_StartSequence = start, nq_EndSequence = 0, nq_Providers = names\<rparr>
        = (put_db ?w d (?db1\<lparr>audit_anchors := audit_anchors ?db1 @ new\<rparr>), Inr b)"
    and new: "length (nr_Anchors b) = length names" "\<forall>a \<in> set new. anchor_external_id a \<noteq> None"
      "\<exists>a \<in> set (audit_anchors ?db1 @ new). anchor_ledger a = ?l \<and> range_start a = start \<and> range_end a = last_sequence ?c1"
      "anchors_ok (?db1\<lparr>audit_anchors := audit_anchors ?db1 @ new\<rparr>) ?l"
    using anchor_step [OF assms(11) assms(3) l assms(15) st(5) rows assms(16) fresh refl, of order] st(1,2) by metis
  let ?db2 = "?db1\<lparr>audit_anchors := audit_anchors ?db1 @ new\<rparr>" and ?f = "\<lparr>fq_Ledger = ?l, fq_Sequence = log_sequence r\<rparr>"
  have "columns_ok ?db2 ?l" using st(3) new(2) by (auto simp: columns_ok_def)
  then obtain f where f: "ProofHandler pg3 (put_db ?w d ?db2) ?f = Inr f" "en_EntryHash (fr_Entry f) = log_entry_hash r"
    "length (fr_Anchors f) = length (covering_rows ?db2 ?l (log_sequence r))"
    "fr_Anchors f \<noteq> [] \<longrightarrow> VerifyInclusion (en_EntryHash (fr_Entry f)) (fr_MerklePath f) (fr_MerkleRoot f)"
    using ProofHandler_complete [OF assms(12), of ?f "put_db ?w d ?db2" d r] l assms(3) st(1,4) new(4) by auto
  obtain a where "a \<in> set (audit_anchors ?db1 @ new)" "anchor_ledger a = ?l" "range_start a = start" "range_end a = log_sequence r"
    using new(3) by auto
  then have "a \<in> set (covering_rows ?db2 ?l (log_sequence r))" using covered(2) by (simp add: covering_rows_def)
  then have "fr_Anchors f \<noteq> []" using f(3) by auto
  with append anchor new(1) f show ?thesis by (intro exI conjI) (assumption | force)+
qed

subsection \<open>A sample\<close>

text \<open>A second event on the sample ledger, on a server whose next ids are 2.\<close>

definition next_pg :: pg where
  "next_pg = steady_pg\<lparr>pg_nextval := (\<lambda>s. 2)\<rparr>"

lemma next_pg_simps [simp]: "healthy next_pg" "pg_nextval next_pg s = 2" "pg_json_error next_pg = pg_json_error steady_pg"
  using healthy_steady by (simp_all add: next_pg_def healthy_def)

definition second_event :: AppendRequest where
  "second_event = \<lparr>aq_Ledger = ''l'', aq_EventType = ''created'', aq_Payload = ''[1]'', aq_Actor = ''bob'', aq_Metadata = None\<rparr>"

lemma sample_sigstore_answers:
  "length bs = 32 \<Longrightarrow> anchors_answer (w_registry (sample_registered dbs)) (hex_encode bs) [''p'']"
  by (simp add: anchors_answer_def sample_sigstore_def sig_provider_def sig_Anchor_def rekor_entry_def sample_rekor_def is_ok_iff Let_def)

theorem pipeline_succeeds_witness:
  "\<exists>w1 a w2 b f. AppendHandler next_pg (sample_registered anchored_dbs) second_event = (w1, Inr a)
    \<and> AnchorHandler next_pg id w1 \<lparr>nq_Ledger = ''l'', nq_StartSequence = 1, nq_EndSequence = 0, nq_Providers = [''p'']\<rparr> = (w2, Inr b)
    \<and> ProofHandler next_pg w2 \<lparr>fq_Ledger = ''l'', fq_Sequence = ar_Sequence a\<rparr> = Inr f
    \<and> length (nr_Anchors b) = 1 \<and> VerifyInclusion (ar_EntryHash a) (fr_MerklePath f) (fr_MerkleRoot f)"
proof -
  obtain s where s: "system_reachable sample_outside sample_protobuf ends_within anchored_dbs s"
    "world_of s = sample_registered anchored_dbs" using sample_reachable by blast
  have good: "\<forall>dsn. anchors_true (anchored_dbs dsn) \<and> well_typed (anchored_dbs dsn)" using anchored_dbs_ok by blast
  have json: "is_ok (json_decode ''[1]'')" 
    using sample_payload Canonicalize_ok_iff [of "''[1]''"] by (auto simp: PayloadHash_def is_ok_iff split: sum.splits)
  let ?c = "new_ledger\<lparr>last_sequence := 1, last_entry_hash := sample_hash\<rparr>"
  have cursor: "audit_ledgers (anchored_dbs ''d'') (aq_Ledger second_event) = Some ?c"
    by (simp add: anchored_dbs_def sample_db_def second_event_def)
  have ids: "2 \<notin> log_id ` set (audit_log (anchored_dbs ''d''))" "fresh_anchor_ids next_pg (anchored_dbs ''d'') 1"
    by (simp_all add: anchored_dbs_def fresh_anchor_ids_def inj_on_def) (simp_all add: sample_row_def sample_anchor_def)
  show ?thesis
    using pipeline_succeeds [OF s(1) good, unfolded s(2), of second_event "Pool 0 ''d''", OF _ refl, of
        ?c next_pg next_pg next_pg "[''p'']" 1 id] json cursor ids sample_sigstore_answers
    by (simp add: second_event_def anchored_dbs_def int64_max_def jsonb_args_def) metis
qed

subsection \<open>What is stored after a write\<close>

lemma sample_appended:
  "\<exists>t. system_reachable sample_outside sample_protobuf ends_within anchored_dbs t \<and> length (audit_log (sys_dbs t ''d'')) = 2"
proof -
  let ?w = "sample_registered anchored_dbs" and ?c = "new_ledger\<lparr>last_sequence := 1, last_entry_hash := sample_hash\<rparr>"
  obtain s where s: "system_reachable sample_outside sample_protobuf ends_within anchored_dbs s" "world_of s = ?w"
    using sample_reachable by blast
  have db: "pool_db ?w (Pool 0 ''d'') = sample_db\<lparr>audit_anchors := [sample_anchor]\<rparr>" by (simp add: anchored_dbs_def)
  have json: "is_ok (json_decode ''[1]'')"
    using sample_payload Canonicalize_ok_iff [of "''[1]''"] by (auto simp: PayloadHash_def is_ok_iff split: sum.splits)
  have cursor: "audit_ledgers (pool_db ?w (Pool 0 ''d'')) ''l'' = Some ?c" by (simp add: anchored_dbs_def sample_db_def)
  have id: "2 \<noteq> log_id sample_row" by (simp add: sample_row_def)
  have ready: "pg_nextval next_pg InsertLog \<notin> log_id ` set (audit_log (pool_db ?w (Pool 0 ''d'')))"
    "GetLedger (w_registry ?w) (aq_Ledger second_event) = Some (NewAppender (Pool 0 ''d''))" "aq_Ledger second_event \<noteq> []"
    "aq_EventType second_event \<noteq> []" "is_ok (json_decode (aq_Payload second_event))"
    "chain_ok (pool_db ?w (Pool 0 ''d'')) (aq_Ledger second_event)"
    "int (length (ledger_rows (pool_db ?w (Pool 0 ''d'')) (aq_Ledger second_event))) < int64_max"
    "audit_ledgers (pool_db ?w (Pool 0 ''d'')) (aq_Ledger second_event) = Some ?c"
    "jsonb_refusal next_pg (jsonb_args (aq_Payload second_event) (aq_Metadata second_event)) = None"
    using json cursor id by (simp_all add: second_event_def db jsonb_args_def int64_max_def del: sample_registered_simps(4))
  obtain r ph where "AppendHandler next_pg ?w second_event = (put_db ?w (Pool 0 ''d'') (add_entry (pool_db ?w (Pool 0 ''d'')) ?c r),
      Inr \<lparr>ar_Sequence = log_sequence r, ar_EntryHash = log_entry_hash r, ar_CreatedAt = format_rfc3339 (pg_now next_pg)\<rparr>)"
    using append_step [OF next_pg_simps(1) ready] by metis
  then have served: "w_dbs (serve next_pg id 0 ?w (AppendReq second_event)) ''d'' = add_entry (pool_db ?w (Pool 0 ''d'')) ?c r"
    by (simp add: put_db_def)
  have "system_step sample_outside sample_protobuf ends_within s (s\<lparr>sys_dbs := w_dbs (serve next_pg id 0 (world_at 0 s) (AppendReq second_event))\<rparr>)"
    by (rule system_step.run) simp
  note t = system_reachable.step [OF s(1) this]
  have len: "length (audit_log (w_dbs (serve next_pg id 0 ?w (AppendReq second_event)) ''d'')) = 2"
    unfolding served by (simp add: anchored_dbs_def)
  show ?thesis by (rule exI, rule conjI, rule t) (use len in \<open>simp add: world_at_0 s(2)\<close>)
qed

theorem stored_values_typed_witness:
  "\<exists>t. system_reachable sample_outside sample_protobuf ends_within anchored_dbs t \<and> length (audit_log (sys_dbs t ''d'')) = 2
     \<and> well_typed (sys_dbs t ''d'')"
proof -
  obtain t where t: "system_reachable sample_outside sample_protobuf ends_within anchored_dbs t"
    "length (audit_log (sys_dbs t ''d'')) = 2" using sample_appended by blast
  with stored_values_typed [OF t(1), of "''d''"] anchored_dbs_ok show ?thesis by blast
qed

end
