(* ===== verification/Module_Overlap.thy ===== *)
theory Module_Overlap
  imports Registry Machine
begin

section \<open>Module operations that overlap\<close>

text \<open>
  \<open>Init\<close> and \<open>Stop\<close> of \<^verbatim>\<open>modules/ledger.go\<close> enter one critical section after the other: the registry of ledgers and that
  of pools have a mutex each, and nothing is held in between. Here every section is a step of its own, and the steps of
  different modules run in any order; a module instance runs one operation at a time, as its field
  \<open>db\<close> has no lock. Whatever the order, a registered pool is an open pool of a module with that name. That both
  registries lead to one pool holds between the operations of a name that one module uses, not in the middle of
  one, and not after the operations of two modules of one name have overlapped.
\<close>

subsection \<open>The sections\<close>

text \<open>How far a module is in its operation: after \<open>sql.Open\<close>, after \<open>RegisterLedger\<close>; after \<open>UnregisterLedger\<close>,
  after \<open>UnregisterDB\<close>.\<close>

datatype stage = Idle | Opened sql_db | Listed sql_db | Unlisted | Dropped

record overlap =
  mo_registry :: registry
  mo_modules :: "(LedgerModule \<times> stage) list"
  mo_next_pool :: nat
  mo_closed :: "sql_db list"

definition initial_overlap :: overlap where
  "initial_overlap = \<lparr>mo_registry = empty_registry, mo_modules = [], mo_next_pool = 0, mo_closed = []\<rparr>"

datatype module_action =
    Create string LedgerConfig
  | InitOpen nat "string \<Rightarrow> go_error option" | InitLedger nat | InitDB nat
  | StopLedger nat | StopDB nat | StopClose nat
  | AddProvider anchorProviderModule | DropProvider anchorProviderModule

definition module_at :: "overlap \<Rightarrow> nat \<Rightarrow> (LedgerModule \<times> stage) option" where
  "module_at s i = (if i < length (mo_modules s) then Some (mo_modules s ! i) else None)"

definition set_module :: "nat \<Rightarrow> LedgerModule \<Rightarrow> stage \<Rightarrow> overlap \<Rightarrow> overlap" where
  "set_module i m st s = s\<lparr>mo_modules := (mo_modules s)[i := (m, st)]\<rparr>"

text \<open>The first section of \<open>Init\<close> also stands for the calls that fail: a module that has a pool, a data source name the
  driver refuses.\<close>

fun module_act :: "overlap \<Rightarrow> module_action \<Rightarrow> overlap option" where
  "module_act s (Create inst cfg) =
     (case NewLedgerModule inst cfg of Inl e \<Rightarrow> None | Inr m \<Rightarrow> Some (s\<lparr>mo_modules := mo_modules s @ [(m, Idle)]\<rparr>))"
| "module_act s (InitOpen i parse) =
     (case module_at s i of
        Some (m, Idle) \<Rightarrow>
          let t = s\<lparr>mo_next_pool := Suc (mo_next_pool s)\<rparr> in
          (case lm_db m of
             Some d \<Rightarrow> Some t
           | None \<Rightarrow> (case sql_open parse (mo_next_pool s) (lm_dsn m) of
               Inl e \<Rightarrow> Some t
             | Inr d \<Rightarrow> Some (set_module i (m\<lparr>lm_db := Some d\<rparr>) (Opened d) t)))
      | _ \<Rightarrow> None)"
| "module_act s (InitLedger i) =
     (case module_at s i of
        Some (m, Opened d) \<Rightarrow>
          Some (set_module i m (Listed d) (s\<lparr>mo_registry := RegisterLedger (lm_name m) (NewAppender d) (mo_registry s)\<rparr>))
      | _ \<Rightarrow> None)"
| "module_act s (InitDB i) =
     (case module_at s i of
        Some (m, Listed d) \<Rightarrow> Some (set_module i m Idle (s\<lparr>mo_registry := RegisterDB (lm_name m) d (mo_registry s)\<rparr>))
      | _ \<Rightarrow> None)"
| "module_act s (StopLedger i) =
     (case module_at s i of
        Some (m, Idle) \<Rightarrow> Some (set_module i m Unlisted (s\<lparr>mo_registry := UnregisterLedger (lm_name m) (mo_registry s)\<rparr>))
      | _ \<Rightarrow> None)"
| "module_act s (StopDB i) =
     (case module_at s i of
        Some (m, Unlisted) \<Rightarrow> Some (set_module i m Dropped (s\<lparr>mo_registry := UnregisterDB (lm_name m) (mo_registry s)\<rparr>))
      | _ \<Rightarrow> None)"
| "module_act s (StopClose i) =
     (case module_at s i of
        Some (m, Dropped) \<Rightarrow>
          Some (set_module i m Idle (s\<lparr>mo_closed := (case lm_db m of None \<Rightarrow> [] | Some d \<Rightarrow> [d]) @ mo_closed s\<rparr>))
      | _ \<Rightarrow> None)"
| "module_act s (AddProvider pm) = Some (s\<lparr>mo_registry := fst (ProviderInit (mo_registry s) pm)\<rparr>)"
| "module_act s (DropProvider pm) = Some (s\<lparr>mo_registry := fst (ProviderStop (mo_registry s) pm)\<rparr>)"

subsection \<open>Sections in a row are the operation\<close>

definition at_rest :: "lifecycle \<Rightarrow> overlap" where
  "at_rest s = \<lparr>mo_registry = lc_registry s, mo_modules = map (\<lambda>m. (m, Idle)) (lc_modules s),
     mo_next_pool = lc_next_pool s, mo_closed = lc_closed s\<rparr>"

lemma module_at_set [simp]:
  "module_at (set_module i m st s) j = (if j = i \<and> i < length (mo_modules s) then Some (m, st) else module_at s j)"
  by (auto simp: module_at_def set_module_def)

lemma set_module_simps [simp]:
  "set_module i m st (set_module i m' st' s) = set_module i m st s"
  "mo_registry (set_module i m st s) = mo_registry s" "mo_next_pool (set_module i m st s) = mo_next_pool s"
  "mo_closed (set_module i m st s) = mo_closed s" "length (mo_modules (set_module i m st s)) = length (mo_modules s)"
  "(set_module i m st s)\<lparr>mo_registry := r\<rparr> = set_module i m st (s\<lparr>mo_registry := r\<rparr>)"
  "(set_module i m st s)\<lparr>mo_closed := cl\<rparr> = set_module i m st (s\<lparr>mo_closed := cl\<rparr>)"
  by (simp_all add: set_module_def)

lemma module_at_fields [simp]:
  "module_at (s\<lparr>mo_registry := r\<rparr>) = module_at s" "module_at (s\<lparr>mo_next_pool := n\<rparr>) = module_at s"
  "module_at (s\<lparr>mo_closed := cl\<rparr>) = module_at s"
  by (simp_all add: module_at_def fun_eq_iff)

lemma module_at_rest [simp]: "i < length (lc_modules s) \<Longrightarrow> module_at (at_rest s) i = Some (lc_modules s ! i, Idle)"
  by (simp add: module_at_def at_rest_def)

lemma rest_unchanged [simp]: "(map (\<lambda>m. (m, Idle)) ms)[i := (ms ! i, Idle)] = map (\<lambda>m. (m, Idle)) ms"
  by (metis list_update_id map_update)

text \<open>So every state of the life cycle, whose steps are whole operations, is a state of this machine.\<close>

lemma whole_operation:
  assumes "lifecycle_step s t"
  shows "\<exists>acts. runs module_act (at_rest s) acts = Some (at_rest t)"
  using assms
proof cases
  case (create inst cfg m)
  then show ?thesis by (intro exI [of _ "[Create inst cfg]"]) (simp add: at_rest_def)
next
  case (init i parse r m e)
  from init(3) show ?thesis
  proof (cases rule: LedgerInit_cases)
    case (failed err)
    with init failed show ?thesis
      by (intro exI [of _ "[InitOpen i parse]"])
        (auto simp: LedgerInit_def at_rest_def module_at_def sql_open_def Let_def split: option.splits)
  next
    case opened
    have "parse (lm_dsn (lc_modules s ! i)) = None"
      using init(3) opened by (auto simp: LedgerInit_def sql_open_def split: option.splits)
    with init opened show ?thesis
      by (intro exI [of _ "[InitOpen i parse, InitLedger i, InitDB i]"])
        (simp add: sql_open_def Let_def at_rest_def set_module_def module_at_def map_update)
  qed
next
  case (stop i cf r ds e)
  then have "ds = (case lm_db (lc_modules s ! i) of None \<Rightarrow> [] | Some d \<Rightarrow> [d])"
    by (auto simp: LedgerStop_def Let_def split: option.splits)
  with stop LedgerStop_eq(1) [OF stop(3)] show ?thesis
    by (intro exI [of _ "[StopLedger i, StopDB i, StopClose i]"])
      (simp add: at_rest_def set_module_def module_at_def)
next
  case (provider_init pm r e)
  then show ?thesis by (intro exI [of _ "[AddProvider pm]"]) (simp add: at_rest_def)
next
  case (provider_stop pm r e)
  then show ?thesis by (intro exI [of _ "[DropProvider pm]"]) (simp add: at_rest_def)
qed

lemma lifecycle_reached: "lifecycle_reachable s \<Longrightarrow> \<exists>acts. runs module_act initial_overlap acts = Some (at_rest s)"
proof (induction rule: lifecycle_reachable.induct)
  case start
  show ?case by (intro exI [of _ "[]"]) (simp add: initial_overlap_def at_rest_def initial_lifecycle_def)
next
  case (step s t)
  then obtain as bs where "runs module_act initial_overlap as = Some (at_rest s)" "runs module_act (at_rest s) bs = Some (at_rest t)"
    using whole_operation by blast
  then show ?case by (intro exI [of _ "as @ bs"]) (simp add: runs_append)
qed

subsection \<open>The invariant\<close>

definition name_of :: "overlap \<Rightarrow> nat \<Rightarrow> string" where "name_of s i = lm_name (fst (mo_modules s ! i))"
definition db_of :: "overlap \<Rightarrow> nat \<Rightarrow> sql_db option" where "db_of s i = lm_db (fst (mo_modules s ! i))"
definition dsn_of :: "overlap \<Rightarrow> nat \<Rightarrow> string" where "dsn_of s i = lm_dsn (fst (mo_modules s ! i))"
definition stage_of :: "overlap \<Rightarrow> nat \<Rightarrow> stage" where "stage_of s i = snd (mo_modules s ! i)"

lemmas module_fields = name_of_def db_of_def dsn_of_def stage_of_def

text \<open>Pools have owners of their own; a pool that is being registered is open.\<close>

fun holds :: "stage \<Rightarrow> sql_db option" where
  "holds (Opened d) = Some d"
| "holds (Listed d) = Some d"
| "holds st = None"

definition owned_ok :: "overlap \<Rightarrow> bool" where
  "owned_ok s \<longleftrightarrow> (\<forall>i < length (mo_modules s). \<forall>d. db_of s i = Some d \<longrightarrow> pool_id d < mo_next_pool s \<and> pool_dsn d = dsn_of s i
       \<and> (\<forall>j < length (mo_modules s). db_of s j = Some d \<longrightarrow> j = i))
   \<and> (\<forall>d \<in> set (mo_closed s). pool_id d < mo_next_pool s)
   \<and> (\<forall>i < length (mo_modules s). \<forall>d. holds (stage_of s i) = Some d \<longrightarrow> db_of s i = Some d \<and> d \<notin> set (mo_closed s))"

text \<open>A registered pool is open, and its owner is at a stage at which it can be registered.\<close>

definition user_of :: "overlap \<Rightarrow> string \<Rightarrow> sql_db \<Rightarrow> (stage \<Rightarrow> bool) \<Rightarrow> bool" where
  "user_of s n d P \<longleftrightarrow> d \<notin> set (mo_closed s)
     \<and> (\<exists>i < length (mo_modules s). db_of s i = Some d \<and> name_of s i = n \<and> P (stage_of s i))"

definition ledger_stage :: "stage \<Rightarrow> bool" where "ledger_stage st \<longleftrightarrow> st = Idle \<or> (\<exists>d. st = Listed d)"
definition db_stage :: "stage \<Rightarrow> bool" where "db_stage st \<longleftrightarrow> st = Idle \<or> st = Unlisted"

definition listed_ok :: "overlap \<Rightarrow> bool" where
  "listed_ok s \<longleftrightarrow> (\<forall>n a. GetLedger (mo_registry s) n = Some a \<longrightarrow> user_of s n (appender_db a) ledger_stage)
   \<and> (\<forall>n d. GetDB (mo_registry s) n = Some d \<longrightarrow> user_of s n d db_stage)"

text \<open>What the registries hold for the only module of a name.\<close>

definition alone :: "overlap \<Rightarrow> nat \<Rightarrow> bool" where
  "alone s i \<longleftrightarrow> i < length (mo_modules s) \<and> (\<forall>j < length (mo_modules s). name_of s j = name_of s i \<longrightarrow> j = i)"

fun agreed :: "stage \<Rightarrow> Appender option \<Rightarrow> sql_db option \<Rightarrow> bool" where
  "agreed Idle a d = (a = map_option NewAppender d)"
| "agreed (Opened p) a d = (a = None \<and> d = None)"
| "agreed (Listed p) a d = (a = Some (NewAppender p) \<and> d = None)"
| "agreed Unlisted a d = (a = None)"
| "agreed Dropped a d = (a = None \<and> d = None)"

definition alone_ok :: "overlap \<Rightarrow> bool" where
  "alone_ok s \<longleftrightarrow> (\<forall>i. alone s i \<longrightarrow>
     agreed (stage_of s i) (GetLedger (mo_registry s) (name_of s i)) (GetDB (mo_registry s) (name_of s i)))"

definition overlap_ok :: "overlap \<Rightarrow> bool" where
  "overlap_ok s \<longleftrightarrow> registry_ok (mo_registry s) \<and> owned_ok s \<and> listed_ok s \<and> alone_ok s"

lemma overlap_ok_initial: "overlap_ok initial_overlap"
  by (simp add: overlap_ok_def initial_overlap_def empty_registry_def registry_ok_def owned_ok_def listed_ok_def alone_ok_def
      alone_def GetDB_def GetLedger_def map_get_def)

text \<open>The actions, by what they change.\<close>

lemma module_act_cases:
  assumes "module_act s a = Some t"
  obtains (created) m where "lm_db m = None" "t = s\<lparr>mo_modules := mo_modules s @ [(m, Idle)]\<rparr>"
  | (refused) "t = s\<lparr>mo_next_pool := Suc (mo_next_pool s)\<rparr>"
  | (opened) i m where "module_at s i = Some (m, Idle)" "lm_db m = None"
      "t = set_module i (m\<lparr>lm_db := Some (Pool (mo_next_pool s) (lm_dsn m))\<rparr>) (Opened (Pool (mo_next_pool s) (lm_dsn m)))
             (s\<lparr>mo_next_pool := Suc (mo_next_pool s)\<rparr>)"
  | (listed) i m d where "module_at s i = Some (m, Opened d)"
      "t = set_module i m (Listed d) (s\<lparr>mo_registry := RegisterLedger (lm_name m) (NewAppender d) (mo_registry s)\<rparr>)"
  | (pooled) i m d where "module_at s i = Some (m, Listed d)"
      "t = set_module i m Idle (s\<lparr>mo_registry := RegisterDB (lm_name m) d (mo_registry s)\<rparr>)"
  | (unlisted) i m where "module_at s i = Some (m, Idle)"
      "t = set_module i m Unlisted (s\<lparr>mo_registry := UnregisterLedger (lm_name m) (mo_registry s)\<rparr>)"
  | (dropped) i m where "module_at s i = Some (m, Unlisted)"
      "t = set_module i m Dropped (s\<lparr>mo_registry := UnregisterDB (lm_name m) (mo_registry s)\<rparr>)"
  | (closed) i m ds where "module_at s i = Some (m, Dropped)" "set ds = set_option (lm_db m)"
      "t = set_module i m Idle (s\<lparr>mo_closed := ds @ mo_closed s\<rparr>)"
  | (provider) r where "t = s\<lparr>mo_registry := r\<rparr>" "GetDB r = GetDB (mo_registry s)" "GetLedger r = GetLedger (mo_registry s)"
      "registry_ok (mo_registry s) \<Longrightarrow> registry_ok r"
proof (cases a)
  case (Create inst cfg)
  with assms obtain m where m: "NewLedgerModule inst cfg = Inr m" "t = s\<lparr>mo_modules := mo_modules s @ [(m, Idle)]\<rparr>"
    by (auto split: sum.splits)
  then have "lm_db m = None" by (auto simp: NewLedgerModule_def split: if_splits)
  with m show thesis using created by blast
next
  case (InitOpen i parse)
  with assms refused opened show thesis
    by (auto simp: sql_open_def Let_def split: option.splits stage.splits)
next
  case (InitLedger i)
  with assms listed show thesis by (auto split: option.splits stage.splits)
next
  case (InitDB i)
  with assms pooled show thesis by (auto split: option.splits stage.splits)
next
  case (StopLedger i)
  with assms unlisted show thesis by (auto split: option.splits stage.splits)
next
  case (StopDB i)
  with assms dropped show thesis by (auto split: option.splits stage.splits)
next
  case (StopClose i)
  with assms obtain m where m: "module_at s i = Some (m, Dropped)"
    "t = set_module i m Idle (s\<lparr>mo_closed := (case lm_db m of None \<Rightarrow> [] | Some d \<Rightarrow> [d]) @ mo_closed s\<rparr>)"
    by (auto split: option.splits stage.splits)
  show thesis by (rule closed [OF m(1) _ m(2)]) (cases "lm_db m"; simp)
next
  case (AddProvider pm)
  with assms show thesis by (intro provider [of "RegisterAnchorProvider (pm_instanceName pm) (pm_provider pm) (mo_registry s)"])
      (auto simp: ProviderInit_def intro: registry_ok_steps)
next
  case (DropProvider pm)
  with assms show thesis by (intro provider [of "UnregisterAnchorProvider (pm_instanceName pm) (mo_registry s)"])
      (auto simp: ProviderStop_def intro: registry_ok_steps)
qed

text \<open>A module that moves on to its next stage.\<close>

lemma moved_fields:
  assumes "module_at s i = Some (m, st)" and "lm_config m' = lm_config m" and "mo_modules t = (mo_modules s)[i := (m', st')]"
  shows "i < length (mo_modules s)" "length (mo_modules t) = length (mo_modules s)"
    "name_of t = name_of s" "dsn_of t = dsn_of s" "stage_of s i = st" "db_of s i = lm_db m" "name_of s i = lm_name m" "dsn_of s i = lm_dsn m"
    "stage_of t = (stage_of s)(i := st')" "db_of t = (db_of s)(i := lm_db m')"
    "alone t = alone s"
proof -
  from assms(1) show i: "i < length (mo_modules s)" "stage_of s i = st" "db_of s i = lm_db m" "name_of s i = lm_name m" "dsn_of s i = lm_dsn m"
    by (auto simp: module_at_def module_fields split: if_splits)
  with assms(2,3) show "stage_of t = (stage_of s)(i := st')" "db_of t = (db_of s)(i := lm_db m')"
    by (auto simp: module_fields fun_eq_iff)
  from i assms(2,3) show names: "name_of t = name_of s" "dsn_of t = dsn_of s" "length (mo_modules t) = length (mo_modules s)"
    by (auto simp: module_fields fun_eq_iff nth_list_update)
  then show "alone t = alone s" by (simp add: alone_def fun_eq_iff)
qed

lemma mo_modules_set [simp]: "mo_modules (set_module i m st s) = (mo_modules s)[i := (m, st)]"
  by (simp add: set_module_def)

lemma same_fields:
  "mo_modules t = mo_modules s \<Longrightarrow>
     name_of t = name_of s \<and> dsn_of t = dsn_of s \<and> stage_of t = stage_of s \<and> db_of t = db_of s \<and> alone t = alone s"
  by (simp add: module_fields alone_def fun_eq_iff)

text \<open>A user of a pool remains one while another module moves on, or its own to a stage that allows it.\<close>

lemma user_of_moved:
  assumes "user_of s n d P" and "mo_closed t = mo_closed s" and "length (mo_modules t) = length (mo_modules s)"
    and "name_of t = name_of s" and "stage_of t = (stage_of s)(i := st')" and "db_of t = (db_of s)(i := x)"
    and "db_of s i = None \<or> db_of s i = x" and "P (stage_of s i) \<Longrightarrow> db_of s i = Some d \<Longrightarrow> name_of s i = n \<Longrightarrow> P st'"
  shows "user_of t n d P"
proof -
  obtain j where j: "j < length (mo_modules s)" "db_of s j = Some d" "name_of s j = n" "P (stage_of s j)" "d \<notin> set (mo_closed s)"
    using assms(1) by (auto simp: user_of_def)
  with assms(7,8) have "P (stage_of t j) \<and> db_of t j = Some d" by (cases "j = i") (auto simp: assms(5,6))
  with j show ?thesis unfolding user_of_def assms(2-4) by blast
qed

lemmas stage_defs = ledger_stage_def db_stage_def

lemma owned_okD:
  assumes "owned_ok s"
  shows "i < length (mo_modules s) \<Longrightarrow> db_of s i = Some d \<Longrightarrow> pool_id d < mo_next_pool s \<and> pool_dsn d = dsn_of s i"
    and "i < length (mo_modules s) \<Longrightarrow> j < length (mo_modules s) \<Longrightarrow> db_of s i = Some d \<Longrightarrow> db_of s j = Some d \<Longrightarrow> j = i"
    and "d \<in> set (mo_closed s) \<Longrightarrow> pool_id d < mo_next_pool s"
    and "i < length (mo_modules s) \<Longrightarrow> holds (stage_of s i) = Some d \<Longrightarrow> db_of s i = Some d \<and> d \<notin> set (mo_closed s)"
  using assms by (simp_all add: owned_ok_def)

text \<open>A module whose name is its own has no entry before it has a pool.\<close>

lemma alone_unregistered:
  assumes "listed_ok s" and "alone s i" and "db_of s i = None"
  shows "GetLedger (mo_registry s) (name_of s i) = None \<and> GetDB (mo_registry s) (name_of s i) = None"
proof -
  have "\<not> user_of s (name_of s i) d P" for d P
  proof
    assume "user_of s (name_of s i) d P"
    then obtain j where "j < length (mo_modules s)" "db_of s j = Some d" "name_of s j = name_of s i"
      by (auto simp: user_of_def)
    with assms(2,3) show False by (auto simp: alone_def)
  qed
  with assms(1) show ?thesis unfolding listed_ok_def by (metis not_Some_eq)
qed

text \<open>A step that moves module \<open>i\<close> on and opens or closes nothing, by what it does to the registries.\<close>

lemma overlap_ok_move:
  assumes inv: "overlap_ok s" and at: "module_at s i = Some (m, st)" and moved: "mo_modules t = (mo_modules s)[i := (m, st')]"
    and same: "mo_closed t = mo_closed s" "mo_next_pool t = mo_next_pool s"
    and holding: "holds st' = None \<or> holds st' = holds st" and registry: "registry_ok (mo_registry t)"
    and others: "\<And>n. n \<noteq> lm_name m \<Longrightarrow> GetLedger (mo_registry t) n = GetLedger (mo_registry s) n \<and> GetDB (mo_registry t) n = GetDB (mo_registry s) n"
    and ledger: "\<And>a. GetLedger (mo_registry t) (lm_name m) = Some a \<Longrightarrow>
      GetLedger (mo_registry s) (lm_name m) = Some a \<and> (ledger_stage st \<longrightarrow> ledger_stage st') \<or> holds st = Some (appender_db a) \<and> ledger_stage st'"
    and db: "\<And>d. GetDB (mo_registry t) (lm_name m) = Some d \<Longrightarrow>
      GetDB (mo_registry s) (lm_name m) = Some d \<and> (db_stage st \<longrightarrow> db_stage st') \<or> holds st = Some d \<and> db_stage st'"
    and agree: "agreed st (GetLedger (mo_registry s) (lm_name m)) (GetDB (mo_registry s) (lm_name m)) \<Longrightarrow>
      agreed st' (GetLedger (mo_registry t) (lm_name m)) (GetDB (mo_registry t) (lm_name m))"
  shows "overlap_ok t"
proof -
  note f = moved_fields [OF at refl moved]
  have dbs: "db_of t = db_of s" using f(6,10) by (simp add: fun_eq_iff)
  have ok: "owned_ok s" "listed_ok s" "alone_ok s" using inv by (simp_all add: overlap_ok_def)
  have kept: "user_of t n d P" if "user_of s n d P" "n \<noteq> lm_name m \<or> (P st \<longrightarrow> P st')" for n d P
    by (rule user_of_moved [OF that(1) same(1) f(2,3,9,10)]) (use that(2) f(5,6,7) in auto)
  have new: "user_of t (lm_name m) d P" if "holds st = Some d" "P st'" for d P
  proof -
    have "db_of s i = Some d" "d \<notin> set (mo_closed s)" using ok(1) that(1) f(1,5) by (auto simp: owned_ok_def)
    with that(2) f(1,2,3,7,9) show ?thesis unfolding user_of_def dbs by (intro conjI exI [of _ i]) (simp_all add: same)
  qed
  have "owned_ok t" using ok(1) f(1,2,4,5,9) holding unfolding owned_ok_def dbs by (auto simp: same)
  moreover have "user_of t n (appender_db a) ledger_stage" if "GetLedger (mo_registry t) n = Some a" for n a
    using that others [of n] ledger [of a] ok(2) kept [of n _ ledger_stage] new [of _ ledger_stage]
    unfolding listed_ok_def by (cases "n = lm_name m") auto
  moreover have "user_of t n d db_stage" if "GetDB (mo_registry t) n = Some d" for n d
    using that others [of n] db [of d] ok(2) kept [of n d db_stage] new [of d db_stage]
    unfolding listed_ok_def by (cases "n = lm_name m") auto
  moreover have "agreed (stage_of t j) (GetLedger (mo_registry t) (name_of t j)) (GetDB (mo_registry t) (name_of t j))"
    if "alone t j" for j
  proof (cases "j = i")
    case True
    have "agreed st (GetLedger (mo_registry s) (lm_name m)) (GetDB (mo_registry s) (lm_name m))"
      using that True ok(3) f(5,7,11) unfolding alone_ok_def by metis
    from agree [OF this] True show ?thesis by (simp add: f(3,7,9))
  next
    case False
    have j: "alone s j" using that by (simp add: f(11))
    then have "name_of s j \<noteq> lm_name m" using False f(1,7) by (auto simp: alone_def)
    with False j ok(3) others show ?thesis by (simp add: f(3,9) alone_ok_def)
  qed
  ultimately show ?thesis using registry by (simp add: overlap_ok_def listed_ok_def alone_ok_def)
qed

text \<open>Opening a pool, closing one, and a new module.\<close>

lemma overlap_ok_open:
  assumes "overlap_ok s" and "module_at s i = Some (m, Idle)" and "lm_db m = None"
    and "t = set_module i (m\<lparr>lm_db := Some (Pool (mo_next_pool s) (lm_dsn m))\<rparr>) (Opened (Pool (mo_next_pool s) (lm_dsn m)))
             (s\<lparr>mo_next_pool := Suc (mo_next_pool s)\<rparr>)"
  shows "overlap_ok t"
proof -
  have ok: "registry_ok (mo_registry s)" "owned_ok s" "listed_ok s" "alone_ok s" using assms(1) by (simp_all add: overlap_ok_def)
  let ?d = "Pool (mo_next_pool s) (lm_dsn m)" and ?m = "m\<lparr>lm_db := Some (Pool (mo_next_pool s) (lm_dsn m))\<rparr>"
  have t: "mo_modules t = (mo_modules s)[i := (?m, Opened ?d)]" by (simp add: assms(4))
  have cfg: "lm_config ?m = lm_config m" by simp
  note f = moved_fields [OF assms(2) cfg t]
  have dbs: "db_of s i = None" "db_of t = (db_of s)(i := Some ?d)" using f(6,10) assms(3) by simp_all
  have rest: "mo_registry t = mo_registry s" "mo_closed t = mo_closed s" "mo_next_pool t = Suc (mo_next_pool s)"
    by (simp_all add: assms(4))
  note own = owned_okD [OF ok(2)]
  have "owned_ok t"
    unfolding owned_ok_def rest f(2,4,9) dbs(2)
  proof (intro conjI ballI allI impI)
    fix j d
    assume j: "j < length (mo_modules s)" "((db_of s)(i := Some ?d)) j = Some d"
    show "pool_id d < Suc (mo_next_pool s)" "pool_dsn d = dsn_of s j"
    proof -
      consider "j = i" "d = ?d" | "db_of s j = Some d" using j(2) by (cases "j = i") simp_all
      then have "pool_id d < Suc (mo_next_pool s) \<and> pool_dsn d = dsn_of s j"
      proof cases
        case 1
        with f(8) show ?thesis by simp
      next
        case 2
        from own(1) [OF j(1) this] show ?thesis by simp
      qed
      then show "pool_id d < Suc (mo_next_pool s)" "pool_dsn d = dsn_of s j" by blast+
    qed
    fix k
    assume k: "k < length (mo_modules s)" "((db_of s)(i := Some ?d)) k = Some d"
    show "k = j"
    proof (cases "d = ?d")
      case True
      then show ?thesis using j k own(1) [of j ?d] own(1) [of k ?d] by (cases "j = i"; cases "k = i"; simp)
    next
      case False
      then show ?thesis using j k own(2) [of j k d] by (cases "j = i"; cases "k = i"; simp)
    qed
  next
    fix d assume "d \<in> set (mo_closed s)"
    then show "pool_id d < Suc (mo_next_pool s)" using own(3) less_SucI by blast
  next
    fix j d
    assume j: "j < length (mo_modules s)" "holds (((stage_of s)(i := Opened ?d)) j) = Some d"
    then show "((db_of s)(i := Some ?d)) j = Some d" using own(4) [of j d] by (cases "j = i"; simp)
    show "d \<notin> set (mo_closed s)" using j own(3) [of ?d] own(4) [of j d] by (cases "j = i"; auto)
  qed
  moreover have "user_of t n d P" if "user_of s n d P" for n d P
    by (rule user_of_moved [OF that rest(2) f(2,3,9) dbs(2)]) (simp_all add: dbs(1))
  then have "listed_ok t" using ok(3) by (simp add: listed_ok_def rest)
  moreover have "alone_ok t"
    using ok(4) alone_unregistered [OF ok(3) _ dbs(1)] by (auto simp: alone_ok_def rest f(3,9,11))
  ultimately show ?thesis using ok(1) by (simp add: overlap_ok_def rest)
qed

lemma overlap_ok_close:
  assumes "overlap_ok s" and "module_at s i = Some (m, Dropped)" and "set ds = set_option (lm_db m)"
    and "t = set_module i m Idle (s\<lparr>mo_closed := ds @ mo_closed s\<rparr>)"
  shows "overlap_ok t"
proof -
  have ok: "registry_ok (mo_registry s)" "owned_ok s" "listed_ok s" "alone_ok s" using assms(1) by (simp_all add: overlap_ok_def)
  have t: "mo_modules t = (mo_modules s)[i := (m, Idle)]" by (simp add: assms(4))
  note f = moved_fields [OF assms(2) refl t]
  have dbs: "db_of t = db_of s" using f(6,10) by (simp add: fun_eq_iff)
  have mine: "db_of s i = Some d" if "d \<in> set ds" for d using that assms(3) f(6) by (cases "lm_db m") auto
  have closed_t: "set (mo_closed t) = set ds \<union> set (mo_closed s)" and rest: "mo_registry t = mo_registry s" "mo_next_pool t = mo_next_pool s"
    by (simp_all add: assms(4))
  have kept: "user_of t n d P" if user: "user_of s n d P" and no: "\<not> P Dropped" for n d P
  proof -
    obtain j where j: "j < length (mo_modules s)" "db_of s j = Some d" "name_of s j = n" "P (stage_of s j)" "d \<notin> set (mo_closed s)"
      using user by (auto simp: user_of_def)
    have "j \<noteq> i" using j(4) no f(5) by auto
    then have "d \<notin> set ds" using j(1,2) mine ok(2) f(1) unfolding owned_ok_def by blast
    with j \<open>j \<noteq> i\<close> show ?thesis unfolding user_of_def dbs closed_t by (intro conjI exI [of _ j]) (simp_all add: f(2,3,9))
  qed
  have "owned_ok t"
    unfolding owned_ok_def dbs rest f(2,4,9)
  proof (intro conjI ballI allI impI)
    fix j d
    assume j: "j < length (mo_modules s)" "holds (((stage_of s)(i := Idle)) j) = Some d"
    then have ji: "j \<noteq> i" "holds (stage_of s j) = Some d" by (auto split: if_splits)
    with ok(2) j(1) show own: "db_of s j = Some d" by (simp add: owned_ok_def)
    have "d \<notin> set ds" using ji(1) j(1) own mine ok(2) f(1) unfolding owned_ok_def by blast
    with ji(2) j(1) ok(2) show "d \<notin> set (mo_closed t)" by (simp add: owned_ok_def closed_t)
  next
    fix d assume "d \<in> set (mo_closed t)"
    with ok(2) mine f(1) show "pool_id d < mo_next_pool s" by (auto simp: closed_t owned_ok_def)
  qed (use ok(2) in \<open>simp_all add: owned_ok_def\<close>)
  moreover have "listed_ok t" using ok(3) kept by (simp add: listed_ok_def rest stage_defs)
  moreover have "alone_ok t" using ok(4) f(5,7) by (auto simp: alone_ok_def rest f(3,9,11))
  ultimately show ?thesis using ok(1) by (simp add: overlap_ok_def rest)
qed

lemma overlap_ok_create:
  assumes "overlap_ok s" and "lm_db m = None" and "t = s\<lparr>mo_modules := mo_modules s @ [(m, Idle)]\<rparr>"
  shows "overlap_ok t"
proof -
  have ok: "registry_ok (mo_registry s)" "owned_ok s" "listed_ok s" "alone_ok s" using assms(1) by (simp_all add: overlap_ok_def)
  have len: "length (mo_modules t) = Suc (length (mo_modules s))" and rest: "mo_registry t = mo_registry s" "mo_closed t = mo_closed s"
    "mo_next_pool t = mo_next_pool s" by (simp_all add: assms(3))
  have old: "name_of t j = name_of s j" "dsn_of t j = dsn_of s j" "db_of t j = db_of s j" "stage_of t j = stage_of s j"
    if "j < length (mo_modules s)" for j using that by (simp_all add: module_fields assms(3) nth_append)
  have last: "db_of t (length (mo_modules s)) = None" "stage_of t (length (mo_modules s)) = Idle"
    by (simp_all add: module_fields assms(2,3) nth_append)
  have "owned_ok t" using ok(2) by (auto simp: owned_ok_def rest len less_Suc_eq old last)
  moreover have "user_of t n d P" if "user_of s n d P" for n d P
    using that unfolding user_of_def rest len by (metis less_SucI old(1,3,4))
  then have listed: "listed_ok t" using ok(3) by (simp add: listed_ok_def rest)
  moreover have "alone_ok t"
    unfolding alone_ok_def
  proof (intro allI impI)
    fix j
    assume j: "alone t j"
    show "agreed (stage_of t j) (GetLedger (mo_registry t) (name_of t j)) (GetDB (mo_registry t) (name_of t j))"
    proof (cases "j = length (mo_modules s)")
      case True
      then show ?thesis using alone_unregistered [OF listed j] last by simp
    next
      case False
      with j have "j < length (mo_modules s)" by (simp add: alone_def len)
      moreover from this j have "alone s j" by (auto simp: alone_def len old)
      ultimately show ?thesis using ok(4) by (simp add: alone_ok_def old rest)
    qed
  qed
  ultimately show ?thesis using ok(1) by (simp add: overlap_ok_def rest)
qed

lemma overlap_ok_act:
  assumes "overlap_ok s" and "module_act s a = Some t"
  shows "overlap_ok t"
proof -
  have ok: "registry_ok (mo_registry s)" "owned_ok s" "listed_ok s" "alone_ok s" using assms(1) by (simp_all add: overlap_ok_def)
  note facts = get_facts [OF ok(1)] registry_ok_steps [OF ok(1)] NewAppender_def stage_defs
  from assms(2) show ?thesis
  proof (cases rule: module_act_cases)
    case (refused)
    then have "mo_modules t = mo_modules s" by simp
    from same_fields [OF this] refused ok show ?thesis
      by (auto simp: overlap_ok_def owned_ok_def listed_ok_def user_of_def alone_ok_def less_Suc_eq)
  next
    case (provider r)
    then have "mo_modules t = mo_modules s" by simp
    from same_fields [OF this] provider ok show ?thesis
      by (simp add: overlap_ok_def owned_ok_def listed_ok_def user_of_def alone_ok_def)
  next
    case (listed i m d)
    show ?thesis by (rule overlap_ok_move [OF assms(1) listed(1)])
        (auto simp: listed(2) facts)
  next
    case (pooled i m d)
    show ?thesis by (rule overlap_ok_move [OF assms(1) pooled(1)])
        (auto simp: pooled(2) facts)
  next
    case (unlisted i m)
    show ?thesis by (rule overlap_ok_move [OF assms(1) unlisted(1)])
        (auto simp: unlisted(2) facts)
  next
    case (dropped i m)
    show ?thesis by (rule overlap_ok_move [OF assms(1) dropped(1)])
        (auto simp: dropped(2) facts)
  next
    case (opened i m)
    then show ?thesis by (rule overlap_ok_open [OF assms(1)])
  next
    case (closed i m ds)
    then show ?thesis by (rule overlap_ok_close [OF assms(1)])
  next
    case (created m)
    then show ?thesis by (rule overlap_ok_create [OF assms(1)])
  qed
qed

interpretation sections: machine module_act overlap_ok
  by unfold_locales (rule overlap_ok_act)

subsection \<open>Properties\<close>

text \<open>C37. Ledger modules are created, initialised and stopped in any order, the critical sections of different
  modules' operations interleaved in any way, while each module instance runs one operation at a time. An appender or a pool that a step can look up under a name is
  always one whose pool was opened, with its own data source, by a module configured with that name, and has not been closed.
  For a name that only one module uses, both registries lead to one pool or have no entry while the module is
  idle; after \<open>RegisterLedger\<close> there is its appender and no pool yet, after \<open>UnregisterLedger\<close> no appender.\<close>

theorem registered_pools_usable:
  assumes "runs module_act initial_overlap acts = Some s"
  shows "(\<forall>n d. GetLedger (mo_registry s) n = Some (NewAppender d) \<or> GetDB (mo_registry s) n = Some d \<longrightarrow>
      d \<notin> set (mo_closed s) \<and> (\<exists>(m, st) \<in> set (mo_modules s). lm_name m = n \<and> lm_dsn m = pool_dsn d \<and> lm_db m = Some d))
    \<and> (\<forall>i. alone s i \<longrightarrow> agreed (stage_of s i) (GetLedger (mo_registry s) (name_of s i)) (GetDB (mo_registry s) (name_of s i)))"
proof -
  have ok: "owned_ok s" "listed_ok s" "alone_ok s"
    using sections.runs_keep [OF assms overlap_ok_initial] by (simp_all add: overlap_ok_def)
  have "d \<notin> set (mo_closed s) \<and> (\<exists>(m, st) \<in> set (mo_modules s). lm_name m = n \<and> lm_dsn m = pool_dsn d \<and> lm_db m = Some d)"
    if "user_of s n d P" for n d P
  proof -
    obtain i where i: "i < length (mo_modules s)" "db_of s i = Some d" "name_of s i = n" "d \<notin> set (mo_closed s)"
      using \<open>user_of s n d P\<close> by (auto simp: user_of_def)
    with owned_okD(1) [OF ok(1) i(1,2)] show ?thesis
      by (auto simp: module_fields intro!: bexI [of _ "mo_modules s ! i"])
  qed
  moreover have "user_of s n d ledger_stage \<or> user_of s n d db_stage"
    if "GetLedger (mo_registry s) n = Some (NewAppender d) \<or> GetDB (mo_registry s) n = Some d" for n d
    using that ok(2) unfolding listed_ok_def NewAppender_def by (metis Appender.sel)
  ultimately show ?thesis using ok(3) unfolding alone_ok_def by blast
qed

definition second_ledger :: LedgerConfig where
  "second_ledger = sample_ledger\<lparr>lc_Name := ''k''\<rparr>"

definition two_inits :: "module_action list" where
  "two_inits = [Create ''i'' sample_ledger, Create ''j'' second_ledger, InitOpen 0 (\<lambda>d. None), InitOpen 1 (\<lambda>d. None),
     InitLedger 1, InitLedger 0, InitDB 0]"

lemmas overlap_eval = initial_overlap_def module_at_def set_module_def NewLedgerModule_def sql_open_def second_ledger_def
  sample_ledger_def empty_registry_def registry_defs

text \<open>Two modules in the middle of their initialisation: \<open>l\<close> is ready, \<open>k\<close> has its appender only.\<close>

theorem registered_pools_usable_witness:
  "\<exists>s. runs module_act initial_overlap two_inits = Some s
    \<and> GetLedger (mo_registry s) ''l'' = Some (NewAppender (Pool 0 ''d'')) \<and> GetDB (mo_registry s) ''l'' = Some (Pool 0 ''d'')
    \<and> GetLedger (mo_registry s) ''k'' = Some (NewAppender (Pool 1 ''d'')) \<and> GetDB (mo_registry s) ''k'' = None
    \<and> Pool 0 ''d'' \<notin> set (mo_closed s)"
proof -
  let ?m = "\<lambda>inst cfg n. \<lparr>lm_instanceName = inst, lm_config = cfg, lm_db = Some (Pool n ''d'')\<rparr>"
  let ?s = "\<lparr>mo_registry = \<lparr>ledgerRegistry = [(''k'', Appender (Pool 1 ''d'')), (''l'', Appender (Pool 0 ''d''))],
       dbRegistry = [(''l'', Pool 0 ''d'')], anchorProviderRegistry = []\<rparr>,
     mo_modules = [(?m ''i'' sample_ledger 0, Idle), (?m ''j'' second_ledger 1, Listed (Pool 1 ''d''))],
     mo_next_pool = 2, mo_closed = []\<rparr>"
  have run: "runs module_act initial_overlap two_inits = Some ?s"
    by (simp add: two_inits_def overlap_eval NewAppender_def Let_def less_list_code)
  have "alone ?s 0" "alone ?s 1" by (auto simp: alone_def name_of_def second_ledger_def sample_ledger_def less_Suc_eq)
  with registered_pools_usable [OF run] have
    "agreed (stage_of ?s 0) (GetLedger (mo_registry ?s) (name_of ?s 0)) (GetDB (mo_registry ?s) (name_of ?s 0))"
    "agreed (stage_of ?s 1) (GetLedger (mo_registry ?s) (name_of ?s 1)) (GetDB (mo_registry ?s) (name_of ?s 1))" by blast+
  moreover have "name_of ?s 0 = ''l''" "name_of ?s 1 = ''k''" "stage_of ?s 0 = Idle" "stage_of ?s 1 = Listed (Pool 1 ''d'')"
    by (simp_all add: name_of_def stage_of_def second_ledger_def sample_ledger_def)
  moreover have db: "GetDB (mo_registry ?s) ''l'' = Some (Pool 0 ''d'')" by (simp add: GetDB_def map_get_def)
  moreover have "Pool 0 ''d'' \<notin> set (mo_closed ?s)" using registered_pools_usable [OF run] db by blast
  ultimately show ?thesis using run by (intro exI [of _ ?s]) simp
qed

text \<open>Two modules of one name: their sections can leave the appender of one module with the pool of the other, and
  stopping either module takes both entries away.\<close>

theorem overlapping_inits_differ:
  "\<exists>s t. runs module_act initial_overlap [Create ''i'' sample_ledger, Create ''j'' sample_ledger, InitOpen 0 (\<lambda>d. None),
        InitOpen 1 (\<lambda>d. None), InitLedger 0, InitLedger 1, InitDB 1, InitDB 0] = Some s
    \<and> (\<forall>(m, st) \<in> set (mo_modules s). st = Idle)
    \<and> GetLedger (mo_registry s) ''l'' = Some (NewAppender (Pool 1 ''d'')) \<and> GetDB (mo_registry s) ''l'' = Some (Pool 0 ''d'')
    \<and> runs module_act s [StopLedger 0, StopDB 0] = Some t
    \<and> GetLedger (mo_registry t) ''l'' = None \<and> GetDB (mo_registry t) ''l'' = None"
  by (simp add: overlap_eval NewAppender_def Let_def) (simp add: map_get_def map_del_def)

end
