(* ===== verification/Progress.thy ===== *)
theory Progress
  imports Concurrency
begin

section \<open>Concurrent appends make progress\<close>

text \<open>
  The row lock of \<open>AppendTx\<close> cannot deadlock, and no append waits for ever: a transaction takes one lock
  only, before its other statements, so that whoever holds a lock can go on. \<open>work\<close> counts the statements
  that the open transactions still have to send; every statement lowers it, and while there are open
  transactions that the server need not refuse, one of their statements can run. These are the laws
  of \<open>terminating_machine\<close>.
\<close>

subsection \<open>The measure\<close>

fun statements_left :: "phase \<Rightarrow> nat" where
  "statements_left Begun = 4"
| "statements_left (Locked c) = 3"
| "statements_left (Inserted c r) = 2"
| "statements_left (Updated c r) = 1"

definition work :: "server \<Rightarrow> nat" where
  "work s = (\<Sum>x \<in># mset (sessions s). statements_left (snd (snd x)))"

definition open_calls :: "server \<Rightarrow> append_call list" where
  "open_calls s = map (\<lambda>x. fst (snd x)) (sessions s)"

text \<open>A statement of an open transaction, or its commit.\<close>

fun statement :: "action \<Rightarrow> bool" where
  "statement (Begin i q) = False"
| "statement (Abort i) = False"
| "statement a = True"

lemma session_others:
  assumes "distinct (map fst (sessions s))" and "session s i = Some x"
  shows "mset (sessions s) = add_mset (i, x) (mset (filter (\<lambda>y. fst y \<noteq> i) (sessions s)))"
  using assms
proof (induction "sessions s" arbitrary: s)
  case (Cons y ys)
  have ys: "distinct (map fst ys)" "fst y \<notin> set (map fst ys)" using Cons.prems(1) Cons.hyps(2) [symmetric] by auto
  show ?case
  proof (cases "fst y = i")
    case True
    then have "\<forall>z \<in> set ys. fst z \<noteq> i" using ys(2) by (metis image_eqI list.set_map)
    then have "filter (\<lambda>y. fst y \<noteq> i) ys = ys" by simp
    with True Cons.prems(2) Cons.hyps(2) [symmetric] show ?thesis by (cases y) (simp add: session_def)
  next
    case False
    with Cons.prems(2) Cons.hyps(2) [symmetric] have "session (s\<lparr>sessions := ys\<rparr>) i = Some x"
      by (cases y) (simp add: session_def)
    with Cons.hyps(1) [of "s\<lparr>sessions := ys\<rparr>"] ys(1) False Cons.hyps(2) [symmetric] show ?thesis by simp
  qed
qed (simp add: session_def)

lemma session_mem: "distinct (map fst (sessions s)) \<Longrightarrow> (i, x) \<in> set (sessions s) \<Longrightarrow> session s i = Some x"
  by (simp add: session_def)

text \<open>What a statement does to the open transactions: one of them moves a step on, or is committed.\<close>

lemma statement_cases:
  assumes "act s a = Some t" and "statement a"
  obtains (moved) i q ph ph' where "session s i = Some (q, ph)" "t = set_phase s i q ph'"
      "statements_left ph = Suc (statements_left ph')"
  | (committed) i q c r where "session s i = Some (q, Updated c r)"
      "t = (end_session s i)\<lparr>committed := add_entry (committed s) c r, history := history s @ [(q, commit_result q r)]\<rparr>"
  using assms
  by (cases a) (auto simp: Let_def split: option.splits prod.splits phase.splits if_splits sum.splits)

lemma work_others:
  assumes "distinct (map fst (sessions s))" and "session s i = Some (q, ph)"
  shows "work s = statements_left ph + work (end_session s i)"
  unfolding work_def by (subst session_others [OF assms]) (simp add: end_session_def)

lemma work_set: "work (set_phase s i q ph) = statements_left ph + work (end_session s i)"
  by (simp add: work_def set_phase_def end_session_def)

lemma work_act:
  assumes "act s a = Some t" and "statement a" and "distinct (map fst (sessions s))"
  shows "work t < work s"
  using assms(1,2)
proof (cases rule: statement_cases)
  case (moved i q ph ph')
  with work_others [OF assms(3) moved(1)] show ?thesis by (simp add: work_set)
next
  case (committed i q c r)
  with work_others [OF assms(3) committed(1)] show ?thesis by (simp add: work_def)
qed

lemma work_bound: "work s \<le> 4 * length (sessions s)"
proof -
  have "(\<Sum>x \<leftarrow> xs. statements_left (snd (snd x))) \<le> 4 * length xs" for xs :: "(nat \<times> append_call \<times> phase) list"
  proof (induction xs)
    case (Cons x xs)
    have "statements_left (snd (snd x)) \<le> 4" by (cases "snd (snd x)") simp_all
    with Cons show ?case by simp
  qed simp
  then show ?thesis by (simp add: work_def sum_mset_sum_list [symmetric] flip: mset_map)
qed

subsection \<open>Calls the server need not refuse\<close>

text \<open>The server answers and takes the call's documents, the ledger exists, the payload is JSON, and \<open>nextval\<close> gave an id
  of its own.\<close>

definition can_append :: "database \<Rightarrow> append_call \<Rightarrow> bool" where
  "can_append db q \<longleftrightarrow> healthy (call_pg q) \<and> jsonb_refusal (call_pg q) (jsonb_args (call_payload q) (call_metadata q)) = None
     \<and> audit_ledgers db (call_ledger q) \<noteq> None \<and> is_ok (PayloadHash (call_payload q))
     \<and> pg_nextval (call_pg q) InsertLog \<notin> log_id ` set (audit_log db)"

definition next_id :: "append_call \<Rightarrow> int64" where
  "next_id q = pg_nextval (call_pg q) InsertLog"

definition ready :: "server \<Rightarrow> bool" where
  "ready s \<longleftrightarrow> (\<forall>k. chain_ok (committed s) k) \<and> int (length (audit_log (committed s)) + length (sessions s)) \<le> int64_max
     \<and> (\<forall>q \<in> set (open_calls s). can_append (committed s) q) \<and> distinct (map next_id (open_calls s))"

lemma open_calls_others:
  assumes "distinct (map fst (sessions s))" and "session s i = Some (q, ph)"
  shows "mset (open_calls s) = add_mset q (mset (open_calls (end_session s i)))"
  using arg_cong [where f = "image_mset (\<lambda>x. fst (snd x))", OF session_others [OF assms]]
  by (simp add: open_calls_def end_session_def)

lemma open_calls_set: "mset (open_calls (set_phase s i q ph)) = add_mset q (mset (open_calls (end_session s i)))"
  by (simp add: open_calls_def set_phase_def end_session_def)

lemma length_open_calls: "length (open_calls s) = length (sessions s)"
  by (simp add: open_calls_def)

text \<open>A statement keeps this, and what it commits is an answered call.\<close>

lemma ready_cong:
  assumes "mset (open_calls t) = mset (open_calls s)" and "committed t = committed s"
  shows "ready t = ready s"
proof -
  have "set (open_calls t) = set (open_calls s)" using assms(1) by (rule mset_eq_setD)
  moreover have "length (sessions t) = length (sessions s)"
    using mset_eq_length [OF assms(1)] by (simp add: length_open_calls)
  moreover have "distinct (map next_id (open_calls t)) = distinct (map next_id (open_calls s))"
    using arg_cong [where f = "image_mset next_id", OF assms(1)] by (intro mset_eq_imp_distinct_iff) simp
  ultimately show ?thesis using assms(2) by (simp add: ready_def)
qed

lemma row_held_of: "session_ok db (q, Updated c r) \<Longrightarrow> log_id r = next_id q \<and> log_ledger r = call_ledger q
    \<and> audit_ledgers db (call_ledger q) = Some c
    \<and> (\<exists>ph. r = new_row (call_pg q) c (call_ledger q) (call_event q) (call_payload q) ph (call_metadata q) (call_actor q))"
  by (auto simp: session_ok_def row_held_def cursor_held_def next_id_def dest!: query_row_InrD)

lemma statement_ready:
  assumes "act s a = Some t" and "statement a" and "server_ok db s" and "ready s"
  shows "ready t \<and> (\<exists>new. history t = history s @ new \<and> mset (open_calls s) = mset (map fst new) + mset (open_calls t)
    \<and> (\<forall>x \<in> set new. is_ok (snd x)))"
proof -
  have dist: "distinct (map fst (sessions s))" using assms(3) by (simp add: server_ok_def sessions_ok_def)
  from assms(1,2) show ?thesis
  proof (cases rule: statement_cases)
    case (moved i q ph ph')
    have same: "mset (open_calls t) = mset (open_calls s)"
      unfolding moved(2) open_calls_set open_calls_others [OF dist moved(1)] ..
    have "committed t = committed s" "history t = history s" by (simp_all add: moved(2) set_phase_def)
    with ready_cong [OF same] same assms(4) show ?thesis by (intro conjI exI [of _ "[]"]) simp_all
  next
    case (committed i q c r)
    note calls = open_calls_others [OF dist committed(1)]
    have rest: "open_calls t = open_calls (end_session s i)" by (simp add: committed(2) open_calls_def)
    have set_calls: "set (open_calls s) = insert q (set (open_calls t))"
      using arg_cong [where f = set_mset, OF calls] by (simp add: rest)
    have size: "length (sessions s) = Suc (length (sessions t))"
      using arg_cong [where f = size, OF calls] by (simp add: rest flip: length_open_calls)
    have "mset (map next_id (open_calls s)) = mset (map next_id (q # open_calls t))" using calls by (simp add: rest)
    then have ids: "distinct (map next_id (q # open_calls t))"
      using assms(4) mset_eq_imp_distinct_iff unfolding ready_def by blast
    obtain ph where row: "log_id r = next_id q" "log_ledger r = call_ledger q" "audit_ledgers (committed s) (call_ledger q) = Some c"
      and r: "r = new_row (call_pg q) c (call_ledger q) (call_event q) (call_payload q) ph (call_metadata q) (call_actor q)"
      using row_held_of [OF server_ok_session(1) [OF assms(3) committed(1)]] by blast
    have com: "committed t = add_entry (committed s) c r" by (simp add: committed(2))
    have chains: "\<forall>k. chain_ok (committed s) k" using assms(4) by (simp add: ready_def)
    have "length (ledger_rows (committed s) (call_ledger q)) \<le> length (audit_log (committed s))" by (simp add: ledger_rows_def)
    then have "sint (last_sequence c) < int64_max"
      using chain_ok_cursor(1) [OF _ row(3)] chains assms(4) size by (simp add: ready_def)
    then have "chain_ok (committed t) k" for k unfolding com r using chain_ok_add_entry [OF _ row(3)] chains by blast
    moreover have "can_append (committed t) q'" if "q' \<in> set (open_calls t)" for q'
    proof -
      have "can_append (committed s) q'" using that assms(4) set_calls by (simp add: ready_def)
      moreover have "next_id q' \<noteq> next_id q" using ids that by (metis distinct.simps(2) image_eqI list.set_map list.simps(9))
      ultimately show ?thesis using row(1,2) by (auto simp: can_append_def com next_id_def)
    qed
    moreover have "int (length (audit_log (committed t)) + length (sessions t)) \<le> int64_max"
      using assms(4) size by (simp add: ready_def com)
    ultimately have "ready t" using ids by (simp add: ready_def)
    moreover have "healthy (call_pg q)" using assms(4) set_calls by (simp add: ready_def can_append_def)
    then have "is_ok (commit_result q r)" by (simp add: commit_result_def healthyD)
    moreover have "history t = history s @ [(q, commit_result q r)]" by (simp add: committed(2))
    ultimately show ?thesis using calls by (intro conjI exI [of _ "[(q, commit_result q r)]"]) (simp_all add: rest)
  qed
qed

subsection \<open>No deadlock\<close>

text \<open>The transaction that is furthest on can send its next statement.\<close>

lemma ready_enabled:
  assumes "server_ok db s" and "ready s" and "sessions s \<noteq> []"
  shows "\<exists>a t. statement a \<and> act s a = Some t"
proof -
  have dist: "distinct (map fst (sessions s))" using assms(1) by (simp add: server_ok_def sessions_ok_def)
  have can: "can_append (committed s) q" if "(i, q, ph) \<in> set (sessions s)" for i q ph
  proof -
    have "q \<in> set (open_calls s)" unfolding open_calls_def using that by force
    with assms(2) show ?thesis by (simp add: ready_def)
  qed
  have ok: "session_ok (committed s) (q, ph)" if "(i, q, ph) \<in> set (sessions s)" for i q ph
    using assms(1) that by (force simp: server_ok_def sessions_ok_def)
  note at = session_mem [OF dist]
  consider (updated) i q c r where "(i, q, Updated c r) \<in> set (sessions s)"
    | (inserted) i q c r where "(i, q, Inserted c r) \<in> set (sessions s)"
    | (locked) i q c where "(i, q, Locked c) \<in> set (sessions s)" "\<forall>x \<in> set (sessions s). inserted_row (snd (snd x)) = None"
    | (begun) i q where "(i, q, Begun) \<in> set (sessions s)" "\<forall>x \<in> set (sessions s). locked_cursor (snd (snd x)) = None"
  proof -
    show thesis
    proof (cases "\<exists>x \<in> set (sessions s). inserted_row (snd (snd x)) \<noteq> None")
      case True
      then obtain i q ph where x: "(i, q, ph) \<in> set (sessions s)" "inserted_row ph \<noteq> None" by auto
      then show thesis using updated [of i q] inserted [of i q] by (cases ph) auto
    next
      case none: False
      show thesis
      proof (cases "\<exists>x \<in> set (sessions s). locked_cursor (snd (snd x)) \<noteq> None")
        case True
        then obtain i q ph where x: "(i, q, ph) \<in> set (sessions s)" "locked_cursor ph \<noteq> None" by auto
        with none have "inserted_row ph = None" by auto
        then show thesis using x none locked [of i q] by (cases ph) auto
      next
        case False
        obtain i q ph where x: "(i, q, ph) \<in> set (sessions s)" using assms(3) by (cases "sessions s") auto
        with False have "locked_cursor ph = None" by auto
        then show thesis using x False begun [of i q] by (cases ph) auto
      qed
    qed
  qed
  then show ?thesis
  proof cases
    case (updated i q c r)
    then have "pg_fault (call_pg q) CommitTx = None" using can by (simp add: can_append_def healthyD)
    then have "act s (Commit i) \<noteq> None" using at [OF updated] by simp
    then show ?thesis by (intro exI [of _ "Commit i"]) auto
  next
    case (inserted i q c r)
    then have "pg_fault (call_pg q) UpdateLedger = None" using can by (simp add: can_append_def healthyD)
    then have "act s (Update i) \<noteq> None" using at [OF inserted] by simp
    then show ?thesis by (intro exI [of _ "Update i"]) auto
  next
    case (locked i q c)
    obtain ph where ph: "PayloadHash (call_payload q) = Inr ph" using can [OF locked(1)] by (auto simp: can_append_def is_ok_iff)
    let ?r = "new_row (call_pg q) c (call_ledger q) (call_event q) (call_payload q) ph (call_metadata q) (call_actor q)"
    have c: "audit_ledgers (committed s) (call_ledger q) = Some c"
      using ok [OF locked(1)] by (auto simp: session_ok_def cursor_held_def dest!: query_row_InrD)
    have chains: "\<forall>k. chain_ok (committed s) k" using assms(2) by (simp add: ready_def)
    have "length (ledger_rows (committed s) (call_ledger q)) \<le> length (audit_log (committed s))" by (simp add: ledger_rows_def)
    then have "int (length (ledger_rows (committed s) (call_ledger q))) < int64_max"
      using assms(2,3) by (cases "sessions s") (simp_all add: ready_def)
    then have "\<exists>db'. insert_log (call_pg q) (committed s) (jsonb_args (call_payload q) (call_metadata q)) ?r = Inr db'"
      using next_sequence_fresh [OF _ c] chains can [OF locked(1)] by (simp add: insert_log_ok_iff can_append_def healthyD)
    moreover have "\<not> key_pending s i ?r"
      using locked(2) by (force simp: key_pending_def in_others split: option.splits simp del: new_row_simps)
    moreover have "pg_scan_fault (call_pg q) InsertLog 0 = None" using can [OF locked(1)] by (simp add: can_append_def healthyD)
    ultimately have "act s (Insert i) \<noteq> None" using at [OF locked(1)] ph by (auto simp: Let_def simp del: new_row_simps)
    then show ?thesis by (intro exI [of _ "Insert i"]) auto
  next
    case (begun i q)
    obtain c where c: "audit_ledgers (committed s) (call_ledger q) = Some c" using can [OF begun(1)] by (auto simp: can_append_def)
    have "query_row (call_pg q) LockLedger (cursor_rows (committed s) (call_ledger q)) = Inr c"
      using can [OF begun(1)] by (simp add: cursor_rows_def c query_row_healthy can_append_def)
    moreover have "\<not> row_locked s i (call_ledger q)" using begun(2) by (force simp: row_locked_def in_others)
    ultimately have "act s (Lock i) \<noteq> None" using at [OF begun(1)] by simp
    then show ?thesis by (intro exI [of _ "Lock i"]) auto
  qed
qed

text \<open>A server that is on its way from \<open>s\<close>: every call that was open then is open still or committed and answered.\<close>

definition progressing :: "database \<Rightarrow> server \<Rightarrow> server \<Rightarrow> bool" where
  "progressing db s t \<longleftrightarrow> server_ok db t \<and> ready t \<and> (\<exists>new. history t = history s @ new
     \<and> mset (open_calls s) = mset (map fst new) + mset (open_calls t) \<and> (\<forall>x \<in> set new. is_ok (snd x)))"

lemma progressing_start: "server_ok db s \<Longrightarrow> ready s \<Longrightarrow> progressing db s s"
  by (simp add: progressing_def)

lemma progressing_act:
  assumes "progressing db s t" and "act t a = Some u" and "statement a"
  shows "progressing db s u"
proof -
  obtain new1 where t: "server_ok db t" "ready t" "history t = history s @ new1"
    "mset (open_calls s) = mset (map fst new1) + mset (open_calls t)" "\<forall>x \<in> set new1. is_ok (snd x)"
    using assms(1) by (auto simp: progressing_def)
  obtain new2 where "ready u" "history u = history t @ new2" "mset (open_calls t) = mset (map fst new2) + mset (open_calls u)"
    "\<forall>x \<in> set new2. is_ok (snd x)" using statement_ready [OF assms(2,3) t(1,2)] by blast
  with t server_ok_act [OF assms(2) t(1)] show ?thesis
    unfolding progressing_def by (intro conjI exI [of _ "new1 @ new2"]) auto
qed

interpretation appending: terminating_machine "only statement act" "progressing db s" work "\<lambda>t. sessions t = []" for db s
proof unfold_locales
  show "progressing db s u" if "progressing db s t" "only statement act t a = Some u" for t u a
    using that by (auto intro: progressing_act)
  show "work u < work t" if "progressing db s t" "only statement act t a = Some u" for t u a
    using that by (auto intro!: work_act simp: progressing_def server_ok_def sessions_ok_def)
  show "\<exists>a u. only statement act t a = Some u" if "progressing db s t" "sessions t \<noteq> []" for t
  proof -
    have "server_ok db t" "ready t" using that(1) by (simp_all add: progressing_def)
    then show ?thesis using ready_enabled that(2) by simp
  qed
qed

subsection \<open>Properties\<close>

text \<open>C13. Concurrent appends terminate and do not deadlock. Take any server that a schedule has reached, with any
  number of open transactions whose calls the server need not refuse. However their statements are
  scheduled from there, at most four per transaction can run; whenever some transaction is still open, one can go
  on, up to a state with none; and then every call was committed and answered, none with an error.\<close>

theorem concurrent_appends_finish:
  assumes "schedule (idle_server db) acts = Some s" and "ready s"
    and "schedule s run = Some t" and "list_all statement run"
  shows "length run \<le> 4 * length (sessions s)
    \<and> (sessions t \<noteq> [] \<longrightarrow> (\<exists>a u. statement a \<and> act t a = Some u))
    \<and> (\<exists>rest u. list_all statement rest \<and> schedule t rest = Some u \<and> sessions u = [])
    \<and> (sessions t = [] \<longrightarrow> (\<exists>new. history t = history s @ new \<and> mset (map fst new) = mset (open_calls s)
         \<and> (\<forall>x \<in> set new. is_ok (snd x))))"
proof -
  have start: "progressing db s s" using transactions.runs_keep [OF assms(1) server_ok_idle] assms(2) by (rule progressing_start)
  have run: "runs (only statement act) s run = Some t" using assms(3,4) by (simp add: runs_only)
  have t: "progressing db s t" using appending.runs_keep [OF run start] .
  have "length run \<le> 4 * length (sessions s)" using appending.runs_bounded [OF run start] work_bound [of s] by simp
  moreover have "sessions t \<noteq> [] \<longrightarrow> (\<exists>a u. statement a \<and> act t a = Some u)" using appending.goes_on [OF t] by simp
  moreover have "\<exists>rest u. list_all statement rest \<and> schedule t rest = Some u \<and> sessions u = []"
    using appending.completes [OF t] by (auto simp: runs_only)
  moreover have "sessions t = [] \<longrightarrow> (\<exists>new. history t = history s @ new \<and> mset (map fst new) = mset (open_calls s)
      \<and> (\<forall>x \<in> set new. is_ok (snd x)))"
    using t by (auto simp: progressing_def open_calls_def)
  ultimately show ?thesis by blast
qed

definition two_open :: server where
  "two_open = \<lparr>committed = one_ledger, sessions = [(1, sample_call 2, Begun), (0, sample_call 1, Begun)], history = []\<rparr>"

lemma two_open_reached: "schedule (idle_server one_ledger) [Begin 0 (sample_call 1), Begin 1 (sample_call 2)] = Some two_open"
  by (simp add: idle_server_def session_def set_phase_def sample_call_def two_open_def)

lemma sample_call_simps [simp]:
  "call_ledger (sample_call n) = ''l''" "call_payload (sample_call n) = ''[1]''" "healthy (call_pg (sample_call n))"
  "pg_nextval (call_pg (sample_call n)) st = of_nat n"
  "jsonb_refusal (call_pg (sample_call n)) (jsonb_args ''[1]'' (call_metadata (sample_call n))) = None"
  by (simp_all add: sample_call_def healthy_def jsonb_args_def)

lemma two_open_ready: "ready two_open"
  by (simp add: ready_def two_open_def open_calls_def can_append_def next_id_def sample_payload is_ok_iff int64_max_def)

theorem concurrent_appends_finish_witness:
  "\<exists>rest u. list_all statement rest \<and> schedule two_open rest = Some u \<and> sessions u = []"
  using concurrent_appends_finish [OF two_open_reached two_open_ready, of "[]" two_open] by simp

end
