(* ===== verification/Interleaving.thy ===== *)
theory Interleaving
  imports Concurrency Step_Proof
begin

section \<open>Steps without a transaction\<close>

text \<open>
  \<^verbatim>\<open>step.audit.anchor\<close> and \<^verbatim>\<open>step.audit.proof\<close> send their statements one by one, outside any transaction, so
  other callers' appends can fall between them. The handlers here are those of the two steps with that
  work made explicit, and both are linearizable: the appends change nothing of what a request answers and
  records. (Polls that overlap are in \<open>Poll_Overlap\<close>.)
\<close>

subsection \<open>Appends in between\<close>

text \<open>What other callers append; by \<open>concurrent_appends_serializable\<close> it is one append after the other.\<close>

definition appends :: "database \<Rightarrow> database \<Rightarrow> bool" where
  "appends db db' \<longleftrightarrow> (\<exists>qs rs. serial db qs = (db', rs))"

lemma appends_refl [simp]: "appends db db"
  unfolding appends_def by (intro exI [of _ "[]"]) simp

lemma serial_append:
  "serial db qs = (db1, rs) \<Longrightarrow> serial db1 qs' = (db2, rs') \<Longrightarrow> serial db (qs @ qs') = (db2, rs @ rs')"
  by (induction qs arbitrary: db rs) (auto split: prod.splits)

lemma appends_trans: "appends db db1 \<Longrightarrow> appends db1 db2 \<Longrightarrow> appends db db2"
  unfolding appends_def using serial_append by blast

lemma run_call_keeps_anchors: "run_call db q = (db', r) \<Longrightarrow> audit_anchors db' = audit_anchors db"
  by (erule run_call_cases) simp_all

lemma serial_anchors: "serial db qs = (db', rs) \<Longrightarrow> audit_anchors db' = audit_anchors db"
proof (induction qs arbitrary: db rs)
  case (Cons q qs)
  then obtain db1 r rs1 where "run_call db q = (db1, r)" "serial db1 qs = (db', rs1)" by (auto split: prod.splits)
  with Cons.IH run_call_keeps_anchors show ?case by metis
qed simp

lemma appends_anchors: "appends db db' \<Longrightarrow> audit_anchors db' = audit_anchors db"
  unfolding appends_def using serial_anchors by blast

lemma appends_grows: "appends db db' \<Longrightarrow> length (audit_log db) \<le> length (audit_log db')"
  unfolding appends_def using serial_grows by blast

lemma appends_chains:
  "appends db db' \<Longrightarrow> \<forall>k. chain_ok db k \<Longrightarrow> int (length (audit_log db')) \<le> int64_max \<Longrightarrow> \<forall>k. chain_ok db' k"
  unfolding appends_def using serial_chain by blast

text \<open>An append neither sees nor touches the anchors.\<close>

lemma insert_log_other_anchors:
  "insert_log pg (db\<lparr>audit_anchors := x\<rparr>) docs r = map_sum id (\<lambda>d. d\<lparr>audit_anchors := x\<rparr>) (insert_log pg db docs r)"
  by (simp add: insert_log_def split: option.split)

lemma update_ledger_other_anchors:
  "update_ledger pg (db\<lparr>audit_anchors := x\<rparr>) l s h = map_sum id (\<lambda>d. d\<lparr>audit_anchors := x\<rparr>) (update_ledger pg db l s h)"
  by (auto simp: update_ledger_def split: option.split intro!: database.equality)

lemma AppendTx_other_anchors:
  "AppendTx pg (db\<lparr>audit_anchors := x\<rparr>) l e p m a = apfst (\<lambda>d. d\<lparr>audit_anchors := x\<rparr>) (AppendTx pg db l e p m a)"
proof -
  have "cursor_rows (db\<lparr>audit_anchors := x\<rparr>) l = cursor_rows db l" by (simp add: cursor_rows_def)
  then show ?thesis
    unfolding AppendTx_def Let_def
    by (simp add: insert_log_other_anchors update_ledger_other_anchors del: new_row_simps split: option.split sum.split)
qed

lemma run_call_other_anchors:
  assumes "run_call db q = (db', r)"
  shows "run_call (db\<lparr>audit_anchors := x\<rparr>) q = (db'\<lparr>audit_anchors := x\<rparr>, r)"
proof -
  obtain db1 res where tx: "AppendTx (call_pg q) db (call_ledger q) (call_event q) (call_payload q) (call_metadata q) (call_actor q)
      = (db1, res)" by (meson surj_pair)
  with assms show ?thesis
    by (cases res) (auto simp: run_call_def Append_def AppendTx_other_anchors split: option.splits)
qed

lemma serial_other_anchors:
  "serial db qs = (db', rs) \<Longrightarrow> serial (db\<lparr>audit_anchors := x\<rparr>) qs = (db'\<lparr>audit_anchors := x\<rparr>, rs)"
proof (induction qs arbitrary: db rs)
  case (Cons q qs)
  then obtain db1 r rs1 where "run_call db q = (db1, r)" "serial db1 qs = (db', rs1)" "rs = r # rs1"
    by (auto split: prod.splits)
  with Cons.IH run_call_other_anchors show ?case by simp
qed simp

lemma appends_other_anchors: "appends db db' \<Longrightarrow> appends (db\<lparr>audit_anchors := x\<rparr>) (db'\<lparr>audit_anchors := x\<rparr>)"
  unfolding appends_def using serial_other_anchors by blast

text \<open>The rows of a range that ends within the ledger stay as they are.\<close>

lemma run_call_range:
  assumes "run_call db q = (db', r)" and "\<forall>k. chain_ok db k" and "\<forall>k. chain_ok db' k"
    and "sint e \<le> int (length (ledger_rows db l))" and "int (length (audit_log db')) \<le> int64_max"
  shows "anchored_rows db' l s e = anchored_rows db l s e \<and> sint e \<le> int (length (ledger_rows db' l))"
  using assms(1)
proof (cases rule: run_call_cases)
  case (2 c ph)
  let ?r = "new_row (call_pg q) c (call_ledger q) (call_event q) (call_payload q) ph (call_metadata q) (call_actor q)"
  have "length (ledger_rows db (call_ledger q)) \<le> length (audit_log db)" by (simp add: ledger_rows_def)
  then have "sint (last_sequence c) < int64_max" using chain_ok_cursor(1) [OF _ 2(1)] assms(2,5) 2(2) by simp
  then have "log_ledger ?r = l \<longrightarrow> seq_of ?r = int (length (ledger_rows db l)) + 1"
    using chain_ok_cursor(1) [OF _ 2(1)] assms(2) by (auto simp: seq_of_def sint_succ)
  with anchored_rows_add_entry assms(2-4) 2(2) show ?thesis by (simp add: ledger_rows_add_entry)
qed (use assms(4) in simp)

lemma appends_range:
  assumes "appends db db'" and "\<forall>k. chain_ok db k" and "int (length (audit_log db')) \<le> int64_max"
    and "sint e \<le> int (length (ledger_rows db l))"
  shows "anchored_rows db' l s e = anchored_rows db l s e"
proof -
  have "serial db qs = (db', rs) \<Longrightarrow> \<forall>k. chain_ok db k \<Longrightarrow> sint e \<le> int (length (ledger_rows db l)) \<Longrightarrow>
      anchored_rows db' l s e = anchored_rows db l s e" for qs rs db
  proof (induction qs arbitrary: db rs)
    case (Cons q qs)
    then obtain db1 r rs1 where run: "run_call db q = (db1, r)" "serial db1 qs = (db', rs1)" by (auto split: prod.splits)
    have short: "int (length (audit_log db1)) \<le> int64_max" using serial_grows [OF run(2)] assms(3) by simp
    have chains: "\<forall>k. chain_ok db1 k" using run_call_chain [OF run(1) Cons.prems(2) short] .
    from run_call_range [OF run(1) Cons.prems(2) chains Cons.prems(3) short] Cons.IH [OF run(2) chains] show ?case by simp
  qed simp
  with assms show ?thesis unfolding appends_def by blast
qed

subsection \<open>The anchor step amid appends\<close>

text \<open>\<open>amid k\<close> is what other callers do to the database before the step's statement \<open>k\<close>: 0 reads the cursor, 1
  the entry hashes, and the later ones insert.\<close>

fun anchor_loop_amid ::
  "(nat \<Rightarrow> database \<Rightarrow> database) \<Rightarrow> pg \<Rightarrow> registry \<Rightarrow> string \<Rightarrow> int64 \<Rightarrow> int64 \<Rightarrow> string \<Rightarrow> nat \<Rightarrow> database
    \<Rightarrow> AnchorRecord list \<Rightarrow> string list \<Rightarrow> database \<times> AnchorRecord list result" where
  "anchor_loop_amid amid pg reg ledger startSeq endSeq root i db recs [] = (db, Inr recs)"
| "anchor_loop_amid amid pg reg ledger startSeq endSeq root i db recs (name # names) =
     (case GetAnchorProvider reg name of
        None \<Rightarrow> (db, Inl (Errorf ''step.audit.anchor: anchor provider %q not registered'' [ArgS name]))
      | Some p \<Rightarrow>
     (case pAnchor p i root of
        Inl e \<Rightarrow> (db, Inl (Errorf ''step.audit.anchor: provider %q: %w'' [ArgS name, ArgE e]))
      | Inr a \<Rightarrow>
     (case insert_anchor pg i (amid (i + 2) db) (new_anchor pg i ledger startSeq endSeq root a) of
        Inl e \<Rightarrow> (amid (i + 2) db,
          Inl (Errorf ''step.audit.anchor: insert audit_anchors for provider %q: %w'' [ArgS name, ArgE e]))
      | Inr db' \<Rightarrow>
          anchor_loop_amid amid pg reg ledger startSeq endSeq root (Suc i) db' (recs @ [anchor_record a]) names)))"

definition AnchorHandler_amid ::
  "(nat \<Rightarrow> database \<Rightarrow> database) \<Rightarrow> pg \<Rightarrow> (string list \<Rightarrow> string list) \<Rightarrow> world \<Rightarrow> AnchorRequest
    \<Rightarrow> world \<times> AnchorResponse result" where
  "AnchorHandler_amid amid pg order w input =
     (if nq_Ledger input = [] then (w, Inl (Errorf ''step.audit.anchor: ledger is required'' []))
      else case GetDB (w_registry w) (nq_Ledger input) of
             None \<Rightarrow>
               (w, Inl (Errorf ''step.audit.anchor: ledger %q not registered; ensure the audit.ledger module is initialised''
                          [ArgS (nq_Ledger input)]))
           | Some d \<Rightarrow>
     (let db0 = amid 0 (pool_db w d)
      in case resolve_end pg db0 input of
        Inl e \<Rightarrow> (put_db w d db0, Inl e)
      | Inr endSeq \<Rightarrow>
     (let db1 = amid 1 db0
      in case anchor_root pg db1 (nq_Ledger input) (nq_StartSequence input) endSeq of
        Inl e \<Rightarrow> (put_db w d db1, Inl e)
      | Inr root \<Rightarrow>
          let providerNames = (if nq_Providers input = [] then AnchorProviderNames order (w_registry w)
                               else nq_Providers input)
          in case anchor_loop_amid amid pg (w_registry w) (nq_Ledger input) (nq_StartSequence input) endSeq root 0
                    db1 [] providerNames of
               (db', Inl e) \<Rightarrow> (put_db w d db', Inl e)
             | (db', Inr recs) \<Rightarrow> (put_db w d db', Inr \<lparr>nr_Anchors = recs\<rparr>))))"

text \<open>With nobody else at work these are the step's own definitions.\<close>

lemma anchor_loop_amid_alone: "anchor_loop_amid (\<lambda>k db. db) = anchor_loop"
proof (intro ext)
  show "anchor_loop_amid (\<lambda>k db. db) pg reg l s e root i db recs names = anchor_loop pg reg l s e root i db recs names"
    for pg reg l s e root i db recs names
    by (induction pg reg l s e root i db recs names rule: anchor_loop.induct) (simp_all split: option.split sum.split)
qed

lemma AnchorHandler_amid_alone: "AnchorHandler_amid (\<lambda>k db. db) pg order w q = AnchorHandler pg order w q"
  by (simp add: AnchorHandler_amid_def AnchorHandler_def anchor_loop_amid_alone Let_def split: option.split sum.split)

text \<open>The loop with and without appends in between: the same records, the same anchors.\<close>

lemma insert_anchor_cong:
  assumes "audit_anchors db = audit_anchors db2" and "insert_anchor pg i db r = Inr db'"
  shows "insert_anchor pg i db2 r = Inr (db2\<lparr>audit_anchors := audit_anchors db'\<rparr>) \<and> db' = db\<lparr>audit_anchors := audit_anchors db'\<rparr>"
  using assms by (auto simp: insert_anchor_def split: option.splits if_splits)

lemma insert_anchor_fails:
  "audit_anchors db = audit_anchors db2 \<Longrightarrow> insert_anchor pg i db r = Inl e \<Longrightarrow> insert_anchor pg i db2 r = Inl e"
  by (auto simp: insert_anchor_def split: option.splits if_splits)

lemma anchor_loop_amid_same:
  "anchor_loop_amid amid pg reg l s e root i db recs names = (db', res) \<Longrightarrow> \<forall>k db. appends db (amid k db) \<Longrightarrow>
   audit_anchors db = audit_anchors db2 \<Longrightarrow>
   \<exists>db2'. anchor_loop pg reg l s e root i db2 recs names = (db2', res) \<and> audit_anchors db' = audit_anchors db2'
     \<and> appends (db\<lparr>audit_anchors := x\<rparr>) (db'\<lparr>audit_anchors := x\<rparr>)"
proof (induction amid pg reg l s e root i db recs names arbitrary: db2 rule: anchor_loop_amid.induct)
  case (2 amid pg reg l s e root i db recs name names)
  have amid: "appends db (amid (i + 2) db)" using "2.prems"(2) by blast
  then have same: "audit_anchors (amid (i + 2) db) = audit_anchors db2" using appends_anchors "2.prems"(3) by simp
  note moved = appends_other_anchors [OF amid, of x]
  consider (early) "db' = db" "\<exists>err. res = Inl err \<and> anchor_loop pg reg l s e root i db2 recs (name # names) = (db2, Inl err)"
    | (called) p a where "GetAnchorProvider reg name = Some p" "pAnchor p i root = Inr a"
    using "2.prems"(1) by (auto split: option.splits sum.splits)
  then show ?case
  proof cases
    case early
    with "2.prems"(3) show ?thesis by auto
  next
    case (called p a)
    show ?thesis
    proof (cases "insert_anchor pg i (amid (i + 2) db) (new_anchor pg i l s e root a)")
      case (Inl err)
      with "2.prems"(1) called insert_anchor_fails [OF same] same moved show ?thesis by auto
    next
      case (Inr db1)
      have rest: "anchor_loop_amid amid pg reg l s e root (Suc i) db1 (recs @ [anchor_record a]) names = (db', res)"
        using "2.prems"(1) called Inr by simp
      note ins = insert_anchor_cong [OF same Inr]
      obtain db2' where "anchor_loop pg reg l s e root (Suc i) (db2\<lparr>audit_anchors := audit_anchors db1\<rparr>) (recs @ [anchor_record a]) names = (db2', res)"
        "audit_anchors db' = audit_anchors db2'" "appends (db1\<lparr>audit_anchors := x\<rparr>) (db'\<lparr>audit_anchors := x\<rparr>)"
        using "2.IH" [OF called Inr rest "2.prems"(2), of "db2\<lparr>audit_anchors := audit_anchors db1\<rparr>"] by auto
      moreover have "db1\<lparr>audit_anchors := x\<rparr> = amid (i + 2) db\<lparr>audit_anchors := x\<rparr>" by (subst conjunct2 [OF ins]) simp
      ultimately show ?thesis using called ins moved appends_trans by auto
    qed
  qed
qed simp

lemma resolve_end_appends:
  "audit_ledgers db = audit_ledgers db2 \<Longrightarrow> resolve_end pg db q = resolve_end pg db2 q"
  by (simp add: resolve_end_def cursor_rows_def)

lemma resolve_end_explicit: "nq_EndSequence q \<noteq> 0 \<Longrightarrow> resolve_end pg db q = resolve_end pg db2 q"
  by (simp add: resolve_end_def)

lemma anchor_root_cong: "anchored_rows db l s e = anchored_rows db2 l s e \<Longrightarrow> anchor_root pg db l s e = anchor_root pg db2 l s e"
  by (simp add: anchor_root_def)

text \<open>The state in which the step could have run alone: the one whose entry hashes it read, or, when it took the
  range's end from the cursor, the one whose cursor it read.\<close>

definition linear_point :: "(nat \<Rightarrow> database \<Rightarrow> database) \<Rightarrow> database \<Rightarrow> AnchorRequest \<Rightarrow> database" where
  "linear_point amid db q = (if nq_EndSequence q = 0 then amid 0 db else amid 1 (amid 0 db))"

lemma AnchorHandler_amid_at:
  assumes "nq_Ledger q \<noteq> []" and "GetDB (w_registry w) (nq_Ledger q) = Some d"
  shows "AnchorHandler_amid amid pg order w q =
     (case resolve_end pg (amid 0 (pool_db w d)) q of
        Inl e \<Rightarrow> (put_db w d (amid 0 (pool_db w d)), Inl e)
      | Inr e \<Rightarrow> (case anchor_root pg (amid 1 (amid 0 (pool_db w d))) (nq_Ledger q) (nq_StartSequence q) e of
          Inl err \<Rightarrow> (put_db w d (amid 1 (amid 0 (pool_db w d))), Inl err)
        | Inr root \<Rightarrow> (case anchor_loop_amid amid pg (w_registry w) (nq_Ledger q) (nq_StartSequence q) e root 0
              (amid 1 (amid 0 (pool_db w d))) [] (provider_names order w q) of
            (db', r) \<Rightarrow> (put_db w d db', map_sum id (\<lambda>recs. \<lparr>nr_Anchors = recs\<rparr>) r))))"
  using assms by (simp add: AnchorHandler_amid_def provider_names_def Let_def split: sum.split prod.split)

subsection \<open>The proof step amid appends\<close>

text \<open>Here statement 0 fetches the entry, 1 the anchors and 2 the hashes of the first anchor's range.\<close>

definition ProofHandler_amid :: "(nat \<Rightarrow> database \<Rightarrow> database) \<Rightarrow> pg \<Rightarrow> world \<Rightarrow> ProofRequest \<Rightarrow> ProofResponse result" where
  "ProofHandler_amid amid pg w input =
     (if fq_Ledger input = [] then Inl (Errorf ''step.audit.proof: ledger is required'' [])
      else case GetDB (w_registry w) (fq_Ledger input) of
             None \<Rightarrow>
               Inl (Errorf ''step.audit.proof: ledger %q not registered; ensure the audit.ledger module is initialised''
                      [ArgS (fq_Ledger input)])
           | Some d \<Rightarrow>
     (let db0 = amid 0 (pool_db w d)
      in case fetchEntry pg db0 (fq_Ledger input) (fq_Sequence input) of
        Inl e \<Rightarrow> Inl (Errorf ''step.audit.proof: %w'' [ArgE e])
      | Inr entry \<Rightarrow>
     (let db1 = amid 1 db0
      in case fetchAnchorsForSequence pg db1 (fq_Ledger input) (fq_Sequence input) of
        Inl e \<Rightarrow> Inl (Errorf ''step.audit.proof: %w'' [ArgE e])
      | Inr anchors \<Rightarrow>
     (case first_anchor_path ''step.audit.proof'' pg (amid 2 db1) (fq_Ledger input) (fq_Sequence input) anchors of
        Inl e \<Rightarrow> Inl e
      | Inr (merklePath, merkleRoot) \<Rightarrow> Inr
          \<lparr>fr_Entry = entry, fr_MerklePath = merklePath, fr_MerkleRoot = merkleRoot,
           fr_Anchors = map aw_record anchors\<rparr>))))"

lemma ProofHandler_amid_alone: "ProofHandler_amid (\<lambda>k db. db) pg w q = ProofHandler pg w q"
  unfolding ProofHandler_amid_def ProofHandler_def Let_def ..

text \<open>Appends only add rows to the log, so an entry that was found stays the one that is found.\<close>

lemma serial_extends: "serial db qs = (db', rs) \<Longrightarrow> \<exists>more. audit_log db' = audit_log db @ more"
proof (induction qs arbitrary: db rs)
  case (Cons q qs)
  then obtain db1 r rs1 where run: "run_call db q = (db1, r)" "serial db1 qs = (db', rs1)" by (auto split: prod.splits)
  obtain more where "audit_log db1 = audit_log db @ more"
    using run(1) by (cases rule: run_call_cases) (metis append_Nil2, metis audit_ledgers_add_entry(3))
  moreover obtain rest where "audit_log db' = audit_log db1 @ rest" using Cons.IH [OF run(2)] by blast
  ultimately have "audit_log db' = audit_log db @ (more @ rest)" by simp
  then show ?case by blast
qed simp

lemma fetchEntry_appends:
  assumes "appends db db'" and "fetchEntry pg db l t = Inr entry"
  shows "fetchEntry pg db' l t = Inr entry"
proof -
  obtain more where "audit_log db' = audit_log db @ more" using assms(1) serial_extends unfolding appends_def by blast
  then have rows: "entry_rows db' l t = entry_rows db l t @ filter (\<lambda>r. log_ledger r = l \<and> log_sequence r = t) more"
    by (simp add: entry_rows_def)
  obtain r where found: "query_row pg SelectEntry (entry_rows db l t) = Inr r"
  proof (cases "query_row pg SelectEntry (entry_rows db l t)")
    case (Inl e)
    with assms(2) show ?thesis by (simp add: fetchEntry_def)
  qed (rule that)
  obtain rs where "entry_rows db l t = r # rs" using query_row_InrD [OF found] ..
  then have "query_row pg SelectEntry (entry_rows db' l t) = query_row pg SelectEntry (entry_rows db l t)"
    by (simp add: rows query_row_def split: option.split)
  with assms(2) show ?thesis by (simp add: fetchEntry_def)
qed

lemma fetchAnchors_cong:
  "audit_anchors db = audit_anchors db' \<Longrightarrow> fetchAnchorsForSequence pg db l t = fetchAnchorsForSequence pg db' l t"
  by (simp add: fetchAnchorsForSequence_def covering_rows_def)

text \<open>At its linear point the step reads the end and the hashes it reads amid the appends.\<close>

lemma linear_point_reads:
  assumes "appends db (amid 0 db)" and "appends (amid 0 db) (amid 1 (amid 0 db))" and "\<forall>k. chain_ok db k"
    and "int (length (audit_log (amid 1 (amid 0 db)))) \<le> int64_max"
  shows "resolve_end pg (linear_point amid db q) q = resolve_end pg (amid 0 db) q"
    and "resolve_end pg (amid 0 db) q = Inr e \<Longrightarrow> anchor_root pg (linear_point amid db q) (nq_Ledger q) s e
      = anchor_root pg (amid 1 (amid 0 db)) (nq_Ledger q) s e"
proof -
  let ?ended = "amid 0 db" and ?l = "nq_Ledger q"
  show "resolve_end pg (linear_point amid db q) q = resolve_end pg ?ended q"
    using resolve_end_explicit [of q pg "amid 1 ?ended" ?ended] by (simp add: linear_point_def)
  assume e: "resolve_end pg ?ended q = Inr e"
  show "anchor_root pg (linear_point amid db q) ?l s e = anchor_root pg (amid 1 ?ended) ?l s e"
  proof (cases "nq_EndSequence q = 0")
    case True
    then obtain c where c: "audit_ledgers ?ended ?l = Some c" "e = last_sequence c" using resolve_end_cases [OF e] by blast
    have "int (length (audit_log ?ended)) \<le> int64_max" using appends_grows [OF assms(2)] assms(4) by simp
    then have chains: "\<forall>k. chain_ok ?ended k" using appends_chains [OF assms(1,3)] by blast
    then have "sint e \<le> int (length (ledger_rows ?ended ?l))" using chain_ok_cursor(1) [OF _ c(1)] c(2) by simp
    from appends_range [OF assms(2) chains assms(4) this] True show ?thesis
      by (intro anchor_root_cong) (simp add: linear_point_def)
  qed (simp add: linear_point_def)
qed

subsection \<open>Properties\<close>

text \<open>C14. Appends by other callers between the statements of an anchor step change nothing of its effect: it gives
  the response and leaves the anchors that it would give and leave if it ran alone, at the moment it read
  the range's end or its hashes, and the log and the cursors are as if only the appends had run.\<close>

theorem AnchorHandler_linearizable:
  assumes "\<forall>k db. appends db (amid k db)" and "\<forall>k. chain_ok (pool_db w d) k"
    and "nq_Ledger q \<noteq> []" and "GetDB (w_registry w) (nq_Ledger q) = Some d"
    and "AnchorHandler_amid amid pg order w q = (w', res)"
    and "int (length (audit_log (amid 1 (amid 0 (pool_db w d))))) \<le> int64_max"
  shows "\<exists>alone after. AnchorHandler pg order (put_db w d (linear_point amid (pool_db w d) q)) q = (alone, res)
    \<and> audit_anchors (pool_db w' d) = audit_anchors (pool_db alone d)
    \<and> appends (pool_db w d) after \<and> pool_db w' d = after\<lparr>audit_anchors := audit_anchors (pool_db alone d)\<rparr>"
proof -
  let ?db = "pool_db w d" and ?l = "nq_Ledger q" and ?s = "nq_StartSequence q"
  let ?ended = "amid 0 ?db" and ?hashed = "amid 1 (amid 0 ?db)" and ?lin = "linear_point amid ?db q"
  note at = AnchorHandler_at [OF assms(3,4)]
  have app: "appends ?db ?ended" "appends ?ended ?hashed" by (rule assms(1) [rule_format])+
  then have app1: "appends ?db ?hashed" by (rule appends_trans)
  have anchors: "audit_anchors ?ended = audit_anchors ?db" "audit_anchors ?hashed = audit_anchors ?db" "audit_anchors ?lin = audit_anchors ?db"
    using appends_anchors [OF app(1)] appends_anchors [OF app1] by (simp_all add: linear_point_def)
  note reads = linear_point_reads [of ?db amid, OF app assms(2,6), of pg q]
  note same_end = reads(1)
  have self: "x = x\<lparr>audit_anchors := audit_anchors ?lin\<rparr>" if "audit_anchors x = audit_anchors ?db" for x :: database
    using that anchors(3) by simp
  show ?thesis
  proof (cases "resolve_end pg ?ended q")
    case (Inl err)
    then have w': "w' = put_db w d ?ended" "res = Inl err" using assms(5) by (simp_all add: AnchorHandler_amid_at [OF assms(3,4)])
    have "AnchorHandler pg order (put_db w d ?lin) q = (put_db w d ?lin, res)"
      using at [of pg order ?lin] Inl same_end w'(2) by simp
    then show ?thesis using app(1) self [OF anchors(1)] anchors w'(1)
      by (intro exI [of _ "put_db w d ?lin"] exI [of _ ?ended] conjI) simp_all
  next
    case (Inr e)
    note same_root = reads(2) [OF Inr, of ?s]
    show ?thesis
    proof (cases "anchor_root pg ?hashed ?l ?s e")
      case err: (Inl err)
      then have w': "w' = put_db w d ?hashed" "res = Inl err" using assms(5) Inr by (simp_all add: AnchorHandler_amid_at [OF assms(3,4)])
      have "AnchorHandler pg order (put_db w d ?lin) q = (put_db w d ?lin, res)"
        using at [of pg order ?lin] Inr err same_end same_root w'(2) by simp
      then show ?thesis using app1 self [OF anchors(2)] anchors w'(1)
        by (intro exI [of _ "put_db w d ?lin"] exI [of _ ?hashed] conjI) simp_all
    next
      case root: (Inr root)
      obtain db' r where loop: "anchor_loop_amid amid pg (w_registry w) ?l ?s e root 0 ?hashed [] (provider_names order w q) = (db', r)"
        by (meson surj_pair)
      then have w': "w' = put_db w d db'" "res = map_sum id (\<lambda>recs. \<lparr>nr_Anchors = recs\<rparr>) r"
        using assms(5) Inr root by (simp_all add: AnchorHandler_amid_at [OF assms(3,4)])
      obtain db2' where alone: "anchor_loop pg (w_registry w) ?l ?s e root 0 ?lin [] (provider_names order w q) = (db2', r)"
        "audit_anchors db' = audit_anchors db2'"
        "appends (?hashed\<lparr>audit_anchors := audit_anchors ?db\<rparr>) (db'\<lparr>audit_anchors := audit_anchors ?db\<rparr>)"
        using anchor_loop_amid_same [OF loop assms(1), of ?lin "audit_anchors ?db"] anchors by auto
      have "?hashed\<lparr>audit_anchors := audit_anchors ?db\<rparr> = ?hashed" using anchors(2) by simp
      then have "appends ?db (db'\<lparr>audit_anchors := audit_anchors ?db\<rparr>)" using appends_trans [OF app1] alone(3) by simp
      moreover have "AnchorHandler pg order (put_db w d ?lin) q = (put_db w d db2', res)"
        using at [of pg order ?lin] Inr root same_end same_root alone(1) w'(2) by simp
      ultimately show ?thesis using alone(2) w'(1)
        by (intro exI [of _ "put_db w d db2'"] exI [of _ "db'\<lparr>audit_anchors := audit_anchors ?db\<rparr>"]) simp
    qed
  qed
qed

text \<open>An append falls between the cursor and the hashes.\<close>

definition amid_append :: "nat \<Rightarrow> database \<Rightarrow> database" where
  "amid_append k db = (if k = 1 then fst (run_call db (sample_call 2)) else db)"

definition whole_ledger :: AnchorRequest where
  "whole_ledger = sample_anchor_request\<lparr>nq_EndSequence := 0\<rparr>"

lemma whole_ledger_run:
  "AnchorHandler steady_pg order anchor_world whole_ledger = AnchorHandler steady_pg order anchor_world sample_anchor_request"
proof -
  have "audit_ledgers sample_db ''l'' = Some (new_ledger\<lparr>last_sequence := 1, last_entry_hash := sample_hash\<rparr>)"
    by (simp add: sample_db_def)
  then have "resolve_end steady_pg sample_db whole_ledger = Inr 1" "resolve_end steady_pg sample_db sample_anchor_request = Inr 1"
    by (simp_all add: resolve_end_def whole_ledger_def sample_anchor_request_def cursor_rows_def query_row_healthy)
  moreover have "nq_Ledger whole_ledger = ''l''" "nq_StartSequence whole_ledger = 1" "nq_Providers whole_ledger = [''p'']"
    "nq_Ledger sample_anchor_request = ''l''" "nq_StartSequence sample_anchor_request = 1"
    "nq_Providers sample_anchor_request = [''p'']" by (simp_all add: whole_ledger_def sample_anchor_request_def)
  ultimately show ?thesis by (simp add: AnchorHandler_def split: sum.split)
qed

lemma amid_append_appends: "appends db (amid_append k db)"
proof -
  obtain db' r where run: "run_call db (sample_call 2) = (db', r)" by (meson surj_pair)
  then have "serial db [sample_call 2] = (db', [r])" by simp
  then have "appends db db'" unfolding appends_def by blast
  then show ?thesis using run by (simp add: amid_append_def)
qed

theorem AnchorHandler_linearizable_witness:
  "\<exists>w' resp. AnchorHandler_amid amid_append steady_pg rev anchor_world whole_ledger = (w', Inr resp)
     \<and> audit_anchors (pool_db w' (Pool 0 ''d'')) = [sample_anchor]"
proof -
  obtain w' res where run: "AnchorHandler_amid amid_append steady_pg rev anchor_world whole_ledger = (w', res)" by (meson surj_pair)
  have lin: "linear_point amid_append sample_db whole_ledger = sample_db"
    by (simp add: linear_point_def amid_append_def whole_ledger_def)
  have same: "put_db anchor_world (Pool 0 ''d'') sample_db = anchor_world" using put_db_same [of anchor_world "Pool 0 ''d''"] by simp
  obtain db' r where "run_call sample_db (sample_call 2) = (db', r)" by (meson surj_pair)
  then have "length (audit_log (amid_append 1 (amid_append 0 sample_db))) \<le> 2"
    by (auto simp: amid_append_def elim: run_call_cases)
  then have short: "int (length (audit_log (amid_append 1 (amid_append 0 (pool_db anchor_world (Pool 0 ''d'')))))) \<le> int64_max"
    by (simp add: int64_max_def)
  have "nq_Ledger whole_ledger = ''l''" by (simp add: whole_ledger_def sample_anchor_request_def)
  with AnchorHandler_linearizable [OF _ _ _ _ run short] amid_append_appends
  obtain alone where "AnchorHandler steady_pg rev anchor_world whole_ledger = (alone, res)"
    "audit_anchors (pool_db w' (Pool 0 ''d'')) = audit_anchors (pool_db alone (Pool 0 ''d''))"
    by (auto simp: lin same)
  then show ?thesis using run by (auto simp: whole_ledger_run sample_anchor_run)
qed

text \<open>C15. Appends by other callers between the statements of a proof request change nothing of its answer: it
  is the answer the request would get alone, in the state in which it read the entry, if it found none,
  or in the one in which it read the hashes.\<close>

theorem ProofHandler_linearizable:
  assumes "\<forall>k db. appends db (amid k db)" and "GetDB (w_registry w) (fq_Ledger q) = Some d"
  shows "\<exists>alone \<in> {amid 0 (pool_db w d), amid 2 (amid 1 (amid 0 (pool_db w d)))}. appends (pool_db w d) alone
    \<and> ProofHandler_amid amid pg w q = ProofHandler pg (put_db w d alone) q"
proof -
  let ?found = "amid 0 (pool_db w d)" and ?last = "amid 2 (amid 1 (amid 0 (pool_db w d)))"
  have steps: "appends (pool_db w d) ?found" "appends ?found (amid 1 ?found)" "appends (amid 1 ?found) ?last"
    by (rule assms(1) [rule_format])+
  then have more: "appends ?found ?last" "appends (pool_db w d) ?last" using appends_trans by blast+
  show ?thesis
  proof (cases "fetchEntry pg ?found (fq_Ledger q) (fq_Sequence q)")
    case (Inl e)
    then have "ProofHandler_amid amid pg w q = ProofHandler pg (put_db w d ?found) q"
      using assms(2) by (simp add: ProofHandler_amid_def ProofHandler_def Let_def)
    with steps(1) show ?thesis by blast
  next
    case (Inr entry)
    have "audit_anchors (amid 1 ?found) = audit_anchors ?last" using appends_anchors [OF steps(3)] by simp
    then have "fetchAnchorsForSequence pg (amid 1 ?found) (fq_Ledger q) (fq_Sequence q)
        = fetchAnchorsForSequence pg ?last (fq_Ledger q) (fq_Sequence q)" by (rule fetchAnchors_cong)
    then have "ProofHandler_amid amid pg w q = ProofHandler pg (put_db w d ?last) q"
      using assms(2) Inr fetchEntry_appends [OF more(1) Inr]
      by (simp add: ProofHandler_amid_def ProofHandler_def Let_def split: sum.split)
    with more(2) show ?thesis by blast
  qed
qed

theorem ProofHandler_linearizable_witness:
  "\<exists>alone. ProofHandler_amid amid_append steady_pg proof_world sample_proof
     = ProofHandler steady_pg (put_db proof_world (Pool 0 ''d'') alone) sample_proof"
proof -
  have "\<forall>k db. appends db (amid_append k db)" using amid_append_appends by blast
  from ProofHandler_linearizable [OF this, of proof_world sample_proof "Pool 0 ''d''" steady_pg] show ?thesis by auto
qed

end
