(* ===== verification/Poll_Overlap.thy ===== *)
theory Poll_Overlap
  imports Step_Poll Provider_Modules Machine
begin

section \<open>Polls that overlap\<close>

text \<open>
  \<^verbatim>\<open>steps/poll_anchor_confirmation.go\<close> reads an anchor's level with one statement, asks the provider, and then
  writes the new level with another; the three are not in a transaction and the UPDATE does not look at the
  level again. Here each poll is two actions, and those of several polls interleave. One poll alone is the
  handler; overlapping polls keep every row at or above the level it had when they started, but
  a slow poll can overwrite what a fast one has stored (\<open>poll_race\<close>).
\<close>

subsection \<open>The actions\<close>

record poll =
  po_db :: sql_db
  po_provider :: AnchorProvider
  po_anchor :: int64
  po_row :: anchor_row
  po_request :: PollAnchorConfirmationRequest

record poll_server =
  ps_world :: world
  ps_open :: "nat \<Rightarrow> poll option"

text \<open>\<open>ReadLevel\<close> is the handler up to the SELECT, \<open>Report\<close> the call of the provider, its \<open>n\<close>-th, and the rest.\<close>

datatype poll_action = ReadLevel nat pg PollAnchorConfirmationRequest | Report nat pg go_time nat

fun poll_act :: "poll_server \<Rightarrow> poll_action \<Rightarrow> poll_server option" where
  "poll_act s (ReadLevel k pg input) =
     (if ps_open s k \<noteq> None then None
      else case poll_lookup pg (ps_world s) input of
             Inl e \<Rightarrow> None
           | Inr (d, p, anchorID, row) \<Rightarrow> Some (s\<lparr>ps_open := (ps_open s)(k \<mapsto>
               \<lparr>po_db = d, po_provider = p, po_anchor = anchorID, po_row = row, po_request = input\<rparr>)\<rparr>))"
| "poll_act s (Report k pg clock n) =
     (case ps_open s k of
        None \<Rightarrow> None
      | Some po \<Rightarrow>
          let s' = s\<lparr>ps_open := (ps_open s)(k := None)\<rparr>
          in case pVerify (po_provider po) n (polled_anchor (po_request po) (po_row po)) of
               Inl e \<Rightarrow> Some s'
             | Inr v \<Rightarrow> Some (s'\<lparr>ps_world := fst (poll_answer pg clock (ps_world s) (po_db po) (po_anchor po)
                 (anchor_confirmation (po_row po)) v)\<rparr>))"

abbreviation poll_schedule :: "poll_server \<Rightarrow> poll_action list \<Rightarrow> poll_server option" where
  "poll_schedule \<equiv> runs poll_act"

definition no_polls :: "world \<Rightarrow> poll_server" where
  "no_polls w = \<lparr>ps_world = w, ps_open = (\<lambda>k. None)\<rparr>"

lemma no_polls_simps [simp]: "ps_world (no_polls w) = w" "ps_open (no_polls w) k = None"
  by (simp_all add: no_polls_def)

text \<open>A poll that nothing overlaps is the handler.\<close>

lemma poll_alone:
  assumes "poll_lookup pg w q = Inr x"
  shows "map_option ps_world (poll_schedule (no_polls w) [ReadLevel k pg q, Report k pg clock 0])
    = Some (fst (PollAnchorConfirmationHandler pg clock w None (Some q)))"
proof -
  obtain d p i row where x: "x = (d, p, i, row)" by (cases x)
  have merge: "mergePollAnchorConfirmation None (Some q) = q" by (simp add: mergePollAnchorConfirmation_def)
  show ?thesis
    using assms by (simp add: x PollAnchorConfirmationHandler_def merge Let_def split: sum.split)
qed

subsection \<open>The floor\<close>

text \<open>What every interleaving keeps of one database: its rows are forward of the rows \<open>old\<close> at the start, and so
  are the levels that open polls have read.\<close>

definition polls_ok :: "string \<Rightarrow> anchor_row list \<Rightarrow> poll_server \<Rightarrow> bool" where
  "polls_ok dsn old s \<longleftrightarrow> list_all2 forward old (audit_anchors (w_dbs (ps_world s) dsn))
     \<and> (\<forall>k po. ps_open s k = Some po \<longrightarrow> pool_dsn (po_db po) = dsn \<longrightarrow> (\<forall>a \<in> set old. anchor_id a = po_anchor po \<longrightarrow>
          confirmationOrder (anchor_confirmation a) \<le> confirmationOrder (anchor_confirmation (po_row po))))"

lemma forward_row:
  assumes "list_all2 forward old new" and "distinct (map anchor_id old)" and "b \<in> set new" and "a \<in> set old"
    and "anchor_id a = anchor_id b"
  shows "confirmationOrder (anchor_confirmation a) \<le> confirmationOrder (anchor_confirmation b)"
proof -
  obtain j where j: "j < length new" "b = new ! j" using assms(3) by (metis in_set_conv_nth)
  then have f: "forward (old ! j) b" "old ! j \<in> set old" using assms(1) by (auto simp: list_all2_conv_all_nth)
  then have "old ! j = a" using assms(2,4,5) by (auto simp: forward_def distinct_map dest: inj_onD)
  with f show ?thesis by (simp add: forward_def)
qed

lemma poll_act_ok:
  assumes "poll_act s a = Some t" and "polls_ok dsn old s" and "distinct (map anchor_id old)"
  shows "polls_ok dsn old t"
proof (cases a)
  case (ReadLevel k pg q)
  obtain d p i row where look: "poll_lookup pg (ps_world s) q = Inr (d, p, i, row)"
    and t: "t = s\<lparr>ps_open := (ps_open s)(k \<mapsto> \<lparr>po_db = d, po_provider = p, po_anchor = i, po_row = row, po_request = q\<rparr>)\<rparr>"
    using assms(1) ReadLevel by (auto split: if_splits sum.splits)
  have "confirmationOrder (anchor_confirmation a) \<le> confirmationOrder (anchor_confirmation row)"
    if "pool_dsn d = dsn" "a \<in> set old" "anchor_id a = i" for a
  proof (rule forward_row [OF _ assms(3) _ that(2)])
    show "list_all2 forward old (audit_anchors (w_dbs (ps_world s) dsn))" using assms(2) by (simp add: polls_ok_def)
    show "row \<in> set (audit_anchors (w_dbs (ps_world s) dsn))" "anchor_id a = anchor_id row"
      using poll_lookup_InrD(4,5) [OF look] that(1,3) by (simp_all add: pool_db_def)
  qed
  with assms(2) show ?thesis by (simp add: polls_ok_def t)
next
  case (Report k pg clock n)
  obtain po where po: "ps_open s k = Some po" using assms(1) Report by (auto split: option.splits)
  let ?w' = "\<lambda>v. fst (poll_answer pg clock (ps_world s) (po_db po) (po_anchor po) (anchor_confirmation (po_row po)) v)"
  have t: "t = s\<lparr>ps_open := (ps_open s)(k := None)\<rparr> \<or>
      (\<exists>v. t = s\<lparr>ps_open := (ps_open s)(k := None), ps_world := ?w' v\<rparr>)"
    using assms(1) Report po by (auto simp: Let_def split: sum.splits)
  have rows: "list_all2 forward old (audit_anchors (w_dbs (?w' v) dsn))" for v
  proof -
    have base: "list_all2 forward old (audit_anchors (w_dbs (ps_world s) dsn))" using assms(2) by (simp add: polls_ok_def)
    obtain w' r where run: "poll_answer pg clock (ps_world s) (po_db po) (po_anchor po) (anchor_confirmation (po_row po)) v = (w', r)"
      by (meson surj_pair)
    then show ?thesis
    proof (cases rule: poll_answer_cases)
      case (moved resp db')
      show ?thesis
      proof (cases "dsn = pool_dsn (po_db po)")
        case True
        obtain f where f: "audit_anchors db' = map f (audit_anchors (pool_db (ps_world s) (po_db po)))"
          "\<forall>a. anchor_id a \<noteq> po_anchor po \<longrightarrow> f a = a"
          "\<forall>a. anchor_id a = po_anchor po \<longrightarrow> f a = a\<lparr>anchor_confirmation := VConfirmation v,
             confirmed_at := (if VConfirmation v = ''confirmed'' then Some (pg_now pg) else confirmed_at a),
             finalized_at := (if VConfirmation v = ''finalized'' then Some (pg_now pg) else finalized_at a)\<rparr>"
          using update_confirmation_rows [OF moved(8)] by blast
        have "forward a (f b)" if "forward a b" "a \<in> set old" for a b
        proof (cases "anchor_id b = po_anchor po")
          case True
          with that have "anchor_id a = po_anchor po" by (simp add: forward_def)
          with that(2) assms(2) po \<open>dsn = pool_dsn (po_db po)\<close>
          have "confirmationOrder (anchor_confirmation a) \<le> confirmationOrder (anchor_confirmation (po_row po))"
            by (simp add: polls_ok_def)
          with moved(7) True f(3) that(1) show ?thesis by (simp add: forward_def)
        qed (use f(2) that in simp)
        then have "list_all2 forward old (map f (audit_anchors (w_dbs (ps_world s) dsn)))"
          using base by (auto simp: list_all2_conv_all_nth)
        with run moved(9) True f(1) show ?thesis by (simp add: put_db_def pool_db_def)
      qed (use run moved(9) base in \<open>simp add: put_db_def\<close>)
    qed (use run base in simp_all)
  qed
  with t assms(2) show ?thesis by (auto simp: polls_ok_def split: if_splits)
qed

interpretation polls: machine poll_act "\<lambda>s. polls_ok dsn old s \<and> distinct (map anchor_id old)" for dsn old
  by unfold_locales (auto dest: poll_act_ok)

lemma polls_ok_start: "polls_ok dsn (audit_anchors (w_dbs w dsn)) (no_polls w)"
  by (simp add: polls_ok_def list.rel_refl)

subsection \<open>Properties\<close>

text \<open>C21. However the statements of any number of polls interleave, every row keeps its identity, range, root
  and proof, and its level never falls below the level it had when the first of them started.\<close>

theorem overlapping_polls_floor:
  assumes "poll_schedule (no_polls w) acts = Some s" and "distinct (map anchor_id (audit_anchors (w_dbs w dsn)))"
  shows "list_all2 forward (audit_anchors (w_dbs w dsn)) (audit_anchors (w_dbs (ps_world s) dsn))"
  using polls.runs_keep [OF assms(1) conjI [OF polls_ok_start assms(2)]] by (simp add: polls_ok_def)

text \<open>A provider that sees the anchor confirmed at first and finalized from its next call on.\<close>

definition advancing_provider :: AnchorProvider where
  "advancing_provider =
     \<lparr>pName = ''git'', pAnchor = (\<lambda>i root. Inl (Sentinel ''unused'')),
      pVerify = (\<lambda>i a. Inr \<lparr>VProvider = ''git'', VConfirmation =
          (if i = 0 \<and> Confirmation a = ConfirmationPending then ConfirmationConfirmed else ConfirmationFinalized),
        UpdatedAt = 0, Swallowed = False, ErrorMessage = []\<rparr>),
      pCost = (\<lambda>n. \<lparr>PerAnchorUSDCents = 0, Notes = []\<rparr>)\<rparr>"

lemma advancing_contract: "contract_ok advancing_provider"
  unfolding contract_ok_def
proof (intro allI, unfold_locales)
  show "level_rank (Confirmation a) \<le> level_rank (VConfirmation v)"
    if "pVerify advancing_provider i a = Inr v" for i a v
    using that by (auto simp: advancing_provider_def rank_finalized) (simp add: rank_pending)
qed (auto simp: advancing_provider_def)

definition race_world :: "string \<Rightarrow> world" where
  "race_world level =
     \<lparr>w_registry = RegisterAnchorProvider ''p'' advancing_provider sample_registry,
      w_dbs = (\<lambda>dsn. sample_db\<lparr>audit_anchors := [sample_pending\<lparr>anchor_confirmation := level\<rparr>]\<rparr>)\<rparr>"

text \<open>Two polls of one pending anchor: both read it, the second is answered later and stores its answer first.\<close>

definition race :: "poll_action list" where
  "race = [ReadLevel 0 steady_pg poll_request, ReadLevel 1 steady_pg poll_request, Report 1 steady_pg 0 1]"

lemma race_lookup:
  "GetDB (w_registry w) ''l'' = Some (Pool 0 ''d'') \<Longrightarrow> GetAnchorProvider (w_registry w) ''p'' = Some advancing_provider \<Longrightarrow>
   audit_anchors (pool_db w (Pool 0 ''d'')) = [sample_pending] \<Longrightarrow>
   poll_lookup steady_pg w poll_request = Inr (Pool 0 ''d'', advancing_provider, 1, sample_pending)"
  by (simp add: poll_lookup_def parse_one query_row_healthy) (simp add: sample_pending_def query_row_healthy)

text \<open>The row is finalized after the first answer is stored, and confirmed after the second is.\<close>

lemma poll_race:
  "\<exists>s t. poll_schedule (no_polls (race_world ''pending'')) race = Some s
     \<and> map anchor_confirmation (audit_anchors (pool_db (ps_world s) (Pool 0 ''d''))) = [''finalized'']
     \<and> poll_act s (Report 0 steady_pg 0 0) = Some t
     \<and> map anchor_confirmation (audit_anchors (pool_db (ps_world t) (Pool 0 ''d''))) = [''confirmed'']"
proof -
  have pending: "sample_pending\<lparr>anchor_confirmation := ''pending''\<rparr> = sample_pending" by (simp add: sample_pending_def)
  have "poll_lookup steady_pg (race_world ''pending'') poll_request = Inr (Pool 0 ''d'', advancing_provider, 1, sample_pending)"
    by (rule race_lookup) (simp_all add: race_world_def sample_registry_def RegisterAnchorProvider_def GetAnchorProvider_def
        GetDB_def map_get_def pool_db_def pending)
  then show ?thesis
    by (simp add: race_def no_polls_def advancing_provider_def polled_anchor_def poll_answer_def update_confirmation_def Let_def
        confirmationOrder_def confirmation_defs)
      (simp add: race_world_def pool_db_def put_db_def sample_pending_def confirmation_defs)
qed

theorem overlapping_polls_floor_witness:
  "\<exists>s. poll_schedule (no_polls (race_world ''pending'')) race = Some s
     \<and> list_all2 forward [sample_pending] (audit_anchors (w_dbs (ps_world s) ''d''))"
proof -
  obtain s where run: "poll_schedule (no_polls (race_world ''pending'')) race = Some s" using poll_race by blast
  have "audit_anchors (w_dbs (race_world ''pending'') ''d'') = [sample_pending]" by (simp add: race_world_def sample_pending_def)
  with overlapping_polls_floor [OF run, of "''d''"] run show ?thesis by simp
qed

end
