(* ===== verification/Step_MerkleRoot.thy ===== *)
theory Step_MerkleRoot
  imports World Merkle
begin

section \<open>step.audit.merkle_root\<close>

text \<open>
  \<^verbatim>\<open>steps/merkle_root.go\<close>: the entry hashes of a range of a ledger in the order of their sequence numbers,
  and the Merkle root over them.
\<close>

definition merkle_rows :: "database \<Rightarrow> MerkleRootRequest \<Rightarrow> log_row list" where
  "merkle_rows db input = select_log db (mq_Ledger input)
     (\<lambda>s. sint (mq_StartSequence input) \<le> s \<and> (mq_EndSequence input = 0 \<or> s \<le> sint (mq_EndSequence input)))"

text \<open>The loop's variables and its body.\<close>

record merkle_state =
  ms_hashes :: "string list"
  ms_startSeq :: int64
  ms_endSeq :: int64
  ms_first :: bool

definition merkle_body :: "pg \<Rightarrow> nat \<Rightarrow> merkle_state \<Rightarrow> log_row \<Rightarrow> (merkle_state, go_error) flow" where
  "merkle_body pg i st r =
     (case pg_scan_fault pg SelectRange i of
        Some e \<Rightarrow> Return e
      | None \<Rightarrow> Next
          \<lparr>ms_hashes = ms_hashes st @ [log_entry_hash r],
           ms_startSeq = (if ms_first st then log_sequence r else ms_startSeq st),
           ms_endSeq = log_sequence r, ms_first = False\<rparr>)"

definition MerkleRootHandler :: "pg \<Rightarrow> world \<Rightarrow> MerkleRootRequest \<Rightarrow> MerkleRootResponse result" where
  "MerkleRootHandler pg w input =
     (if mq_Ledger input = [] then Inl (Errorf ''step.audit.merkle_root: ledger is required'' [])
      else case GetDB (w_registry w) (mq_Ledger input) of
             None \<Rightarrow>
               Inl (Errorf ''step.audit.merkle_root: ledger %q not registered; ensure the audit.ledger module is initialised''
                      [ArgS (mq_Ledger input)])
           | Some db \<Rightarrow>
     (case query_rows pg SelectRange (merkle_rows (pool_db w db) input) of
        Inl e \<Rightarrow> Inl (Errorf ''step.audit.merkle_root: query: %w'' [ArgE e])
      | Inr (rows, rows_err) \<Rightarrow>
     (case for_rows (merkle_body pg) 0 \<lparr>ms_hashes = [], ms_startSeq = 0, ms_endSeq = 0, ms_first = True\<rparr> rows of
        Return e \<Rightarrow> Inl (Errorf ''step.audit.merkle_root: scan: %w'' [ArgE e])
      | Next st \<Rightarrow>
     (case rows_err of
        Some e \<Rightarrow> Inl (Errorf ''step.audit.merkle_root: rows: %w'' [ArgE e])
      | None \<Rightarrow>
          if ms_hashes st = []
          then Inl (Errorf ''step.audit.merkle_root: no entries found in ledger %q for sequence range [%d, %d]''
                      [ArgS (mq_Ledger input), ArgI (sint (mq_StartSequence input)), ArgI (sint (mq_EndSequence input))])
          else case MerkleRoot (ms_hashes st) of
                 Inl e \<Rightarrow> Inl (Errorf ''step.audit.merkle_root: %w'' [ArgE e])
               | Inr root \<Rightarrow> Inr
                   \<lparr>mr_Root = root, mr_EntriesIncluded = of_nat (length (ms_hashes st)),
                    mr_StartSequence = ms_startSeq st, mr_EndSequence = ms_endSeq st\<rparr>))))"

lemma merkle_loop:
  assumes "for_rows (merkle_body pg) i st rows = Next st'"
  shows "ms_hashes st' = ms_hashes st @ map log_entry_hash rows
    \<and> (rows \<noteq> [] \<longrightarrow> ms_startSeq st' = (if ms_first st then log_sequence (hd rows) else ms_startSeq st)
         \<and> ms_endSeq st' = log_sequence (last rows))"
  using assms
proof (induction rows arbitrary: i st)
  case (Cons r rs)
  obtain st1 where st1: "merkle_body pg i st r = Next st1" "for_rows (merkle_body pg) (Suc i) st1 rs = Next st'"
    using Cons.prems by (auto split: flow.splits)
  then have "ms_hashes st1 = ms_hashes st @ [log_entry_hash r]" "ms_first st1 = False"
    "ms_startSeq st1 = (if ms_first st then log_sequence r else ms_startSeq st)" "ms_endSeq st1 = log_sequence r"
    by (auto simp: merkle_body_def split: option.splits)
  with Cons.IH [OF st1(2)] st1(2) show ?case by (cases "rs = []") auto
qed simp

text \<open>The whole handler, when it answers.\<close>

lemma MerkleRootHandler_InrD:
  assumes "MerkleRootHandler pg w q = Inr resp"
  obtains d rows where "GetDB (w_registry w) (mq_Ledger q) = Some d" "rows = merkle_rows (pool_db w d) q"
    "rows \<noteq> []" "MerkleRoot (map log_entry_hash rows) = Inr (mr_Root resp)"
    "mr_EntriesIncluded resp = of_nat (length rows)"
    "mr_StartSequence resp = log_sequence (hd rows)" "mr_EndSequence resp = log_sequence (last rows)"
proof -
  obtain d rows st where d: "GetDB (w_registry w) (mq_Ledger q) = Some d"
    and rows: "query_rows pg SelectRange (merkle_rows (pool_db w d) q) = Inr (rows, None)"
    and st: "for_rows (merkle_body pg) 0 \<lparr>ms_hashes = [], ms_startSeq = 0, ms_endSeq = 0, ms_first = True\<rparr> rows = Next st"
    and resp: "ms_hashes st \<noteq> []" "MerkleRoot (ms_hashes st) = Inr (mr_Root resp)"
      "mr_EntriesIncluded resp = of_nat (length (ms_hashes st))" "mr_StartSequence resp = ms_startSeq st"
      "mr_EndSequence resp = ms_endSeq st"
    using assms by (auto simp: MerkleRootHandler_def split: if_splits option.splits sum.splits flow.splits)
  from rows have "rows = merkle_rows (pool_db w d) q" using query_rows_InrD by blast
  with that [OF d this] resp merkle_loop [OF st] show ?thesis by auto
qed

text \<open>C39. The step reports the root over all entry hashes of the range in sequence order, their number,
  and the first and last sequence number it found, which lie in the requested range; it never answers
  for an empty range or from a partial scan. (\<^verbatim>\<open>proto/audit.proto\<close> says that the response's start is echoed from the request:
  it is the requested start only if the ledger has an entry with that number, and the number of the next entry otherwise.)\<close>

theorem MerkleRootHandler_contract:
  assumes "MerkleRootHandler pg w q = Inr resp"
  shows "\<exists>d rows. GetDB (w_registry w) (mq_Ledger q) = Some d \<and> rows \<noteq> []
    \<and> mset rows = {#r \<in># mset (audit_log (pool_db w d)). log_ledger r = mq_Ledger q
         \<and> sint (mq_StartSequence q) \<le> seq_of r \<and> (mq_EndSequence q = 0 \<or> seq_of r \<le> sint (mq_EndSequence q))#}
    \<and> sorted (map seq_of rows)
    \<and> MerkleRoot (map log_entry_hash rows) = Inr (mr_Root resp) \<and> mr_EntriesIncluded resp = of_nat (length rows)
    \<and> mr_StartSequence resp = log_sequence (hd rows) \<and> mr_EndSequence resp = log_sequence (last rows)
    \<and> (mr_StartSequence resp = mq_StartSequence q \<longleftrightarrow> mq_StartSequence q \<in> log_sequence ` set rows)"
proof -
  obtain d where *: "GetDB (w_registry w) (mq_Ledger q) = Some d" "merkle_rows (pool_db w d) q \<noteq> []"
    "MerkleRoot (map log_entry_hash (merkle_rows (pool_db w d) q)) = Inr (mr_Root resp)"
    "mr_EntriesIncluded resp = of_nat (length (merkle_rows (pool_db w d) q))"
    "mr_StartSequence resp = log_sequence (hd (merkle_rows (pool_db w d) q))"
    "mr_EndSequence resp = log_sequence (last (merkle_rows (pool_db w d) q))"
    using MerkleRootHandler_InrD [OF assms] by metis
  let ?rows = "merkle_rows (pool_db w d) q"
  have sorted: "sorted (map seq_of ?rows)" and above: "\<forall>r \<in> set ?rows. sint (mq_StartSequence q) \<le> seq_of r"
    by (simp_all add: merkle_rows_def select_log_def)
  have "log_sequence (hd ?rows) = mq_StartSequence q" if "r \<in> set ?rows" "log_sequence r = mq_StartSequence q" for r
  proof -
    have "seq_of (hd ?rows) \<le> seq_of r" using sorted that(1) by (cases ?rows) auto
    then have "sint (log_sequence (hd ?rows)) = sint (mq_StartSequence q)"
      using above *(2) that(2) by (metis antisym hd_in_set seq_of_def)
    then show ?thesis by (rule signed_word_eqI)
  qed
  then have "mr_StartSequence resp = mq_StartSequence q \<longleftrightarrow> mq_StartSequence q \<in> log_sequence ` set ?rows"
    using *(2,5) by (metis hd_in_set image_iff)
  then show ?thesis
    by (intro exI [of _ d] exI [of _ ?rows])
      (use * in \<open>simp add: merkle_rows_def select_log_def ledger_rows_def filter_filter_mset conj_commute flip: mset_filter\<close>)
qed

text \<open>A request from 0 is answered from 1.\<close>

theorem MerkleRootHandler_contract_witness:
  "\<exists>resp. MerkleRootHandler steady_pg (sample_world sample_db)
      \<lparr>mq_Ledger = ''l'', mq_StartSequence = 0, mq_EndSequence = 0\<rparr> = Inr resp
    \<and> mr_EntriesIncluded resp = 1 \<and> MerkleRoot [sample_hash] = Inr (mr_Root resp) \<and> mr_StartSequence resp = 1"
proof -
  let ?q = "\<lparr>mq_Ledger = ''l'', mq_StartSequence = 0, mq_EndSequence = 0\<rparr>"
  have rows: "merkle_rows sample_db ?q = [sample_row]" by (simp add: merkle_rows_def select_log_def)
  have "is_ok (MerkleRootHandler steady_pg (sample_world sample_db) ?q)"
    by (simp add: MerkleRootHandler_def rows query_rows_healthy merkle_body_def healthyD [OF healthy_steady] MerkleRoot_eq)
  then obtain resp where resp: "MerkleRootHandler steady_pg (sample_world sample_db) ?q = Inr resp"
    by (auto simp: is_ok_iff)
  from MerkleRootHandler_contract [OF this] obtain rs where
    "mset rs = {#sample_row#}" "MerkleRoot (map log_entry_hash rs) = Inr (mr_Root resp)"
    "mr_EntriesIncluded resp = of_nat (length rs)" "mr_StartSequence resp = log_sequence (hd rs)" by auto
  with resp show ?thesis by auto
qed

end
