(* ===== verification/Auditor.thy ===== *)
theory Auditor
  imports Step_Verify Step_MerkleRoot Step_Anchor
begin

section \<open>What an auditor can conclude\<close>

text \<open>
  The point of anchoring: a root that an outside witness holds pins the entries it was computed over, even
  against whoever can rewrite the database and all its hashes. The auditor's procedure is two steps of
  the plugin on the database as it is now: \<open>step.audit.verify\<close> and \<open>step.audit.merkle_root\<close> on the
  anchored range, compared with the anchored root and number of entries.
\<close>

lemma rows_binding:
  assumes "\<forall>r \<in> set rs. row_hash_ok l r" and "\<forall>t \<in> set ts. row_hash_ok l t"
    and "map log_entry_hash rs = map log_entry_hash ts" and "valid_utf8 l" and "\<forall>r \<in> set rs \<union> set ts. text_ok r"
  shows "map entry_fields rs = map entry_fields ts \<or> collides (chain_messages l rs) (chain_messages l ts)"
proof -
  have len: "length rs = length ts" using assms(3) map_eq_imp_length_eq by metis
  have pair: "entry_fields (rs ! i) = entry_fields (ts ! i) \<or> collides (chain_messages l rs) (chain_messages l ts)"
    if "i < length rs" for i
  proof -
    have mem: "rs ! i \<in> set rs" "ts ! i \<in> set ts" using that len by simp_all
    have "log_entry_hash (rs ! i) = log_entry_hash (ts ! i)" using assms(3) that len by (metis nth_map)
    then have "entry_fields (rs ! i) = entry_fields (ts ! i) \<or> collides {row_preimage l (rs ! i)} {row_preimage l (ts ! i)}"
      using assms(1,2,4,5) mem by (intro row_binding) simp_all
    moreover have "collides {row_preimage l (rs ! i)} {row_preimage l (ts ! i)} \<Longrightarrow> collides (chain_messages l rs) (chain_messages l ts)"
      using mem by (elim collides_mono) (auto simp: chain_messages_def)
    ultimately show ?thesis by blast
  qed
  show ?thesis
  proof (cases "collides (chain_messages l rs) (chain_messages l ts)")
    case False
    with pair have "map entry_fields rs = map entry_fields ts" using len by (intro nth_equalityI) auto
    then show ?thesis ..
  qed simp
qed

text \<open>The messages the code hashes for a list of rows: the entries' own and the tree's.\<close>

definition audit_messages :: "string \<Rightarrow> log_row list \<Rightarrow> bytes set" where
  "audit_messages l rs = chain_messages l rs \<union> mmessages (merkle_tree (map log_entry_hash rs))"

lemma anchored_root_binding:
  assumes "\<forall>r \<in> set rs. row_hash_ok l r" and "\<forall>t \<in> set ts. row_hash_ok l t"
    and "MerkleRoot (map log_entry_hash rs) = Inr root" and "MerkleRoot (map log_entry_hash ts) = Inr root"
    and "length rs = length ts" and "valid_utf8 l" and "\<forall>r \<in> set rs \<union> set ts. text_ok r"
  shows "map entry_fields rs = map entry_fields ts \<or> collides (audit_messages l rs) (audit_messages l ts)"
proof -
  have up: "collides (audit_messages l rs) (audit_messages l ts)"
    if "collides M N" "M \<subseteq> audit_messages l rs" "N \<subseteq> audit_messages l ts" for M N
    using that by (rule collides_mono)
  have "length (map log_entry_hash rs) = length (map log_entry_hash ts)" using assms(5) by simp
  from root_binding [OF assms(3,4) this] show ?thesis
  proof
    assume "map log_entry_hash rs = map log_entry_hash ts"
    from rows_binding [OF assms(1,2) this assms(6,7)] show ?thesis using up by (auto simp: audit_messages_def)
  qed (use up in \<open>auto simp: audit_messages_def\<close>)
qed

lemma chain_rows_hashed: "chain_ok db l \<Longrightarrow> r \<in> set (ledger_rows db l) \<Longrightarrow> row_hash_ok l r"
  using chain_from_segment [of l 0 "[]" "ledger_rows db l"] by (simp add: chain_ok_def segment_ok_def)

subsection \<open>Properties\<close>

text \<open>C11. A true anchor pins the entries of its range. Whatever has been done to the database since it was
  recorded, if the plugin now reports the range valid, with the anchored root and as many entries as
  then, the entries are those that were anchored, in every field an entry hash covers, or SHA-256 collides on
  two messages of which one was hashed then and one now.\<close>

theorem audit_detects_tampering:
  assumes "chain_ok db l" and "anchor_ok db a" and "anchor_ledger a = l" and "rs = anchored_rows db l (range_start a) (range_end a)"
    and "VerifyHandler pg w \<lparr>vq_Ledger = l, vq_StartSequence = range_start a, vq_EndSequence = range_end a\<rparr> = Inr v" and "vr_Valid v"
    and "MerkleRootHandler pg' w \<lparr>mq_Ledger = l, mq_StartSequence = range_start a, mq_EndSequence = range_end a\<rparr> = Inr m"
    and "mr_Root m = anchor_merkle_root a" and "mr_EntriesIncluded m = of_nat (length rs)"
    and "GetDB (w_registry w) l = Some d"
    and "ts = verify_rows (pool_db w d) \<lparr>vq_Ledger = l, vq_StartSequence = range_start a, vq_EndSequence = range_end a\<rparr>"
    and "int (length rs) < int64_max" and "int (length ts) < int64_max"
    and "valid_utf8 l" and "\<forall>r \<in> set rs \<union> set ts. text_ok r"
  shows "map entry_fields rs = map entry_fields ts \<or> collides (audit_messages l rs) (audit_messages l ts)"
proof (rule anchored_root_binding [OF _ _ _ _ _ assms(14,15)])
  let ?mq = "\<lparr>mq_Ledger = l, mq_StartSequence = range_start a, mq_EndSequence = range_end a\<rparr>"
  have same: "merkle_rows (pool_db w d) ?mq = ts" by (simp add: assms(11) merkle_rows_def verify_rows_def)
  from assms(7) have m: "MerkleRoot (map log_entry_hash ts) = Inr (mr_Root m)" "mr_EntriesIncluded m = of_nat (length ts)"
    using assms(10) same by (auto elim!: MerkleRootHandler_InrD)
  show "\<forall>t \<in> set ts. row_hash_ok l t"
    using VerifyHandler_valid [OF assms(5,6)] assms(10,11,13) by (simp add: segment_ok_def)
  show "\<forall>r \<in> set rs. row_hash_ok l r"
    using chain_rows_hashed [OF assms(1)] by (auto simp: assms(4) anchored_rows_def chain_ok_select [OF assms(1)])
  show "MerkleRoot (map log_entry_hash rs) = Inr (anchor_merkle_root a)" using assms(2-4) by (simp add: anchor_ok_def)
  show "MerkleRoot (map log_entry_hash ts) = Inr (anchor_merkle_root a)" using m(1) assms(8) by simp
  have "(of_nat (length rs) :: int64) = of_nat (length ts)" using m(2) assms(9) by simp
  then have "sint (of_nat (length rs) :: int64) = sint (of_nat (length ts) :: int64)" by simp
  then show "length rs = length ts" using assms(12,13) by (simp add: sint_of_nat)
qed

text \<open>The ledger after someone has put another actor into its only row, which no entry hash covers.\<close>

definition other_actor :: log_row where
  "other_actor = sample_row\<lparr>log_actor := Some ''eve''\<rparr>"

lemma other_actor_simps [simp]:
  "log_entry_hash other_actor = sample_hash" "seq_of other_actor = 1" "log_ledger other_actor = ''l''"
  "row_hash_ok ''l'' other_actor" "text_ok sample_row" "text_ok other_actor"
  by (simp_all add: other_actor_def seq_of_def row_hash_ok_def sample_row_def sample_hash_def text_ok_def sha256Hex_def
      utf8_width.simps(2) lead_width_def)

theorem audit_detects_tampering_witness:
  "map entry_fields [sample_row] = map entry_fields [other_actor]
     \<or> collides (audit_messages ''l'' [sample_row]) (audit_messages ''l'' [other_actor])"
proof -
  let ?w = "sample_world (sample_db\<lparr>audit_log := [other_actor]\<rparr>)"
  let ?vq = "\<lparr>vq_Ledger = ''l'', vq_StartSequence = 1, vq_EndSequence = 1\<rparr>"
  let ?mq = "\<lparr>mq_Ledger = ''l'', mq_StartSequence = 1, mq_EndSequence = 1\<rparr>"
  have range: "anchor_ledger sample_anchor = ''l''" "range_start sample_anchor = 1" "range_end sample_anchor = 1"
    "anchor_merkle_root sample_anchor = hex_encode (leafNode sample_hash)" by (simp_all add: sample_anchor_def)
  have rows: "verify_rows (sample_db\<lparr>audit_log := [other_actor]\<rparr>) ?vq = [other_actor]"
    "merkle_rows (sample_db\<lparr>audit_log := [other_actor]\<rparr>) ?mq = [other_actor]"
    by (simp_all add: verify_rows_def merkle_rows_def select_log_def ledger_rows_def)
  have v: "VerifyHandler steady_pg ?w ?vq = Inr \<lparr>vr_Valid = True, vr_FirstInvalidSequence = 0, vr_FailureReason = [], vr_EntriesVerified = 1\<rparr>"
    using VerifyHandler_accepts [of steady_pg ?vq ?w "Pool 0 ''d''"] rows(1) by (simp add: int64_max_def segment_ok_def)
  have m: "MerkleRootHandler steady_pg ?w ?mq = Inr \<lparr>mr_Root = hex_encode (leafNode sample_hash), mr_EntriesIncluded = 1,
      mr_StartSequence = log_sequence other_actor, mr_EndSequence = log_sequence other_actor\<rparr>"
    by (simp add: MerkleRootHandler_def rows query_rows_healthy merkle_body_def healthyD [OF healthy_steady] MerkleRoot_eq)
  have "anchor_ok sample_db sample_anchor" by (simp add: anchor_ok_def range MerkleRoot_eq)
  moreover have "valid_utf8 ''l''" by (simp add: utf8_width.simps(2) lead_width_def)
  ultimately show ?thesis
    using audit_detects_tampering [of sample_db "''l''" sample_anchor "[sample_row]" steady_pg ?w _ steady_pg _ "Pool 0 ''d''" "[other_actor]",
        unfolded range, OF _ _ _ _ v _ m] by (simp add: rows int64_max_def)
qed

end
