(* ===== verification/Spec2Isabelle.thy ===== *)
theory Spec2Isabelle
  imports Pipeline Module_Overlap Progress Interleaving Poll_Overlap Auditor
begin

text \<open>
  \<^bold>\<open>workflow-plugin-audit-chain.\<close> The program is a plugin of a workflow engine: it keeps append-only audit
  ledgers in Postgres in which every entry carries the SHA-256 hash of its fields and of the entry before,
  submits Merkle roots over ranges of a ledger to outside witnesses (OpenTimestamps calendars, a git
  remote, Sigstore's Rekor), and answers requests to verify a ledger, to prove that an entry is covered by
  an anchor, and to issue a public receipt. This development models the Go code under src/ and proves
  what makes it correct. Each theory says in its opening text what it holds; this text says how they
  fit together.

  \<^bold>\<open>The parts and how they interact.\<close> The engine creates modules and steps through \<^verbatim>\<open>internal/plugin.go\<close>
  (theory \<open>Plugin\<close>), which decodes a typed configuration and calls a factory of \<^verbatim>\<open>modules/\<close>. A ledger
  module's \<open>Init\<close> opens a connection pool and registers it and an appender under the ledger's name; a
  provider module's \<open>Init\<close> registers its provider under the instance's name (\<open>Registry\<close>,
  \<open>Provider_Modules\<close>). A step (\<^verbatim>\<open>steps/\<close>, theories \<open>Step_*\<close>) looks its ledger and providers up in these
  registries and works on the database: \<open>step.audit.append\<close> through \<^verbatim>\<open>chain/append.go\<close> (\<open>Append\<close>), the anchor,
  proof and Merkle root steps through \<^verbatim>\<open>chain/merkle.go\<close> (\<open>Merkle\<close>). Hashes are taken over canonical JSON
  (\<open>Canonical\<close>).

  \<^bold>\<open>How state and effects are modelled.\<close> The three tables of \<^verbatim>\<open>migrations/\<close> are the record \<open>database\<close>
  (\<open>Database\<close>), the package-level maps the record \<open>registry\<close>, and a handler sees both as a \<open>world\<close>
  (\<open>World\<close>). A handler is a function from the world and its request to the new world and its response or error;
  Go errors are values (\<open>Sentinel\<close> and \<open>Errorf\<close> with the format and its arguments), so every early return
  is a branch. A provider answers by the number of the call within a request and its argument; what it answers
  another request is unrelated (\<open>world_at\<close> in \<open>System\<close> numbers calls on, \<open>AnchorHandler_retry\<close> takes two registries). The server's behaviour is a parameter, the record \<open>pg\<close>: which statement fails and how, after how
  many rows an iteration breaks off, whether a commit whose answer is lost was applied, what \<^verbatim>\<open>NOW()\<close> and
  \<^verbatim>\<open>nextval\<close> return, which texts JSONB refuses. \<open>int64\<close> is a 64-bit word read with \<open>sint\<close>, and bounds on the length of a ledger are
  hypotheses where an increment could wrap around. Strings and byte slices are lists of bytes.

  \<^bold>\<open>The theories.\<close>
    \<^item> Shared: \<open>Prelude\<close> (Go types, errors, the codec and digest interfaces), \<open>Strconv\<close> (decimal, hex),
      \<open>Gomap\<close> (maps with string keys and the interface \<open>keyed_store\<close>), \<open>Sha256\<close>, \<open>Go_Time\<close> and \<open>Rfc3339\<close>
      (timestamps and their JSON text), \<open>Json\<close> and \<open>Json_Roundtrip\<close> (\<open>encoding/json\<close>'s decoder with \<open>UseNumber\<close>
      and its encoder), \<open>Raw_Json\<close> (\<open>json.RawMessage\<close>) with \<open>Text_Image\<close> and \<open>Compaction\<close> (a JSON text that is
      copied or compacted keeps its value), \<open>Struct_Json\<close> (\<open>json.Unmarshal\<close> into structs, with
      case-folded names, slices and reused elements), \<open>Messages\<close> (the structs of \<^verbatim>\<open>gen/audit.pb.go\<close>).
    \<^item> \<open>Canonical\<close>: \<^verbatim>\<open>chain/canonical.go\<close> and \<^verbatim>\<open>chain/hash.go\<close>. Canonicalisation is a normal form that does not
      depend on the order of keys or on white space; two payloads with one hash have one value unless SHA-256 collides; an
      entry's preimage determines its fields.
    \<^item> \<open>Merkle\<close>: \<^verbatim>\<open>chain/merkle.go\<close>. The array algorithm refines a hash tree; the proofs it makes verify; a proof
      that verifies belongs to a leaf, and two lists of one length with one root are equal, unless SHA-256
      collides on messages the code hashes.
    \<^item> \<open>Database\<close>, \<open>Append\<close>: \<^verbatim>\<open>chain/append.go\<close>. The invariant \<open>chain_ok\<close> (numbered without gaps, linked, hashed, with the
      cursor on the last entry), the effect of an append, its atomicity on errors, when it succeeds, and the
      binding of a ledger's history to its last hash.
    \<^item> \<open>Concurrency\<close>, \<open>Progress\<close>: the same code one statement at a time, for any number of transactions in any
      schedule. It refines one append after the other, and it terminates: no schedule deadlocks or runs for
      ever, and every call the server need not refuse is committed and answered. (\<open>Machine\<close> has the contracts
      under which the runs of such a machine keep an invariant and end.)
    \<^item> \<open>Interleaving\<close>, \<open>Poll_Overlap\<close>: the steps that send several statements without a transaction. Appends
      between the statements of an anchor or a proof request change nothing of its effect; overlapping polls
      never lower a level below where they started, though one can undo what another stored.
    \<^item> \<open>Registry\<close>, \<open>Providers\<close>, \<open>World\<close>: \<^verbatim>\<open>modules/\<close> and \<^verbatim>\<open>providers/provider.go\<close>. Life cycle of the modules as a step
      relation with its invariant; the \<open>Verify\<close> contract as the locale \<open>swallowing_provider\<close>.
    \<^item> \<open>Module_Overlap\<close>: the operations of ledger modules split at their critical sections, which those of other modules may
      come between. A registered pool is open and its module's own in every order; the two registries agree where one
      module uses a name and is idle, and need not elsewhere.
    \<^item> \<open>Step_Append\<close>, \<open>Step_Verify\<close>, \<open>Step_MerkleRoot\<close>, \<open>Step_Anchor\<close>, \<open>Step_Proof\<close>, \<open>Step_Poll\<close>, \<open>Step_Receipt\<close> with
      \<open>Redaction\<close>: the handlers of \<^verbatim>\<open>steps/\<close>, whole, with their queries. Verification accepts exactly the sound
      stretches and names the first bad row; an anchor records the root over its range and later appends keep it true;
      a proof verifies against an anchored root; a poll only moves levels forward; redaction hides the
      listed fields and keeps the value of every other.
    \<^item> \<open>Receipt_Reading\<close>: the other end of a receipt. A standard JSON reader finds in the text the fields the step
      put into the document.
    \<^item> \<open>Auditor\<close>: the procedure anchoring is for. If a range verifies and has the anchored root and number of entries, its
      entries are those that were anchored, whatever was done to the database, unless SHA-256 collides.
    \<^item> \<open>Provider_Ots\<close>, \<open>Provider_Git\<close>, \<open>Provider_Sigstore\<close>: the three providers over an HTTP client, a git
      environment and a Rekor client as parameters. What \<open>Anchor\<close> returns is understood by \<open>Verify\<close>; each interprets
      \<open>swallowing_provider\<close>.
    \<^item> \<open>Provider_Modules\<close>, \<open>Plugin\<close>: the factories, creation of modules and steps, and the contract table. The locale
      \<open>shipped_provider\<close> is what the steps rely on in a provider, interpreted for the three backends.
    \<^item> \<open>System\<close>, \<open>System_Data\<close>, \<open>System_Run\<close>: everything together as one step relation from the initial state: module
      operations and the writing steps in any order, with a policy for the requests callers make. \<open>db_change\<close>
      lists what a request can do to a database, and \<open>reachable_invariant\<close> turns what every such change
      keeps into an invariant of all reachable states. There each registered ledger verifies on every
      range, each entry's proof verifies and each receipt can be checked from its text alone if nobody anchors
      ahead of the log, what is stored is well typed, and a poll reports the level that is stored.
    \<^item> \<open>Pipeline\<close>: the three steps of a workflow in a row. An event that is appended, anchored and then proved goes
      through in each such state, if servers and providers answer, and its proof verifies.

  \<^bold>\<open>Bounds and fuel.\<close> The JSON reader \<open>pval\<close> runs on fuel \<open>Suc (2 * length s)\<close> for the input \<open>s\<close>; it makes at most
  two calls before it consumes a byte, and \<open>pval_fuel\<close> proves that more fuel changes nothing, so running out is not a
  behaviour of the model. The array reader \<open>raw_elements\<close> is given the length of its input, and every
  element takes a byte. All other loops are structural or have a measure. The decoder's nesting limit of
  10000 and the calendars' read limit of 1 MiB are the code's own. SHA-256 is modelled in full and no proof
  unfolds it: statements that need collision resistance name the messages that would collide.

  \<^bold>\<open>Parameters and hypotheses.\<close> Code that is not under src/ is a parameter: Postgres (\<open>pg\<close>; the table operations
  check the keys of \<^verbatim>\<open>migrations/\<close>, and \<open>Concurrency\<close> assumes row locks, unique indexes and atomic commits at the default
  isolation level), the HTTP client, go-git and the file system (\<open>git_env\<close>), the Rekor client and the
  key operations (\<open>rekor\<close>), \<open>url.Parse\<close>, text templates, \<open>time.Parse\<close> beyond the strict RFC 3339 form, the
  plugin SDK's step factories (\<open>step_sdk\<close>, with \<open>sdk_ok\<close> for their documented behaviour) and protobuf's
  \<open>UnmarshalTo\<close>. Contexts and their cancellation appear as failing statements.

  \<^bold>\<open>Not modelled.\<close> The protobuf and gRPC plumbing of \<^verbatim>\<open>gen/audit.pb.go\<close> (only its message structs and
  getters are), the field descriptors in the contract registry (only its files' message names are), and \<^verbatim>\<open>cmd/\<close>
  (one call of the SDK). Go's scheduler and memory model are not modelled: a registry access holds a mutex and is one
  step, and the handlers share nothing else. The steps of \<open>System\<close> are whole requests and whole module operations, one after the
  other; what lies between the statements of a request or the sections of an operation is the subject of \<open>Concurrency\<close>, \<open>Interleaving\<close>,
  \<open>Poll_Overlap\<close> and \<open>Module_Overlap\<close>. Column widths are not checked: a string too long for its \<^verbatim>\<open>VARCHAR\<close> is one of the
  faults of \<open>pg\<close>, and that Postgres instead cuts off excess spaces is left out. No code under src/ inserts the rows of \<^verbatim>\<open>audit_ledgers\<close>, so the
  theorems start from databases that may have them. Network time-outs appear as errors of the parameter clients.
\<close>

end
